theory Spec2Isabelle
  imports Main "HOL-Library.Word"
begin

unbundle bit_operations_syntax

section \<open>Data model of \<open>BoardMap\<close> (sudoku_leetcode.cpp)\<close>

text \<open>
  The game board is a \<open>vector<vector<char>>\<close>: a list of rows, each a list of characters.
  The fixed arrays \<open>squares[81]\<close>, \<open>rows[9]\<close>, \<open>columns[9]\<close> and \<open>blocks[9]\<close> of
  \<open>uint16_t\<close> are stores from an index to a 16-bit word. The \<open>set<uint8_t> unsolved\<close> is
  the list of its elements in ascending order, which is the order in which the source
  iterates over it. Square indices are \<open>uint8_t\<close> values; they are natural numbers here and
  the one counter that could wrap (\<open>i++\<close> in the constructor, \<open>reduced++\<close>) has its
  \<open>mod 256\<close> written out.
\<close>

type_synonym grid = "char list list"

record BoardMap =
  board :: grid
  unsolved :: "nat list"
  squares :: "nat \<Rightarrow> 16 word"
  rows :: "nat \<Rightarrow> 16 word"
  columns :: "nat \<Rightarrow> 16 word"
  blocks :: "nat \<Rightarrow> 16 word"

definition rowIndex :: "nat \<Rightarrow> nat" where
  "rowIndex squareIndex = squareIndex div 9"

definition columnIndex :: "nat \<Rightarrow> nat" where
  "columnIndex squareIndex = squareIndex mod 9"

definition blockIndex :: "nat \<Rightarrow> nat" where
  "blockIndex squareIndex = columnIndex squareIndex div 3 + 3 * (rowIndex squareIndex div 3)"

text \<open>\<open>board[rowIndex(index)][columnIndex(index)]\<close>, read and written.\<close>

definition cell :: "grid \<Rightarrow> nat \<Rightarrow> char" where
  "cell b index = b ! rowIndex index ! columnIndex index"

definition set_cell :: "grid \<Rightarrow> nat \<Rightarrow> char \<Rightarrow> grid" where
  "set_cell b index c = b[rowIndex index := (b ! rowIndex index)[columnIndex index := c]]"

text \<open>\<open>std::set::insert\<close> and \<open>std::set::erase\<close> on the ascending list of elements.\<close>

definition set_insert :: "nat \<Rightarrow> nat list \<Rightarrow> nat list" where
  "set_insert i xs = (if i \<in> set xs then xs else insort i xs)"

definition set_erase :: "nat \<Rightarrow> nat list \<Rightarrow> nat list" where
  "set_erase i xs = removeAll i xs"

definition removePossibilities :: "nat \<Rightarrow> 16 word \<Rightarrow> BoardMap \<Rightarrow> BoardMap" where
  "removePossibilities index flags m =
     m\<lparr>squares := (squares m)(index := squares m index AND NOT flags)\<rparr>"

definition updateGroups :: "nat \<Rightarrow> BoardMap \<Rightarrow> BoardMap" where
  "updateGroups index m =
     (let m1 = m\<lparr>rows := (rows m)(rowIndex index := rows m (rowIndex index) OR squares m index)\<rparr>;
          m2 = m1\<lparr>columns := (columns m1)(columnIndex index :=
                   columns m1 (columnIndex index) OR squares m1 index)\<rparr>
      in m2\<lparr>blocks := (blocks m2)(blockIndex index :=
                   blocks m2 (blockIndex index) OR squares m2 index)\<rparr>)"

text \<open>
  \<open>numPossibilities\<close>: the bit-counting loop. \<open>found\<close> is a \<open>uint8_t\<close> incremented at most
  16 times, so it cannot wrap.
\<close>

function numPossibilities_loop :: "16 word \<Rightarrow> nat \<Rightarrow> nat" where
  "numPossibilities_loop val found =
     (if val > 0 then
        (if val mod 2 = 1 then numPossibilities_loop (drop_bit 1 (val - 1)) (found + 1)
         else numPossibilities_loop (drop_bit 1 val) found)
      else found)"
  by pat_completeness auto
termination
proof (relation "measure (\<lambda>(val, found). unat val)")
  show "wf (measure (\<lambda>(val :: 16 word, found :: nat). unat val))" by simp
next
  fix val :: "16 word" and found :: nat
  assume "0 < val" "val mod 2 = 1"
  then have "val \<noteq> 0" by auto
  then have "unat (val - 1) < unat val"
    by (simp add: unat_minus_one unat_gt_0)
  moreover have "unat (drop_bit 1 (val - 1)) \<le> unat (val - 1)"
    by (simp add: drop_bit_eq_div unat_div div_le_dividend)
  ultimately show "((drop_bit 1 (val - 1), found + 1), (val, found))
      \<in> measure (\<lambda>(val, found). unat val)" by simp
next
  fix val :: "16 word" and found :: nat
  assume "0 < val"
  then have "0 < unat val" by (simp add: word_less_nat_alt)
  then have "unat val div 2 < unat val" by simp
  then show "((drop_bit 1 val, found), (val, found)) \<in> measure (\<lambda>(val, found). unat val)"
    by (simp add: drop_bit_eq_div unat_div div_le_dividend)
qed

definition numPossibilities :: "BoardMap \<Rightarrow> nat \<Rightarrow> nat" where
  "numPossibilities m index = numPossibilities_loop (squares m index) 0"

text \<open>\<open>toChar\<close>: the loop over \<open>i = 0 .. 8\<close>, returning \<open>'1' + i\<close> at the first match.\<close>

function toChar_loop :: "nat \<Rightarrow> 16 word \<Rightarrow> char" where
  "toChar_loop i bitmap =
     (if i < 9 then
        (if bitmap = push_bit i 1 then char_of (of_char CHR ''1'' + i)
         else toChar_loop (i + 1) bitmap)
      else CHR ''.'')"
  by pat_completeness auto
termination
  by (relation "measure (\<lambda>(i, bitmap). 9 - i)") auto

definition toChar :: "16 word \<Rightarrow> char" where
  "toChar bitmap = toChar_loop 0 bitmap"

section \<open>Construction\<close>

text \<open>
  The constructor walks the rows and, inside each row, the squares, counting them in the
  \<open>uint8_t i\<close>. An empty square joins \<open>unsolved\<close> with all nine bits; any other character
  \<open>square\<close> gets the single bit \<open>1 << (square - '1')\<close> and is folded into its groups.
  Only characters \<open>'1'\<close> to \<open>'9'\<close> and \<open>'.'\<close> are allowed by the source's contract: for
  another character the shift is not one of the nine bits (or, below \<open>'1'\<close>, undefined in
  C++), and nothing is claimed about such boards. \<open>squares\<close> is not initialised by the
  source; on a 9x9 board each of its 81 entries is written here.
\<close>

definition BoardMap_square :: "char \<Rightarrow> nat \<times> BoardMap \<Rightarrow> nat \<times> BoardMap" where
  "BoardMap_square square = (\<lambda>(i, m).
     ((i + 1) mod 256,
      (if square = CHR ''.'' then
         m\<lparr>unsolved := set_insert i (unsolved m), squares := (squares m)(i := 0b111111111)\<rparr>
       else
         updateGroups i
           (m\<lparr>squares := (squares m)(i := push_bit (of_char square - of_char CHR ''1'') 1)\<rparr>))))"

definition BoardMap_init :: "grid \<Rightarrow> BoardMap" where
  "BoardMap_init b =
     snd (fold (\<lambda>row acc. fold BoardMap_square row acc) b
            (0, \<lparr>board = b, unsolved = [], squares = (\<lambda>_. 0),
                 rows = (\<lambda>_. 0), columns = (\<lambda>_. 0), blocks = (\<lambda>_. 0)\<rparr>))"

section \<open>Constraint propagation: \<open>reduceOptions\<close>\<close>

text \<open>
  One step of the loop over \<open>unsolved\<close>. The accumulator is the counter \<open>reduced\<close>
  (\<open>uint8_t\<close>), the object, and the function-local \<open>static set<uint8_t> solved\<close>.
\<close>

definition reduceOptions_step :: "nat \<Rightarrow> nat \<times> BoardMap \<times> nat list \<Rightarrow> nat \<times> BoardMap \<times> nat list"
  where
  "reduceOptions_step index = (\<lambda>(reduced, m, solved).
     (let options = squares m index;
          y = rowIndex index;
          x = columnIndex index;
          m1 = removePossibilities index (rows m y) m;
          m2 = removePossibilities index (columns m1 x) m1;
          m3 = removePossibilities index (blocks m2 (blockIndex index)) m2
      in if options \<noteq> squares m3 index then
           (let solution = toChar (squares m3 index)
            in if solution \<noteq> CHR ''.'' then
                 ((reduced + 1) mod 256,
                  updateGroups index (m3\<lparr>board := set_cell (board m3) index solution\<rparr>),
                  set_insert index solved)
               else ((reduced + 1) mod 256, m3, solved))
         else (reduced, m3, solved)))"

text \<open>
  \<open>reduceOptions\<close> takes the static set as it was left by the previous call and returns
  the counter, the object and the static set as it leaves it (cleared).
\<close>

definition reduceOptions :: "nat list \<Rightarrow> BoardMap \<Rightarrow> nat \<times> BoardMap \<times> nat list" where
  "reduceOptions solved0 m =
     (case fold reduceOptions_step (unsolved m) (0, m, solved0) of
        (reduced, m', solved) \<Rightarrow>
          (reduced, m'\<lparr>unsolved := fold set_erase solved (unsolved m')\<rparr>, []))"

section \<open>Search: \<open>solve\<close>\<close>

text \<open>The selection scan of \<open>solve\<close>; \<open>None\<close> is its \<open>return false\<close>.\<close>

fun select_scan :: "BoardMap \<Rightarrow> nat list \<Rightarrow> nat \<times> nat \<Rightarrow> (nat \<times> nat) option" where
  "select_scan m [] (fewestPossibilities, guessIndex) = Some (fewestPossibilities, guessIndex)"
| "select_scan m (index # rest) (fewestPossibilities, guessIndex) =
     (let options = numPossibilities m index
      in if options = 0 then None
         else if options < fewestPossibilities then select_scan m rest (options, index)
         else select_scan m rest (fewestPossibilities, guessIndex))"

text \<open>The loop \<open>while (guess < 9)\<close> that looks for the first set bit.\<close>

function guess_loop :: "16 word \<Rightarrow> nat \<Rightarrow> nat" where
  "guess_loop sq guess =
     (if guess < 9 then
        (if sq AND push_bit (guess - 1) 1 > 0 then guess else guess_loop sq (guess + 1))
      else guess)"
  by pat_completeness auto
termination
  by (relation "measure (\<lambda>(sq, guess). 9 - guess)") auto

text \<open>The retraction of a failed guess: \<open>squares[guessIndex] &= ~(1 << (guess - 1))\<close>.\<close>

definition retract :: "nat \<Rightarrow> nat \<Rightarrow> BoardMap \<Rightarrow> BoardMap" where
  "retract guessIndex guess m =
     m\<lparr>squares := (squares m)(guessIndex := squares m guessIndex AND NOT (push_bit (guess - 1) 1))\<rparr>"

declare numPossibilities_loop.simps [simp del]
declare toChar_loop.simps [simp del]
declare guess_loop.simps [simp del]

section \<open>Masks as sets of bit positions\<close>

definition bits :: "16 word \<Rightarrow> nat set" where
  "bits w = {n. bit w n}"

lemma finite_bits [simp]: "finite (bits w)"
  unfolding bits_def by simp

lemma bits_and_not [simp]: "bits (a AND NOT b) = bits a - bits b"
  unfolding bits_def using bit_imp_le_length[of a] by (auto simp: bit_and_iff bit_not_iff)

lemma bits_or [simp]: "bits (a OR b) = bits a \<union> bits b"
  unfolding bits_def by (auto simp: bit_or_iff)

lemma bits_zero [simp]: "bits 0 = {}"
  unfolding bits_def by simp

lemma bits_push_bit_1: "bits (push_bit k 1) = (if k < 16 then {k} else {})"
  unfolding bits_def by (auto simp: bit_exp_iff)

lemma bits_inject: "bits a = bits b \<longleftrightarrow> a = b"
  unfolding bits_def by (auto intro: bit_eqI)

lemma bits_bound: "n \<in> bits w \<Longrightarrow> n < 16"
  unfolding bits_def by (auto dest: bit_imp_le_length)

section \<open>One pass never adds a candidate, and counts the squares it changes\<close>

lemma step_unsolved:
  "reduceOptions_step i (r, m, sol) = (r', m', sol') \<Longrightarrow> unsolved m' = unsolved m"
  by (auto simp: reduceOptions_step_def Let_def removePossibilities_def updateGroups_def
      split: if_splits)

lemma step_squares:
  "reduceOptions_step i (r, m, sol) = (r', m', sol') \<Longrightarrow>
   squares m' = (squares m)(i := ((squares m i AND NOT (rows m (rowIndex i)))
      AND NOT (columns m (columnIndex i))) AND NOT (blocks m (blockIndex i)))"
  by (auto simp: reduceOptions_step_def Let_def removePossibilities_def updateGroups_def
      split: if_splits)

lemma step_same:
  assumes "reduceOptions_step i (r, m, sol) = (r', m', sol')" "squares m' i = squares m i"
  shows "r' = r \<and> m' = m \<and> sol' = sol"
proof -
  from step_squares[OF assms(1)] assms(2)
  have e: "((squares m i AND NOT (rows m (rowIndex i)))
      AND NOT (columns m (columnIndex i))) AND NOT (blocks m (blockIndex i)) = squares m i"
    by (metis fun_upd_same)
  show ?thesis using assms(1) e
    by (auto simp: reduceOptions_step_def Let_def removePossibilities_def)
qed

lemma step_counter:
  "reduceOptions_step i (r, m, sol) = (r', m', sol') \<Longrightarrow> squares m' i \<noteq> squares m i \<Longrightarrow>
   r' = (r + 1) mod 256"
  by (auto simp: reduceOptions_step_def Let_def removePossibilities_def updateGroups_def
      split: if_splits)

lemma step_solved:
  "reduceOptions_step i (r, m, sol) = (r', m', sol') \<Longrightarrow> j \<in> set sol' \<Longrightarrow>
   j \<in> set sol \<or> (j = i \<and> squares m' i \<noteq> squares m i)"
  by (auto simp: reduceOptions_step_def Let_def removePossibilities_def updateGroups_def set_insert_def
      set_insort_key split: if_splits)

lemma step_shrinks:
  "reduceOptions_step i (r, m, sol) = (r', m', sol') \<Longrightarrow> bits (squares m' j) \<subseteq> bits (squares m j)"
  by (auto simp: step_squares)


lemma fold_step_unsolved:
  "fold reduceOptions_step xs (r, m, sol) = (r', m', sol') \<Longrightarrow> unsolved m' = unsolved m"
proof (induction xs arbitrary: r m sol)
  case Nil
  then show ?case by simp
next
  case (Cons x xs)
  obtain r1 m1 sol1 where st: "reduceOptions_step x (r, m, sol) = (r1, m1, sol1)"
    by (cases "reduceOptions_step x (r, m, sol)") auto
  with Cons.prems have "fold reduceOptions_step xs (r1, m1, sol1) = (r', m', sol')" by simp
  from Cons.IH[OF this] step_unsolved[OF st] show ?case by simp
qed

lemma fold_step_shrinks:
  "fold reduceOptions_step xs (r, m, sol) = (r', m', sol') \<Longrightarrow>
   bits (squares m' j) \<subseteq> bits (squares m j)"
proof (induction xs arbitrary: r m sol)
  case Nil
  then show ?case by simp
next
  case (Cons x xs)
  obtain r1 m1 sol1 where st: "reduceOptions_step x (r, m, sol) = (r1, m1, sol1)"
    by (cases "reduceOptions_step x (r, m, sol)") auto
  with Cons.prems have "fold reduceOptions_step xs (r1, m1, sol1) = (r', m', sol')" by simp
  from Cons.IH[OF this] step_shrinks[OF st, of j] show ?case by blast
qed

lemma shrink_changed:
  "bits (squares m1 i) \<subseteq> bits (squares m i) \<Longrightarrow> squares m1 i \<noteq> squares m i \<Longrightarrow>
   bits (squares m' i) \<subseteq> bits (squares m1 i) \<Longrightarrow> squares m' i \<noteq> squares m i"
  by (metis bits_inject subset_antisym)

lemma fold_step_counter:
  "fold reduceOptions_step xs (r, m, sol) = (r', m', sol') \<Longrightarrow> r' \<noteq> r \<Longrightarrow>
   \<exists>i\<in>set xs. squares m' i \<noteq> squares m i"
proof (induction xs arbitrary: r m sol)
  case Nil
  then show ?case by simp
next
  case (Cons x xs)
  obtain r1 m1 sol1 where st: "reduceOptions_step x (r, m, sol) = (r1, m1, sol1)"
    by (cases "reduceOptions_step x (r, m, sol)") auto
  with Cons.prems have rest: "fold reduceOptions_step xs (r1, m1, sol1) = (r', m', sol')" by simp
  show ?case
  proof (cases "squares m1 x = squares m x")
    case True
    from step_same[OF st True] rest Cons.prems(2) Cons.IH[of r m sol] show ?thesis by auto
  next
    case False
    from shrink_changed[OF step_shrinks[OF st] False fold_step_shrinks[OF rest]]
    show ?thesis by auto
  qed
qed

lemma fold_step_solved:
  "fold reduceOptions_step xs (r, m, sol) = (r', m', sol') \<Longrightarrow> j \<in> set sol' \<Longrightarrow>
   j \<in> set sol \<or> (j \<in> set xs \<and> squares m' j \<noteq> squares m j)"
proof (induction xs arbitrary: r m sol)
  case Nil
  then show ?case by simp
next
  case (Cons x xs)
  obtain r1 m1 sol1 where st: "reduceOptions_step x (r, m, sol) = (r1, m1, sol1)"
    by (cases "reduceOptions_step x (r, m, sol)") auto
  with Cons.prems have rest: "fold reduceOptions_step xs (r1, m1, sol1) = (r', m', sol')" by simp
  from Cons.IH[OF rest Cons.prems(2)]
  consider "j \<in> set sol1" | "j \<in> set xs" "squares m' j \<noteq> squares m1 j" by blast
  then show ?case
  proof cases
    case 1
    from step_solved[OF st 1] show ?thesis
    proof
      assume "j \<in> set sol" then show ?thesis by simp
    next
      assume a: "j = x \<and> squares m1 x \<noteq> squares m x"
      then have "squares m' x \<noteq> squares m x"
        using shrink_changed[OF step_shrinks[OF st] _ fold_step_shrinks[OF rest]] by blast
      with a show ?thesis by simp
    qed
  next
    case 2
    have "squares m' j \<noteq> squares m j"
    proof
      assume e: "squares m' j = squares m j"
      have "bits (squares m' j) \<subseteq> bits (squares m1 j)" by (rule fold_step_shrinks[OF rest])
      moreover have "bits (squares m1 j) \<subseteq> bits (squares m j)" by (rule step_shrinks[OF st])
      ultimately have "bits (squares m1 j) = bits (squares m' j)" using e by auto
      then show False using 2(2) by (simp add: bits_inject)
    qed
    with 2(1) show ?thesis by simp
  qed
qed

lemma fold_set_erase: "fold set_erase sol xs = filter (\<lambda>i. i \<notin> set sol) xs"
proof (induction sol arbitrary: xs)
  case Nil
  then show ?case by simp
next
  case (Cons a sol)
  have "set_erase a xs = filter (\<lambda>i. i \<noteq> a) xs"
    unfolding set_erase_def by (induction xs) auto
  then show ?case by (simp add: Cons.IH conj_commute)
qed

text \<open>The measure of the propagation loop: the candidates left in the unsolved squares.\<close>

definition candidates_left :: "BoardMap \<Rightarrow> nat" where
  "candidates_left m = (\<Sum>i\<in>set (unsolved m). card (bits (squares m i)))"

lemma reduceOptions_decreases:
  assumes "reduceOptions sol m = (r, m', sol')" "r \<noteq> 0"
  shows "candidates_left m' < candidates_left m"
proof -
  obtain m1 sol1 where f: "fold reduceOptions_step (unsolved m) (0, m, sol) = (r, m1, sol1)"
    and m': "m' = m1\<lparr>unsolved := fold set_erase sol1 (unsolved m1)\<rparr>"
    using assms(1) by (auto simp: reduceOptions_def split: prod.splits)
  have u1: "unsolved m1 = unsolved m" by (rule fold_step_unsolved[OF f])
  let ?U = "set (unsolved m)" and ?U' = "set (unsolved m')"
  let ?c = "\<lambda>i. card (bits (squares m i))" and ?c' = "\<lambda>i. card (bits (squares m' i))"
  have sq: "squares m' = squares m1" by (simp add: m')
  have sub: "?U' \<subseteq> ?U" by (auto simp: m' u1 fold_set_erase)
  have le: "?c' i \<le> ?c i" for i
    unfolding sq by (rule card_mono[OF finite_bits fold_step_shrinks[OF f]])
  from fold_step_counter[OF f] assms(2) obtain i where i: "i \<in> ?U" "squares m1 i \<noteq> squares m i"
    by auto
  have "bits (squares m1 i) \<subset> bits (squares m i)"
    using fold_step_shrinks[OF f, of i] i(2) by (auto simp: bits_inject)
  then have lt: "?c' i < ?c i" unfolding sq by (rule psubset_card_mono[OF finite_bits])
  have "sum ?c' ?U' < sum ?c ?U"
  proof (cases "i \<in> ?U'")
    case True
    have "sum ?c' ?U' < sum ?c ?U'"
      by (rule sum_strict_mono_ex1) (use le lt True in auto)
    also have "\<dots> \<le> sum ?c ?U" by (rule sum_mono2) (use sub in auto)
    finally show ?thesis .
  next
    case False
    have "sum ?c' ?U' \<le> sum ?c ?U'" by (rule sum_mono) (rule le)
    also have "\<dots> \<le> sum ?c (?U - {i})" by (rule sum_mono2) (use sub False in auto)
    also have "\<dots> < sum ?c ?U"
      using i(1) lt by (simp add: sum.remove[of ?U i ?c])
    finally show ?thesis .
  qed
  then show ?thesis by (simp add: candidates_left_def)
qed

text \<open>
  The loop \<open>do { updated = reduceOptions(); } while (updated > 0);\<close> at the head of
  \<open>solve\<close>. It terminates on every object: a pass that reports a change has removed a
  candidate from an unsolved square.
\<close>

function propagate :: "nat list \<Rightarrow> BoardMap \<Rightarrow> BoardMap \<times> nat list" where
  "propagate solved0 m =
     (case reduceOptions solved0 m of
        (updated, m', solved) \<Rightarrow> if updated > 0 then propagate solved m' else (m', solved))"
  by pat_completeness auto
termination
  by (relation "measure (\<lambda>(solved0, m). candidates_left m)")
     (auto dest: reduceOptions_decreases[OF sym])

declare propagate.simps [simp del]

text \<open>
  The search loop of \<open>solve\<close> and its recursion into the copy. Whether it returns depends
  on the object, so it runs on fuel: one unit for each iteration of the \<open>while\<close> loop and
  for each recursive call, \<open>None\<close> when the fuel runs out. The result is the boolean, the
  object as \<open>solve\<close> leaves it (its \<open>board\<close> is the caller's grid, bound by reference),
  the static set, and a trace of the guesses made, in order, each with the object that
  made it. The trace is an observation only: nothing in the computation reads it.
\<close>

type_synonym guess_trace = "(BoardMap \<times> nat \<times> nat) list"

fun search :: "nat \<Rightarrow> nat list \<Rightarrow> BoardMap \<Rightarrow> (bool \<times> BoardMap \<times> nat list \<times> guess_trace) option"
  where
  "search 0 solved0 m = None"
| "search (Suc fuel) solved0 m =
     (if unsolved m = [] then Some (True, m, solved0, [])
      else
        (case select_scan m (unsolved m) (9, 0) of
           None \<Rightarrow> Some (False, m, solved0, [])
         | Some (fewestPossibilities, guessIndex) \<Rightarrow>
             (let guess = guess_loop (squares m guessIndex) 1;
                  boardCopy = set_cell (board m) guessIndex (char_of (of_char CHR ''0'' + guess));
                  copy = BoardMap_init boardCopy
              in case propagate solved0 copy of
                   (copy1, solved1) \<Rightarrow>
                     (case search fuel solved1 copy1 of
                        None \<Rightarrow> None
                      | Some (found, copy2, solved2, tr) \<Rightarrow>
                          if found then
                            Some (True, m\<lparr>board := board copy2\<rparr>, solved2,
                                  (m, guessIndex, guess) # tr)
                          else
                            (case search fuel solved2 (retract guessIndex guess m) of
                               None \<Rightarrow> None
                             | Some (ok, m', solved3, tr') \<Rightarrow>
                                 Some (ok, m', solved3, (m, guessIndex, guess) # tr @ tr'))))))"

definition solve :: "nat \<Rightarrow> nat list \<Rightarrow> BoardMap \<Rightarrow> (bool \<times> BoardMap \<times> nat list \<times> guess_trace) option"
  where
  "solve fuel solved0 m = (case propagate solved0 m of (m1, solved1) \<Rightarrow> search fuel solved1 m1)"

text \<open>\<open>Solution::solveSudoku\<close> without its error message: construct, then solve.\<close>

definition solveSudoku :: "nat \<Rightarrow> grid \<Rightarrow> (bool \<times> grid) option" where
  "solveSudoku fuel b =
     (case solve fuel [] (BoardMap_init b) of
        None \<Rightarrow> None
      | Some (ok, m, solved, tr) \<Rightarrow> Some (ok, board m))"

section \<open>The search loop, unfolded once\<close>

text \<open>The symbol guessed at a square, and the grid handed to the copy.\<close>

definition guess_of :: "BoardMap \<Rightarrow> nat \<Rightarrow> nat" where
  "guess_of m guessIndex = guess_loop (squares m guessIndex) 1"

definition guess_board :: "BoardMap \<Rightarrow> nat \<Rightarrow> grid" where
  "guess_board m guessIndex =
     set_cell (board m) guessIndex (char_of (of_char CHR ''0'' + guess_of m guessIndex))"

lemma search_Suc:
  "search (Suc fuel) solved0 m =
     (if unsolved m = [] then Some (True, m, solved0, [])
      else
        (case select_scan m (unsolved m) (9, 0) of
           None \<Rightarrow> Some (False, m, solved0, [])
         | Some (fp, gi) \<Rightarrow>
             (case solve fuel solved0 (BoardMap_init (guess_board m gi)) of
                None \<Rightarrow> None
              | Some (found, c2, s2, tr1) \<Rightarrow>
                  if found then Some (True, m\<lparr>board := board c2\<rparr>, s2, (m, gi, guess_of m gi) # tr1)
                  else
                    (case search fuel s2 (retract gi (guess_of m gi) m) of
                       None \<Rightarrow> None
                     | Some (ok, m', s3, tr2) \<Rightarrow>
                         Some (ok, m', s3, (m, gi, guess_of m gi) # tr1 @ tr2)))))"
  by (simp add: Let_def solve_def guess_of_def guess_board_def split: option.splits prod.splits)

lemma search_Suc_cases [consumes 1, case_names solved dead adopt retract]:
  assumes "search (Suc fuel) solved0 m = Some (ok, m', solved', tr)"
  obtains
    "unsolved m = []" "ok" "m' = m" "solved' = solved0" "tr = []"
  | "unsolved m \<noteq> []" "select_scan m (unsolved m) (9, 0) = None"
    "\<not> ok" "m' = m" "solved' = solved0" "tr = []"
  | fp gi c2 tr1 where "unsolved m \<noteq> []" "select_scan m (unsolved m) (9, 0) = Some (fp, gi)"
    "solve fuel solved0 (BoardMap_init (guess_board m gi)) = Some (True, c2, solved', tr1)"
    "ok" "m' = m\<lparr>board := board c2\<rparr>" "tr = (m, gi, guess_of m gi) # tr1"
  | fp gi c2 s2 tr1 tr2 where "unsolved m \<noteq> []" "select_scan m (unsolved m) (9, 0) = Some (fp, gi)"
    "solve fuel solved0 (BoardMap_init (guess_board m gi)) = Some (False, c2, s2, tr1)"
    "search fuel s2 (retract gi (guess_of m gi) m) = Some (ok, m', solved', tr2)"
    "tr = (m, gi, guess_of m gi) # tr1 @ tr2"
proof (cases "unsolved m = []")
  case True
  with assms have "ok" "m' = m" "solved' = solved0" "tr = []" by simp_all
  with True show ?thesis by (rule that(1))
next
  case ne: False
  show ?thesis
  proof (cases "select_scan m (unsolved m) (9, 0)")
    case None
    with assms ne have "\<not> ok" "m' = m" "solved' = solved0" "tr = []" by simp_all
    with ne None show ?thesis by (rule that(2))
  next
    case (Some a)
    obtain fp gi where a: "a = (fp, gi)" by (cases a)
    note sel = Some[unfolded a]
    from assms ne sel obtain found c2 s2 tr1 where
      sv: "solve fuel solved0 (BoardMap_init (guess_board m gi)) = Some (found, c2, s2, tr1)"
      unfolding search_Suc by (auto split: option.splits)
    show ?thesis
    proof (cases found)
      case True
      with assms ne sel sv have *: "ok" "m' = m\<lparr>board := board c2\<rparr>" "solved' = s2"
        "tr = (m, gi, guess_of m gi) # tr1"
        unfolding search_Suc by auto
      from sv True *(3) have
        "solve fuel solved0 (BoardMap_init (guess_board m gi)) = Some (True, c2, solved', tr1)"
        by simp
      from that(3)[OF ne sel this *(1,2,4)] show ?thesis .
    next
      case False
      with assms ne sel sv obtain tr2 where *:
        "search fuel s2 (retract gi (guess_of m gi) m) = Some (ok, m', solved', tr2)"
        "tr = (m, gi, guess_of m gi) # tr1 @ tr2"
        unfolding search_Suc by (auto split: option.splits)
      from sv False have
        "solve fuel solved0 (BoardMap_init (guess_board m gi)) = Some (False, c2, s2, tr1)"
        by simp
      from that(4)[OF ne sel this *] show ?thesis .
    qed
  qed
qed

declare search.simps(2) [simp del]

section \<open>No operation adds a candidate\<close>

lemma retract_shrinks: "bits (squares (retract gi g m) j) \<subseteq> bits (squares m j)"
  by (simp add: retract_def)

lemma reduceOptions_shrinks:
  "reduceOptions solved0 m = (r, m', solved') \<Longrightarrow> bits (squares m' j) \<subseteq> bits (squares m j)"
proof -
  assume a: "reduceOptions solved0 m = (r, m', solved')"
  obtain m1 sol1 where f: "fold reduceOptions_step (unsolved m) (0, m, solved0) = (r, m1, sol1)"
    and m': "squares m' = squares m1"
    using a by (auto simp: reduceOptions_def split: prod.splits)
  from fold_step_shrinks[OF f, of j] m' show ?thesis by simp
qed

lemma propagate_shrinks:
  "propagate solved0 m = (m', solved') \<Longrightarrow> bits (squares m' j) \<subseteq> bits (squares m j)"
proof (induction solved0 m arbitrary: m' solved' rule: propagate.induct)
  case (1 solved0 m)
  obtain r m1 s1 where ro: "reduceOptions solved0 m = (r, m1, s1)"
    by (cases "reduceOptions solved0 m") auto
  note sh = reduceOptions_shrinks[OF ro, of j]
  show ?case
  proof (cases "r > 0")
    case True
    then have "propagate solved0 m = propagate s1 m1"
      using ro by (subst propagate.simps) simp
    with "1.prems" "1.IH"[OF ro[symmetric] refl True] sh show ?thesis by auto
  next
    case False
    then have "propagate solved0 m = (m1, s1)"
      using ro by (subst propagate.simps) simp
    with "1.prems" sh show ?thesis by auto
  qed
qed

lemma search_shrinks:
  "search fuel solved0 m = Some (ok, m', solved', tr) \<Longrightarrow> bits (squares m' j) \<subseteq> bits (squares m j)"
proof (induction fuel arbitrary: solved0 m ok m' solved' tr)
  case 0
  then show ?case by simp
next
  case (Suc fuel)
  from Suc.prems show ?case
  proof (cases rule: search_Suc_cases)
    case (retract fp gi c2 s2 tr1 tr2)
    from Suc.IH[OF retract(4)] retract_shrinks[of gi "guess_of m gi" m j] show ?thesis by blast
  qed auto
qed


section \<open>Grids\<close>

definition digit :: "char \<Rightarrow> bool" where
  "digit c = (c \<in> set ''123456789'')"

definition wf_grid :: "grid \<Rightarrow> bool" where
  "wf_grid b = (length b = 9 \<and> (\<forall>row\<in>set b. length row = 9 \<and> (\<forall>c\<in>set row. c = CHR ''.'' \<or> digit c)))"

text \<open>The bit of a symbol: \<open>1 << (square - '1')\<close>.\<close>

definition mask_of :: "char \<Rightarrow> 16 word" where
  "mask_of square = push_bit (of_char square - of_char CHR ''1'') 1"

text \<open>The mask of the symbols placed in the squares of a group, read off a flat list of cells.\<close>

definition group_mask :: "char list \<Rightarrow> (nat \<Rightarrow> bool) \<Rightarrow> 16 word" where
  "group_mask cs G =
     fold (\<lambda>i w. w OR mask_of (cs ! i)) (filter (\<lambda>i. G i \<and> cs ! i \<noteq> CHR ''.'') [0..<length cs]) 0"

definition init_cells :: "grid \<Rightarrow> char list \<Rightarrow> BoardMap" where
  "init_cells b cs =
     \<lparr>board = b,
      unsolved = filter (\<lambda>i. cs ! i = CHR ''.'') [0..<length cs],
      squares = (\<lambda>i. if i < length cs then (if cs ! i = CHR ''.'' then 0b111111111 else mask_of (cs ! i)) else 0),
      rows = (\<lambda>r. group_mask cs (\<lambda>i. rowIndex i = r)),
      columns = (\<lambda>c. group_mask cs (\<lambda>i. columnIndex i = c)),
      blocks = (\<lambda>k. group_mask cs (\<lambda>i. blockIndex i = k))\<rparr>"

section \<open>The constructor in closed form\<close>

lemma fold_rows: "fold (\<lambda>row acc. fold f row acc) b acc = fold f (concat b) acc"
  by (induction b arbitrary: acc) auto

lemma insort_last: "\<forall>x\<in>set xs. x < (i::nat) \<Longrightarrow> insort i xs = xs @ [i]"
  by (induction xs) auto

lemma set_insert_last: "\<forall>x\<in>set xs. x < (i::nat) \<Longrightarrow> set_insert i xs = xs @ [i]"
  by (auto simp: set_insert_def insort_last)

lemma group_mask_snoc:
  "group_mask (cs @ [c]) G =
     (if G (length cs) \<and> c \<noteq> CHR ''.'' then group_mask cs G OR mask_of c else group_mask cs G)"
proof -
  have "filter (\<lambda>i. G i \<and> (cs @ [c]) ! i \<noteq> CHR ''.'') [0..<length cs]
      = filter (\<lambda>i. G i \<and> cs ! i \<noteq> CHR ''.'') [0..<length cs]"
    by (rule filter_cong) (auto simp: nth_append)
  moreover have "fold (\<lambda>i w. w OR mask_of ((cs @ [c]) ! i)) xs w0 = fold (\<lambda>i w. w OR mask_of (cs ! i)) xs w0"
    if "\<forall>x\<in>set xs. x < length cs" for xs w0
    using that by (induction xs arbitrary: w0) (auto simp: nth_append)
  ultimately show ?thesis
    by (auto simp: group_mask_def nth_append)
qed

lemma init_cells_snoc:
  assumes "length cs < 255"
  shows "BoardMap_square c (length cs, init_cells b cs) = (Suc (length cs), init_cells b (cs @ [c]))"
proof -
  let ?n = "length cs"
  have u: "filter (\<lambda>i. (cs @ [c]) ! i = CHR ''.'') [0..<?n] = filter (\<lambda>i. cs ! i = CHR ''.'') [0..<?n]"
    by (rule filter_cong) (auto simp: nth_append)
  have lt: "\<forall>x\<in>set (filter (\<lambda>i. cs ! i = CHR ''.'') [0..<?n]). x < ?n" by auto
  have un: "unsolved (init_cells b (cs @ [c])) =
      (if c = CHR ''.'' then set_insert ?n (unsolved (init_cells b cs)) else unsolved (init_cells b cs))"
    by (simp add: init_cells_def u set_insert_last[OF lt])
  have sq: "squares (init_cells b (cs @ [c])) =
      (squares (init_cells b cs))(?n := if c = CHR ''.'' then 0b111111111 else mask_of c)"
    by (auto simp: init_cells_def fun_eq_iff nth_append)
  have ro: "rows (init_cells b (cs @ [c])) =
      (if c = CHR ''.'' then rows (init_cells b cs)
       else (rows (init_cells b cs))(rowIndex ?n := rows (init_cells b cs) (rowIndex ?n) OR mask_of c))"
    by (auto simp: init_cells_def fun_eq_iff group_mask_snoc)
  have co: "columns (init_cells b (cs @ [c])) =
      (if c = CHR ''.'' then columns (init_cells b cs)
       else (columns (init_cells b cs))(columnIndex ?n := columns (init_cells b cs) (columnIndex ?n) OR mask_of c))"
    by (auto simp: init_cells_def fun_eq_iff group_mask_snoc)
  have bl: "blocks (init_cells b (cs @ [c])) =
      (if c = CHR ''.'' then blocks (init_cells b cs)
       else (blocks (init_cells b cs))(blockIndex ?n := blocks (init_cells b cs) (blockIndex ?n) OR mask_of c))"
    by (auto simp: init_cells_def fun_eq_iff group_mask_snoc)
  have bo: "board (init_cells b (cs @ [c])) = board (init_cells b cs)"
    by (simp add: init_cells_def)
  have "snd (BoardMap_square c (?n, init_cells b cs)) = init_cells b (cs @ [c])"
    by (rule BoardMap.equality)
       (simp_all add: BoardMap_square_def updateGroups_def Let_def un sq ro co bl bo mask_of_def)
  moreover have "fst (BoardMap_square c (?n, init_cells b cs)) = Suc ?n"
    using assms by (simp add: BoardMap_square_def)
  ultimately show ?thesis by (simp add: prod_eq_iff)
qed

lemma fold_init_cells:
  "length cs + length ds \<le> 255 \<Longrightarrow>
   fold BoardMap_square ds (length cs, init_cells b cs) = (length cs + length ds, init_cells b (cs @ ds))"
proof (induction ds arbitrary: cs)
  case Nil
  then show ?case by simp
next
  case (Cons d ds)
  from Cons.prems have "length cs < 255" by simp
  from init_cells_snoc[OF this, of d b] Cons.IH[of "cs @ [d]"] Cons.prems
  show ?case by simp
qed

lemma init_cells_Nil:
  "init_cells b [] = \<lparr>board = b, unsolved = [], squares = (\<lambda>_. 0),
                 rows = (\<lambda>_. 0), columns = (\<lambda>_. 0), blocks = (\<lambda>_. 0)\<rparr>"
  by (simp add: init_cells_def group_mask_def)

lemma BoardMap_init_cells:
  "length (concat b) \<le> 255 \<Longrightarrow> BoardMap_init b = init_cells b (concat b)"
  using fold_init_cells[of "[]" "concat b" b]
  by (simp add: BoardMap_init_def fold_rows init_cells_Nil)


section \<open>Reading and writing a square of a 9x9 grid\<close>

lemma concat_nth_uniform:
  "\<forall>row\<in>set b. length row = n \<Longrightarrow> i < n * length b \<Longrightarrow> concat b ! i = b ! (i div n) ! (i mod n)"
proof (induction b arbitrary: i)
  case Nil
  then show ?case by simp
next
  case (Cons row b)
  show ?case
  proof (cases "i < n")
    case True
    with Cons.prems show ?thesis by (simp add: nth_append)
  next
    case False
    then have i: "i = n + (i - n)" by simp
    from False Cons.prems have n: "0 < n" by (cases n) auto
    from Cons.prems False have "i - n < n * length b" by auto
    with Cons.IH[of "i - n"] Cons.prems have "concat b ! (i - n) = b ! ((i - n) div n) ! ((i - n) mod n)"
      by simp
    moreover have "i div n = Suc ((i - n) div n)"
      using False n by (simp add: le_div_geq)
    moreover have "i mod n = (i - n) mod n"
      using False by (simp add: le_mod_geq)
    ultimately show ?thesis using Cons.prems False by (simp add: nth_append)
  qed
qed

lemma concat_length_uniform: "\<forall>row\<in>set b. length row = n \<Longrightarrow> length (concat b) = n * length b"
  by (induction b) auto

lemma wf_grid_length: "wf_grid b \<Longrightarrow> length (concat b) = 81"
  using concat_length_uniform[of b 9] by (simp add: wf_grid_def)

lemma wf_grid_concat_nth: "wf_grid b \<Longrightarrow> i < 81 \<Longrightarrow> concat b ! i = cell b i"
  using concat_nth_uniform[of b 9 i] by (simp add: wf_grid_def cell_def rowIndex_def columnIndex_def)

lemma rowIndex_less: "i < 81 \<Longrightarrow> rowIndex i < 9"
  by (simp add: rowIndex_def less_mult_imp_div_less)

lemma columnIndex_less: "columnIndex i < 9"
  by (simp add: columnIndex_def)

lemma blockIndex_less: "i < 81 \<Longrightarrow> blockIndex i < 9"
proof -
  assume "i < 81"
  then have "i div 9 div 3 < 3" by (simp add: less_mult_imp_div_less)
  moreover have "i mod 9 div 3 < 3" by (simp add: less_mult_imp_div_less)
  ultimately show ?thesis unfolding blockIndex_def rowIndex_def columnIndex_def by linarith
qed

lemma index_decompose: "9 * rowIndex i + columnIndex i = i"
  by (simp add: rowIndex_def columnIndex_def)

lemma index_eqI: "rowIndex i = rowIndex j \<Longrightarrow> columnIndex i = columnIndex j \<Longrightarrow> i = j"
  by (metis index_decompose)

lemma wf_grid_cell: "wf_grid b \<Longrightarrow> i < 81 \<Longrightarrow> cell b i = CHR ''.'' \<or> digit (cell b i)"
proof -
  assume w: "wf_grid b" and i: "i < 81"
  then have "b ! rowIndex i \<in> set b" using rowIndex_less[OF i] by (simp add: wf_grid_def)
  with w have "length (b ! rowIndex i) = 9" "\<forall>c\<in>set (b ! rowIndex i). c = CHR ''.'' \<or> digit c"
    by (auto simp: wf_grid_def)
  moreover from this(1) have "b ! rowIndex i ! columnIndex i \<in> set (b ! rowIndex i)"
    using columnIndex_less[of i] by simp
  ultimately show ?thesis by (simp add: cell_def)
qed

lemma cell_set_cell:
  assumes "wf_grid b" "i < 81" "j < 81"
  shows "cell (set_cell b i c) j = (if j = i then c else cell b j)"
proof -
  have r: "rowIndex i < length b" "rowIndex j < length b"
    using assms rowIndex_less by (auto simp: wf_grid_def)
  have c: "columnIndex i < length (b ! rowIndex i)"
    using assms r columnIndex_less[of i] by (simp add: wf_grid_def)
  show ?thesis
  proof (cases "rowIndex j = rowIndex i")
    case True
    then show ?thesis
      using r c index_eqI[of j i] by (auto simp: cell_def set_cell_def nth_list_update)
  next
    case False
    then show ?thesis using r by (auto simp: cell_def set_cell_def)
  qed
qed

lemma wf_grid_set_cell:
  assumes "wf_grid b" "digit c \<or> c = CHR ''.''"
  shows "wf_grid (set_cell b i c)"
proof -
  have "row \<in> set (b[rowIndex i := (b ! rowIndex i)[columnIndex i := c]]) \<Longrightarrow>
        length row = 9 \<and> (\<forall>d\<in>set row. d = CHR ''.'' \<or> digit d)" for row
  proof -
    assume "row \<in> set (b[rowIndex i := (b ! rowIndex i)[columnIndex i := c]])"
    then obtain k where "k < length b" "row = b[rowIndex i := (b ! rowIndex i)[columnIndex i := c]] ! k"
      by (auto simp: in_set_conv_nth)
    then have "row \<in> set b \<or> (rowIndex i < length b \<and> row = (b ! rowIndex i)[columnIndex i := c])"
      by (cases "k = rowIndex i") auto
    then show ?thesis
    proof
      assume "row \<in> set b" with assms(1) show ?thesis by (simp add: wf_grid_def)
    next
      assume a: "rowIndex i < length b \<and> row = (b ! rowIndex i)[columnIndex i := c]"
      then have "b ! rowIndex i \<in> set b" by simp
      with assms(1) have w: "length (b ! rowIndex i) = 9" "\<forall>d\<in>set (b ! rowIndex i). d = CHR ''.'' \<or> digit d"
        by (auto simp: wf_grid_def)
      have "set row \<subseteq> insert c (set (b ! rowIndex i))" using a by (simp add: set_update_subset_insert)
      with w assms(2) a show ?thesis by auto
    qed
  qed
  with assms(1) show ?thesis by (auto simp: wf_grid_def set_cell_def)
qed


lemma BoardMap_init_wf: "wf_grid b \<Longrightarrow> BoardMap_init b = init_cells b (concat b)"
  by (rule BoardMap_init_cells) (simp add: wf_grid_length)

lemma init_board [simp]: "board (BoardMap_init b) = b"
proof -
  have "board (snd (fold BoardMap_square cs (i, m))) = board m" for cs i m
    by (induction cs arbitrary: i m) (auto simp: BoardMap_square_def updateGroups_def Let_def)
  then show ?thesis by (simp add: BoardMap_init_def fold_rows)
qed

lemma init_unsolved:
  "wf_grid b \<Longrightarrow> unsolved (BoardMap_init b) = filter (\<lambda>i. cell b i = CHR ''.'') [0..<81]"
proof -
  assume w: "wf_grid b"
  have "filter (\<lambda>i. concat b ! i = CHR ''.'') [0..<81] = filter (\<lambda>i. cell b i = CHR ''.'') [0..<81]"
    by (rule filter_cong) (auto simp: wf_grid_concat_nth[OF w])
  then show ?thesis by (simp add: BoardMap_init_wf[OF w] init_cells_def wf_grid_length[OF w])
qed

section \<open>A grid without empty squares\<close>

lemma reduceOptions_no_unsolved: "unsolved m = [] \<Longrightarrow> reduceOptions [] m = (0, m, [])"
  by (simp add: reduceOptions_def)

lemma propagate_no_unsolved: "unsolved m = [] \<Longrightarrow> propagate [] m = (m, [])"
  by (subst propagate.simps) (simp add: reduceOptions_no_unsolved)

lemma solve_no_unsolved: "unsolved m = [] \<Longrightarrow> solve (Suc fuel) [] m = Some (True, m, [], [])"
  by (simp add: solve_def propagate_no_unsolved search_Suc)

lemma full_grid_unsolved:
  "wf_grid b \<Longrightarrow> \<forall>i<81. cell b i \<noteq> CHR ''.'' \<Longrightarrow> unsolved (BoardMap_init b) = []"
  by (simp add: init_unsolved filter_empty_conv)

lemma solveSudoku_full_grid:
  "wf_grid b \<Longrightarrow> \<forall>i<81. cell b i \<noteq> CHR ''.'' \<Longrightarrow> solveSudoku (Suc fuel) b = Some (True, b)"
  by (simp add: solveSudoku_def solve_no_unsolved full_grid_unsolved)

section \<open>Symbols, masks and the helper loops\<close>

lemma bits_split: "bits w = (if odd w then {0} else {}) \<union> Suc ` bits (drop_bit 1 w)"
  unfolding bits_def
  apply (auto simp: bit_0 bit_Suc drop_bit_eq_div image_iff)
  subgoal for x by (cases x) (auto simp: bit_0 bit_Suc)
  subgoal for x by (cases x) (auto simp: bit_0 bit_Suc)
  done

lemma card_bits_split: "card (bits w) = (if odd w then 1 else 0) + card (bits (drop_bit 1 w))"
proof -
  have "card (Suc ` bits (drop_bit 1 w)) = card (bits (drop_bit 1 w))"
    by (simp add: card_image)
  moreover have "0 \<notin> Suc ` bits (drop_bit 1 w)" by auto
  ultimately show ?thesis
    by (subst bits_split) simp
qed

lemma drop_bit_odd_minus:
  assumes "odd (val :: 16 word)" shows "drop_bit (Suc 0) (val - 1) = drop_bit (Suc 0) val"
proof -
  have "even (val - 1)" using assms by simp
  then have "(1 + (val - 1)) div 2 = (val - 1) div 2"
    by (rule even_half_succ_eq)
  then show ?thesis by (simp add: drop_bit_eq_div)
qed

lemma numPossibilities_loop_card: "numPossibilities_loop val found = found + card (bits val)"
proof (induction val found rule: numPossibilities_loop.induct)
  case (1 val found)
  show ?case
  proof (cases "val > 0")
    case False
    then have "val = 0" by (simp add: word_greater_zero_iff)
    then show ?thesis by (subst numPossibilities_loop.simps) simp
  next
    case pos: True
    show ?thesis
    proof (cases "odd val")
      case True
      then have m: "val mod 2 = 1" by (simp add: odd_iff_mod_2_eq_one)
      have "numPossibilities_loop val found = numPossibilities_loop (drop_bit 1 (val - 1)) (found + 1)"
        using pos m by (subst numPossibilities_loop.simps) simp
      also have "\<dots> = found + 1 + card (bits (drop_bit 1 (val - 1)))"
        using "1.IH"(1)[OF pos m] .
      finally show ?thesis
        using True by (simp add: drop_bit_odd_minus card_bits_split[of val])
    next
      case False
      then have m: "val mod 2 \<noteq> 1" by (simp add: odd_iff_mod_2_eq_one)
      have "numPossibilities_loop val found = numPossibilities_loop (drop_bit 1 val) found"
        using pos m by (subst numPossibilities_loop.simps) simp
      also have "\<dots> = found + card (bits (drop_bit 1 val))"
        using "1.IH"(2)[OF pos m] .
      finally show ?thesis
        using False by (simp add: card_bits_split[of val])
    qed
  qed
qed

lemma bits_exp: "bits (2 ^ k) = (if k < 16 then {k} else {})"
  unfolding bits_def by (auto simp: bit_exp_iff)

definition symbol_bit :: "char \<Rightarrow> nat" where
  "symbol_bit c = of_char c - of_char CHR ''1''"

lemma mask_of_symbol: "mask_of c = 2 ^ symbol_bit c"
  by (simp add: mask_of_def symbol_bit_def)

lemma digit_not_dot: "digit c \<Longrightarrow> c \<noteq> CHR ''.''"
  by (auto simp: digit_def)

lemma symbol_bit_less: "digit c \<Longrightarrow> symbol_bit c < 9"
  by (auto simp: digit_def symbol_bit_def)

lemma symbol_bit_inj: "digit c \<Longrightarrow> digit d \<Longrightarrow> symbol_bit c = symbol_bit d \<Longrightarrow> c = d"
  by (auto simp: digit_def symbol_bit_def)

definition symbol_of :: "nat \<Rightarrow> char" where
  "symbol_of k = char_of (of_char CHR ''1'' + k)"

lemma less_9_cases: "k < 9 \<Longrightarrow> k \<in> {0, 1, 2, 3, 4, 5, 6, 7, 8::nat}"
  by auto

lemma symbol_of_simps:
  "symbol_of 0 = CHR ''1''" "symbol_of 1 = CHR ''2''" "symbol_of (Suc 0) = CHR ''2''" "symbol_of 2 = CHR ''3''"
  "symbol_of 3 = CHR ''4''" "symbol_of 4 = CHR ''5''" "symbol_of 5 = CHR ''6''"
  "symbol_of 6 = CHR ''7''" "symbol_of 7 = CHR ''8''" "symbol_of 8 = CHR ''9''"
  by (code_simp)+

lemma symbol_of_digit: "k < 9 \<Longrightarrow> digit (symbol_of k)"
  by (drule less_9_cases) (auto simp: symbol_of_simps digit_def)

lemma symbol_bit_symbol_of: "k < 9 \<Longrightarrow> symbol_bit (symbol_of k) = k"
  by (drule less_9_cases) (auto simp: symbol_of_simps symbol_bit_def)

lemma symbol_of_symbol_bit: "digit c \<Longrightarrow> symbol_of (symbol_bit c) = c"
  by (auto simp: digit_def symbol_bit_def symbol_of_simps)

lemma bits_mask_of: "digit c \<Longrightarrow> bits (mask_of c) = {symbol_bit c}"
  using symbol_bit_less[of c] by (simp add: mask_of_symbol bits_exp)

lemma exp_word_inj: "j < 16 \<Longrightarrow> (2::16 word) ^ j = 2 ^ k \<Longrightarrow> j = k"
  by (metis bits_exp empty_not_insert singleton_inject)

lemma toChar_loop_single: "i \<le> k \<Longrightarrow> k < 9 \<Longrightarrow> toChar_loop i (2 ^ k) = symbol_of k"
proof (induction "k - i" arbitrary: i)
  case 0
  then show ?case by (subst toChar_loop.simps) (simp add: symbol_of_def)
next
  case (Suc d)
  then have "i < k" "i < 9" by auto
  then have "(2::16 word) ^ k \<noteq> 2 ^ i"
    using exp_word_inj[of k i] Suc.prems by auto
  moreover have "toChar_loop (i + 1) (2 ^ k) = symbol_of k"
    using Suc by (intro Suc.hyps(1)) auto
  ultimately show ?case using \<open>i < 9\<close> by (subst toChar_loop.simps) simp
qed

lemma toChar_loop_dot:
  "(\<forall>k. i \<le> k \<and> k < 9 \<longrightarrow> w \<noteq> 2 ^ k) \<Longrightarrow> toChar_loop i w = CHR ''.''"
proof (induction "9 - i" arbitrary: i)
  case 0
  then show ?case by (subst toChar_loop.simps) simp
next
  case (Suc d)
  then have "i < 9" by simp
  moreover from Suc.prems have "w \<noteq> 2 ^ i" using \<open>i < 9\<close> by simp
  moreover have "toChar_loop (i + 1) w = CHR ''.''"
    using Suc by (intro Suc.hyps(1)) auto
  ultimately show ?case by (subst toChar_loop.simps) simp
qed

lemma toChar_single: "k < 9 \<Longrightarrow> toChar (2 ^ k) = symbol_of k"
  by (simp add: toChar_def toChar_loop_single)

lemma toChar_dot_iff: "toChar w = CHR ''.'' \<longleftrightarrow> (\<forall>k<9. w \<noteq> 2 ^ k)"
proof
  assume d: "toChar w = CHR ''.''"
  show "\<forall>k<9. w \<noteq> 2 ^ k"
  proof (intro allI impI notI)
    fix k assume "k < 9" "w = 2 ^ k"
    with d toChar_single[of k] symbol_of_digit[of k] show False
      by (auto dest: digit_not_dot)
  qed
next
  assume "\<forall>k<9. w \<noteq> 2 ^ k"
  then show "toChar w = CHR ''.''" by (simp add: toChar_def toChar_loop_dot)
qed

lemma toChar_cases:
  obtains (single) k where "k < 9" "w = 2 ^ k" "toChar w = symbol_of k"
  | (none) "toChar w = CHR ''.''" "\<forall>k<9. w \<noteq> 2 ^ k"
  using toChar_dot_iff[of w] toChar_single by blast

text \<open>numPossibilities counts the bits.\<close>

lemma numPossibilities_card: "numPossibilities m i = card (bits (squares m i))"
  by (simp add: numPossibilities_def numPossibilities_loop_card)

lemma card_bits_zero: "card (bits w) = 0 \<longleftrightarrow> w = 0"
  by (metis bits_inject bits_zero card_0_eq finite_bits)

lemma card_bits_one: "card (bits w) = 1 \<longleftrightarrow> (\<exists>k<16. w = 2 ^ k)"
proof
  assume "card (bits w) = 1"
  then obtain k where k: "bits w = {k}" by (auto simp: card_1_singleton_iff)
  then have "k < 16" using bits_bound[of k w] by simp
  with k have "bits w = bits (2 ^ k)" by (simp add: bits_exp)
  with \<open>k < 16\<close> show "\<exists>k<16. w = 2 ^ k" by (auto simp: bits_inject)
next
  assume "\<exists>k<16. w = 2 ^ k"
  then show "card (bits w) = 1" by (auto simp: bits_exp)
qed

text \<open>The guess loop finds the lowest set bit among the nine.\<close>

lemma and_exp_positive: "(w AND 2 ^ k > 0) \<longleftrightarrow> k \<in> bits (w :: 16 word)"
  by (simp add: word_greater_zero_iff bits_def bit_iff_and_push_bit_not_eq_0)

lemma guess_loop_least:
  assumes "bits sq \<subseteq> {0..<9}" "bits sq \<noteq> {}" "1 \<le> g" "\<forall>k\<in>bits sq. g - 1 \<le> k"
  shows "guess_loop sq g = Suc (Min (bits sq))"
  using assms(3,4)
proof (induction "9 - g" arbitrary: g)
  case 0
  from assms(2) obtain k where k: "k \<in> bits sq" by auto
  with assms(1) 0 have "k < 9" "g - 1 \<le> k" by auto
  with 0 have g: "g = 9" by linarith
  have "Min (bits sq) = 8"
  proof (rule Min_eqI)
    show "finite (bits sq)" by simp
    show "8 \<le> y" if "y \<in> bits sq" for y using that 0 g by auto
    from \<open>k < 9\<close> \<open>g - 1 \<le> k\<close> g have "k = 8" by simp
    with k show "8 \<in> bits sq" by simp
  qed
  with g show ?case by (subst guess_loop.simps) simp
next
  case (Suc d)
  then have g: "g < 9" by simp
  show ?case
  proof (cases "g - 1 \<in> bits sq")
    case True
    have "Min (bits sq) = g - 1"
    proof (rule Min_eqI)
      show "finite (bits sq)" by simp
      show "g - 1 \<le> y" if "y \<in> bits sq" for y using that Suc.prems by simp
      show "g - 1 \<in> bits sq" by (rule True)
    qed
    with True g Suc.prems show ?thesis
      by (subst guess_loop.simps) (simp add: and_exp_positive)
  next
    case False
    have "\<forall>k\<in>bits sq. g + 1 - 1 \<le> k"
    proof
      fix k assume k: "k \<in> bits sq"
      with Suc.prems have "g - 1 \<le> k" by simp
      moreover from k False have "k \<noteq> g - 1" by auto
      ultimately show "g + 1 - 1 \<le> k" using Suc.prems(1) by linarith
    qed
    moreover have "d = 9 - (g + 1)" using Suc.hyps(2) by simp
    ultimately have "guess_loop sq (g + 1) = Suc (Min (bits sq))"
      by (intro Suc.hyps(1)) auto
    with False g show ?thesis
      by (subst guess_loop.simps) (simp add: and_exp_positive)
  qed
qed

section \<open>One step of a pass, case by case\<close>

definition reduced_mask :: "BoardMap \<Rightarrow> nat \<Rightarrow> 16 word" where
  "reduced_mask m index =
     ((squares m index AND NOT (rows m (rowIndex index))) AND NOT (columns m (columnIndex index)))
       AND NOT (blocks m (blockIndex index))"

definition commit :: "nat \<Rightarrow> 16 word \<Rightarrow> BoardMap \<Rightarrow> BoardMap" where
  "commit index w m =
     m\<lparr>squares := (squares m)(index := w),
       board := set_cell (board m) index (toChar w),
       rows := (rows m)(rowIndex index := rows m (rowIndex index) OR w),
       columns := (columns m)(columnIndex index := columns m (columnIndex index) OR w),
       blocks := (blocks m)(blockIndex index := blocks m (blockIndex index) OR w)\<rparr>"

lemma reduceOptions_step_eq:
  "reduceOptions_step i (r, m, sol) =
     (if reduced_mask m i = squares m i then (r, m, sol)
      else if toChar (reduced_mask m i) = CHR ''.'' then
        ((r + 1) mod 256, m\<lparr>squares := (squares m)(i := reduced_mask m i)\<rparr>, sol)
      else ((r + 1) mod 256, commit i (reduced_mask m i) m, set_insert i sol))"
  by (auto simp: reduceOptions_step_def Let_def removePossibilities_def updateGroups_def
      reduced_mask_def commit_def)

lemma step_cases [consumes 1, case_names same reduced solved]:
  assumes "reduceOptions_step i (r, m, sol) = (r', m', sol')"
  obtains "reduced_mask m i = squares m i" "r' = r" "m' = m" "sol' = sol"
  | "reduced_mask m i \<noteq> squares m i" "toChar (reduced_mask m i) = CHR ''.''"
    "r' = (r + 1) mod 256" "m' = m\<lparr>squares := (squares m)(i := reduced_mask m i)\<rparr>" "sol' = sol"
  | "reduced_mask m i \<noteq> squares m i" "toChar (reduced_mask m i) \<noteq> CHR ''.''"
    "r' = (r + 1) mod 256" "m' = commit i (reduced_mask m i) m" "sol' = set_insert i sol"
  using assms unfolding reduceOptions_step_eq by (auto split: if_splits)

section \<open>The object tracks its grid\<close>

text \<open>The symbols, as bit positions, placed in the squares of a group of a grid.\<close>

definition used :: "grid \<Rightarrow> (nat \<Rightarrow> bool) \<Rightarrow> nat set" where
  "used b G = {symbol_bit (cell b i) | i. i < 81 \<and> G i \<and> cell b i \<noteq> CHR ''.''}"

definition peers_used :: "grid \<Rightarrow> nat \<Rightarrow> nat set" where
  "peers_used b i =
     used b (\<lambda>j. rowIndex j = rowIndex i) \<union> used b (\<lambda>j. columnIndex j = columnIndex i)
       \<union> used b (\<lambda>j. blockIndex j = blockIndex i)"

definition tracks :: "BoardMap \<Rightarrow> bool" where
  "tracks m \<longleftrightarrow>
     wf_grid (board m)
     \<and> (\<forall>i<81. cell (board m) i \<noteq> CHR ''.'' \<longrightarrow> squares m i = mask_of (cell (board m) i))
     \<and> (\<forall>i<81. bits (squares m i) \<subseteq> {0..<9})
     \<and> (\<forall>r. bits (rows m r) = used (board m) (\<lambda>i. rowIndex i = r))
     \<and> (\<forall>c. bits (columns m c) = used (board m) (\<lambda>i. columnIndex i = c))
     \<and> (\<forall>k. bits (blocks m k) = used (board m) (\<lambda>i. blockIndex i = k))"

lemma bits_reduced_mask:
  "tracks m \<Longrightarrow> bits (reduced_mask m i) = bits (squares m i) - peers_used (board m) i"
  by (auto simp: tracks_def reduced_mask_def peers_used_def)

lemma tracks_reduce:
  assumes "tracks m" "i < 81" "cell (board m) i = CHR ''.''" "bits w \<subseteq> bits (squares m i)"
  shows "tracks (m\<lparr>squares := (squares m)(i := w)\<rparr>)"
  using assms unfolding tracks_def by (auto 4 4)

lemma used_set_cell:
  assumes "wf_grid b" "i < 81" "cell b i = CHR ''.''" "c \<noteq> CHR ''.''"
  shows "used (set_cell b i c) G = used b G \<union> (if G i then {symbol_bit c} else {})"
proof -
  have c: "cell (set_cell b i c) j = (if j = i then c else cell b j)" if "j < 81" for j
    using cell_set_cell[OF assms(1,2) that] .
  show ?thesis
    unfolding used_def using assms(2,3,4)
    by (auto simp: c) (metis c)+
qed

lemma mask_of_symbol_of: "k < 9 \<Longrightarrow> mask_of (symbol_of k) = 2 ^ k"
  by (simp add: mask_of_symbol symbol_bit_symbol_of)

lemma tracks_commit:
  assumes "tracks m" "i < 81" "cell (board m) i = CHR ''.''" "k < 9"
  shows "tracks (commit i (2 ^ k) m)"
proof -
  let ?b = "set_cell (board m) i (symbol_of k)"
  have wf: "wf_grid (board m)" using assms(1) by (simp add: tracks_def)
  have d: "digit (symbol_of k)" by (rule symbol_of_digit[OF assms(4)])
  have c: "cell ?b j = (if j = i then symbol_of k else cell (board m) j)" if "j < 81" for j
    using cell_set_cell[OF wf assms(2) that] .
  have u: "used ?b G = used (board m) G \<union> (if G i then {k} else {})" for G
    using used_set_cell[OF wf assms(2,3) digit_not_dot[OF d], of G]
    by (simp add: symbol_bit_symbol_of[OF assms(4)])
  have b: "bits (2 ^ k :: 16 word) = {k}" using assms(4) by (simp add: bits_exp)
  show ?thesis
    unfolding tracks_def commit_def toChar_single[OF assms(4)]
    using assms(1,2,4) wf_grid_set_cell[OF wf, of "symbol_of k" i] d
    by (auto simp: tracks_def c u b mask_of_symbol_of)
qed


text \<open>The list \<open>unsolved\<close> holds, in ascending order, the empty squares of the grid.\<close>

definition listed :: "BoardMap \<Rightarrow> bool" where
  "listed m \<longleftrightarrow>
     sorted (unsolved m) \<and> distinct (unsolved m)
     \<and> set (unsolved m) = {i. i < 81 \<and> cell (board m) i = CHR ''.''}"

lemma bits_511: "bits 0b111111111 = {0..<9}"
proof -
  have e: "(0b111111111 :: 16 word) = mask 9" by (simp add: mask_eq_exp_minus_1)
  show ?thesis unfolding bits_def e by (auto simp: bit_mask_iff)
qed

lemma bits_fold_or:
  "bits (fold (\<lambda>i w. w OR f i) xs w0) = bits w0 \<union> (\<Union>i\<in>set xs. bits (f i))"
  by (induction xs arbitrary: w0) auto

lemma bits_group_mask:
  assumes "\<forall>c\<in>set cs. c = CHR ''.'' \<or> digit c"
  shows "bits (group_mask cs G) = {symbol_bit (cs ! i) | i. i < length cs \<and> G i \<and> cs ! i \<noteq> CHR ''.''}"
proof -
  have "bits (mask_of (cs ! i)) = {symbol_bit (cs ! i)}" if "i < length cs" "cs ! i \<noteq> CHR ''.''" for i
    using assms that bits_mask_of[of "cs ! i"] by (metis nth_mem)
  then show ?thesis
    by (auto simp: group_mask_def bits_fold_or)
qed

lemma wf_grid_concat: "wf_grid b \<Longrightarrow> \<forall>c\<in>set (concat b). c = CHR ''.'' \<or> digit c"
  by (auto simp: wf_grid_def)

lemma tracks_init: "wf_grid b \<Longrightarrow> tracks (BoardMap_init b)"
proof -
  assume w: "wf_grid b"
  note n = wf_grid_concat_nth[OF w] and l = wf_grid_length[OF w]
  have g: "bits (group_mask (concat b) G) = used b G" for G
    unfolding bits_group_mask[OF wf_grid_concat[OF w]] used_def l
    by (auto simp: n) (metis n)+
  have d: "digit (cell b i)" if "i < 81" "cell b i \<noteq> CHR ''.''" for i
    using wf_grid_cell[OF w that(1)] that(2) by simp
  show ?thesis
    unfolding tracks_def BoardMap_init_wf[OF w]
    using w by (auto simp: init_cells_def l n g bits_511 bits_mask_of d dest: symbol_bit_less[OF d])
qed

lemma listed_init: "wf_grid b \<Longrightarrow> listed (BoardMap_init b)"
  by (auto simp: listed_def init_unsolved sorted_wrt_filter)


section \<open>A pass keeps the object in step with its grid\<close>

definition extends :: "grid \<Rightarrow> grid \<Rightarrow> bool" where
  "extends b b' \<longleftrightarrow> (\<forall>i<81. cell b i \<noteq> CHR ''.'' \<longrightarrow> cell b' i = cell b i)"

definition pass_pre :: "BoardMap \<Rightarrow> nat list \<Rightarrow> bool" where
  "pass_pre m xs \<longleftrightarrow> tracks m \<and> distinct xs \<and> (\<forall>i\<in>set xs. i < 81 \<and> cell (board m) i = CHR ''.'')"

lemma tracks_unsolved_update [simp]: "tracks (m\<lparr>unsolved := u\<rparr>) = tracks m"
  by (simp add: tracks_def)

lemma step_tracks:
  assumes "reduceOptions_step i (r, m, sol) = (r', m', sol')" "tracks m" "i < 81"
    "cell (board m) i = CHR ''.''"
  shows "tracks m'"
    and "\<forall>j<81. j \<noteq> i \<longrightarrow> cell (board m') j = cell (board m) j"
    and "cell (board m') i = CHR ''.'' \<longrightarrow> sol' = sol"
    and "cell (board m') i \<noteq> CHR ''.'' \<longrightarrow> set sol' = insert i (set sol)"
proof -
  have wf: "wf_grid (board m)" using assms(2) by (simp add: tracks_def)
  have sub: "bits (reduced_mask m i) \<subseteq> bits (squares m i)"
    by (simp add: bits_reduced_mask[OF assms(2)])
  from assms(1) have "tracks m' \<and> (\<forall>j<81. j \<noteq> i \<longrightarrow> cell (board m') j = cell (board m) j)
    \<and> (cell (board m') i = CHR ''.'' \<longrightarrow> sol' = sol)
    \<and> (cell (board m') i \<noteq> CHR ''.'' \<longrightarrow> set sol' = insert i (set sol))"
  proof (cases rule: step_cases)
    case same
    with assms show ?thesis by simp
  next
    case reduced
    with assms tracks_reduce[OF assms(2,3,4) sub] show ?thesis by simp
  next
    case solved
    then obtain k where k: "k < 9" "reduced_mask m i = 2 ^ k" "toChar (reduced_mask m i) = symbol_of k"
      by (cases "reduced_mask m i" rule: toChar_cases) auto
    have b: "board m' = set_cell (board m) i (symbol_of k)"
      using solved k by (simp add: commit_def)
    have "cell (board m') j = (if j = i then symbol_of k else cell (board m) j)" if "j < 81" for j
      unfolding b using cell_set_cell[OF wf assms(3) that] .
    moreover have "symbol_of k \<noteq> CHR ''.''" using symbol_of_digit[OF k(1)] by (rule digit_not_dot)
    moreover have "tracks m'" using tracks_commit[OF assms(2,3,4) k(1)] solved k by simp
    moreover have "set sol' = insert i (set sol)"
      using solved by (auto simp: set_insert_def set_insort_key)
    ultimately show ?thesis using assms(3) by simp
  qed
  then show "tracks m'"
    and "\<forall>j<81. j \<noteq> i \<longrightarrow> cell (board m') j = cell (board m) j"
    and "cell (board m') i = CHR ''.'' \<longrightarrow> sol' = sol"
    and "cell (board m') i \<noteq> CHR ''.'' \<longrightarrow> set sol' = insert i (set sol)"
    by blast+
qed

lemma pass_pre_step:
  assumes "pass_pre m (x # xs)" "reduceOptions_step x (r, m, sol) = (r1, m1, sol1)"
  shows "pass_pre m1 xs"
proof -
  from assms(1) have p: "tracks m" "x < 81" "cell (board m) x = CHR ''.''" "x \<notin> set xs" "distinct xs"
    "\<forall>i\<in>set xs. i < 81 \<and> cell (board m) i = CHR ''.''"
    by (auto simp: pass_pre_def)
  from step_tracks(1,2)[OF assms(2) p(1,2,3)] p(4,5,6) show ?thesis
    by (auto simp: pass_pre_def)
qed

lemma fold_pass:
  assumes "fold reduceOptions_step xs (r, m, sol) = (r', m', sol')" "pass_pre m xs"
  shows "tracks m'"
    and "\<forall>j<81. j \<notin> set xs \<longrightarrow> cell (board m') j = cell (board m) j"
    and "set sol' = set sol \<union> {i \<in> set xs. cell (board m') i \<noteq> CHR ''.''}"
proof -
  from assms have "tracks m' \<and> (\<forall>j<81. j \<notin> set xs \<longrightarrow> cell (board m') j = cell (board m) j)
      \<and> set sol' = set sol \<union> {i \<in> set xs. cell (board m') i \<noteq> CHR ''.''}"
  proof (induction xs arbitrary: r m sol)
    case Nil
    then show ?case by (simp add: pass_pre_def)
  next
    case (Cons x xs)
    obtain r1 m1 sol1 where st: "reduceOptions_step x (r, m, sol) = (r1, m1, sol1)"
      by (cases "reduceOptions_step x (r, m, sol)") auto
    with Cons.prems have rest: "fold reduceOptions_step xs (r1, m1, sol1) = (r', m', sol')" by simp
    note pre1 = pass_pre_step[OF Cons.prems(2) st]
    note ih = Cons.IH[OF rest pre1]
    from Cons.prems(2) have p: "tracks m" "x < 81" "cell (board m) x = CHR ''.''" "x \<notin> set xs"
      by (auto simp: pass_pre_def)
    note s = step_tracks[OF st p(1,2,3)]
    have x: "cell (board m') x = cell (board m1) x" using ih p(2,4) by simp
    have "set sol' = set sol \<union> {i \<in> set (x # xs). cell (board m') i \<noteq> CHR ''.''}"
    proof (cases "cell (board m1) x = CHR ''.''")
      case True
      with s(3) ih x show ?thesis by auto
    next
      case False
      with s(4) ih x show ?thesis by auto
    qed
    moreover have "\<forall>j<81. j \<notin> set (x # xs) \<longrightarrow> cell (board m') j = cell (board m) j"
      using ih s(2) by simp
    ultimately show ?case using ih by blast
  qed
  then show "tracks m'"
    and "\<forall>j<81. j \<notin> set xs \<longrightarrow> cell (board m') j = cell (board m) j"
    and "set sol' = set sol \<union> {i \<in> set xs. cell (board m') i \<noteq> CHR ''.''}"
    by blast+
qed

lemma listed_pass_pre: "tracks m \<Longrightarrow> listed m \<Longrightarrow> pass_pre m (unsolved m)"
  by (auto simp: pass_pre_def listed_def)

lemma reduceOptions_tracks:
  assumes "reduceOptions [] m = (r, m', sol')" "tracks m" "listed m"
  shows "tracks m'" and "listed m'" and "extends (board m) (board m')" and "sol' = []"
proof -
  obtain m1 sol1 where f: "fold reduceOptions_step (unsolved m) (0, m, []) = (r, m1, sol1)"
    and m': "m' = m1\<lparr>unsolved := fold set_erase sol1 (unsolved m1)\<rparr>" and "sol' = []"
    using assms(1) by (auto simp: reduceOptions_def split: prod.splits)
  then show "sol' = []" by simp
  note p = fold_pass[OF f listed_pass_pre[OF assms(2,3)]]
  have u1: "unsolved m1 = unsolved m" by (rule fold_step_unsolved[OF f])
  from p(1) show "tracks m'" by (simp add: m')
  have l: "sorted (unsolved m)" "distinct (unsolved m)"
    "set (unsolved m) = {i. i < 81 \<and> cell (board m) i = CHR ''.''}"
    using assms(3) by (auto simp: listed_def)
  have "set (unsolved m') = {i. i < 81 \<and> cell (board m') i = CHR ''.''}"
    using p(2,3) l(3) by (auto simp: m' u1 fold_set_erase)
  with l(1,2) show "listed m'"
    by (simp add: listed_def m' u1 fold_set_erase sorted_wrt_filter)
  show "extends (board m) (board m')"
    using p(2) l(3) by (auto simp: extends_def m')
qed


section \<open>What a pass counts, and the fixpoint\<close>

lemma step_squares_other:
  "reduceOptions_step i (r, m, sol) = (r', m', sol') \<Longrightarrow> j \<noteq> i \<Longrightarrow> squares m' j = squares m j"
  by (simp add: step_squares)

lemma fold_step_squares_other:
  "fold reduceOptions_step xs (r, m, sol) = (r', m', sol') \<Longrightarrow> j \<notin> set xs \<Longrightarrow>
   squares m' j = squares m j"
proof (induction xs arbitrary: r m sol)
  case Nil
  then show ?case by simp
next
  case (Cons x xs)
  obtain r1 m1 sol1 where st: "reduceOptions_step x (r, m, sol) = (r1, m1, sol1)"
    by (cases "reduceOptions_step x (r, m, sol)") auto
  with Cons.prems have rest: "fold reduceOptions_step xs (r1, m1, sol1) = (r', m', sol')" by simp
  from Cons.IH[OF rest] Cons.prems(2) step_squares_other[OF st, of j] show ?case by simp
qed

text \<open>The squares of a list whose bitmask a pass changed.\<close>

definition changed :: "BoardMap \<Rightarrow> BoardMap \<Rightarrow> nat list \<Rightarrow> nat set" where
  "changed m m' xs = {i \<in> set xs. squares m' i \<noteq> squares m i}"

lemma fold_step_count:
  "fold reduceOptions_step xs (r, m, sol) = (r', m', sol') \<Longrightarrow> distinct xs \<Longrightarrow> r < 256 \<Longrightarrow>
   r' = (r + card (changed m m' xs)) mod 256"
proof (induction xs arbitrary: r m sol)
  case Nil
  then show ?case by (simp add: changed_def)
next
  case (Cons x xs)
  obtain r1 m1 sol1 where st: "reduceOptions_step x (r, m, sol) = (r1, m1, sol1)"
    by (cases "reduceOptions_step x (r, m, sol)") auto
  with Cons.prems have rest: "fold reduceOptions_step xs (r1, m1, sol1) = (r', m', sol')" by simp
  from Cons.prems(2) have x: "x \<notin> set xs" and d: "distinct xs" by auto
  have "r1 < 256" using st Cons.prems(3) by (cases rule: step_cases) auto
  then have ih: "r' = (r1 + card (changed m1 m' xs)) mod 256" by (rule Cons.IH[OF rest d])
  have "squares m1 j = squares m j" if "j \<in> set xs" for j
    using step_squares_other[OF st, of j] x that by auto
  then have same_tail: "changed m1 m' xs = changed m m' xs"
    by (auto simp: changed_def)
  have xfin: "squares m' x = squares m1 x" by (rule fold_step_squares_other[OF rest x])
  have fin: "finite (changed m m' xs)" by (simp add: changed_def)
  have xn: "x \<notin> changed m m' xs" using x by (simp add: changed_def)
  show ?case
  proof (cases "squares m1 x = squares m x")
    case True
    then have "changed m m' (x # xs) = changed m m' xs"
      using xfin by (auto simp: changed_def)
    moreover from step_same[OF st True] have "r1 = r" by simp
    ultimately show ?thesis using ih same_tail by simp
  next
    case False
    then have "changed m m' (x # xs) = insert x (changed m m' xs)"
      using xfin by (auto simp: changed_def)
    then have "card (changed m m' (x # xs)) = Suc (card (changed m m' xs))"
      using fin xn by simp
    moreover from step_counter[OF st False] have "r1 = (r + 1) mod 256" .
    moreover have "((r + 1) mod 256 + c) mod 256 = (r + Suc c) mod 256" for c :: nat
      by (simp add: mod_add_left_eq)
    ultimately show ?thesis using ih same_tail by simp
  qed
qed

lemma fold_step_unchanged:
  "fold reduceOptions_step xs (r, m, sol) = (r', m', sol') \<Longrightarrow> changed m m' xs = {} \<Longrightarrow>
   r' = r \<and> m' = m \<and> sol' = sol \<and> (\<forall>i\<in>set xs. reduced_mask m i = squares m i)"
proof (induction xs arbitrary: r m sol)
  case Nil
  then show ?case by simp
next
  case (Cons x xs)
  obtain r1 m1 sol1 where st: "reduceOptions_step x (r, m, sol) = (r1, m1, sol1)"
    by (cases "reduceOptions_step x (r, m, sol)") auto
  with Cons.prems have rest: "fold reduceOptions_step xs (r1, m1, sol1) = (r', m', sol')" by simp
  have same: "squares m1 x = squares m x"
  proof (rule ccontr)
    assume "squares m1 x \<noteq> squares m x"
    from shrink_changed[OF step_shrinks[OF st] this fold_step_shrinks[OF rest]]
    have "x \<in> changed m m' (x # xs)" by (simp add: changed_def)
    with Cons.prems(2) show False by simp
  qed
  from step_same[OF st same] have e: "r1 = r" "m1 = m" "sol1 = sol" by simp_all
  from Cons.prems(2) have "changed m m' xs = {}" by (auto simp: changed_def)
  from Cons.IH[OF rest[unfolded e] this] have ih: "r' = r \<and> m' = m \<and> sol' = sol \<and> (\<forall>i\<in>set xs. reduced_mask m i = squares m i)" .
  moreover have "reduced_mask m x = squares m x"
    using step_squares[OF st] same e by (metis fun_upd_same reduced_mask_def)
  ultimately show ?case by simp
qed

text \<open>No unsolved square has a candidate that its row, column or block already holds.\<close>

definition stable :: "BoardMap \<Rightarrow> bool" where
  "stable m \<longleftrightarrow> (\<forall>i\<in>set (unsolved m). reduced_mask m i = squares m i)"

lemma reduceOptions_count:
  assumes "reduceOptions sol m = (r, m', sol')" "distinct (unsolved m)"
  shows "r = card (changed m m' (unsolved m)) mod 256"
proof -
  obtain m1 sol1 where f: "fold reduceOptions_step (unsolved m) (0, m, sol) = (r, m1, sol1)"
    and m': "squares m' = squares m1"
    using assms(1) by (auto simp: reduceOptions_def split: prod.splits)
  from fold_step_count[OF f assms(2)] m' show ?thesis by (simp add: changed_def)
qed

lemma card_changed_le: "card (changed m m' xs) \<le> length xs"
proof -
  have "card (changed m m' xs) \<le> card (set xs)"
    by (rule card_mono) (auto simp: changed_def)
  also have "\<dots> \<le> length xs" by (rule card_length)
  finally show ?thesis .
qed

lemma reduceOptions_zero:
  assumes "reduceOptions [] m = (0, m', sol')" "distinct (unsolved m)" "length (unsolved m) < 256"
  shows "m' = m" and "stable m"
proof -
  obtain m1 sol1 where f: "fold reduceOptions_step (unsolved m) (0, m, []) = (0, m1, sol1)"
    and m': "m' = m1\<lparr>unsolved := fold set_erase sol1 (unsolved m1)\<rparr>"
    using assms(1) by (auto simp: reduceOptions_def split: prod.splits)
  have "card (changed m m1 (unsolved m)) mod 256 = 0"
    using fold_step_count[OF f assms(2)] by simp
  moreover have "card (changed m m1 (unsolved m)) < 256"
    using card_changed_le[of m m1 "unsolved m"] assms(3) by simp
  ultimately have "card (changed m m1 (unsolved m)) = 0" by simp
  then have "changed m m1 (unsolved m) = {}" by (simp add: changed_def)
  from fold_step_unchanged[OF f this] m' show "m' = m" and "stable m"
    by (simp_all add: stable_def)
qed

lemma listed_length: "listed m \<Longrightarrow> length (unsolved m) \<le> 81"
proof -
  assume l: "listed m"
  then have "length (unsolved m) = card (set (unsolved m))"
    using distinct_card[of "unsolved m"] by (simp only: listed_def)
  also have "\<dots> \<le> card {..<81::nat}"
    by (rule card_mono) (use l in \<open>auto simp: listed_def\<close>)
  finally show ?thesis by simp
qed

text \<open>The state in which the search loop runs.\<close>

definition ready :: "BoardMap \<Rightarrow> bool" where
  "ready m \<longleftrightarrow> tracks m \<and> listed m \<and> stable m"

lemma propagate_ready:
  assumes "propagate [] m = (m', sol')" "tracks m" "listed m"
  shows "ready m'" and "extends (board m) (board m')" and "sol' = []"
proof -
  have "propagate sol m = (m', sol') \<Longrightarrow> sol = [] \<Longrightarrow> tracks m \<Longrightarrow> listed m \<Longrightarrow>
    ready m' \<and> extends (board m) (board m') \<and> sol' = []" for sol
  proof (induction sol m arbitrary: m' sol' rule: propagate.induct)
    case (1 solved0 m)
    obtain r m1 s1 where ro: "reduceOptions solved0 m = (r, m1, s1)"
      by (cases "reduceOptions solved0 m") auto
    note t = reduceOptions_tracks[OF ro[unfolded \<open>solved0 = []\<close>] "1.prems"(3,4)]
    show ?case
    proof (cases "r > 0")
      case True
      then have "propagate solved0 m = propagate s1 m1"
        using ro by (subst propagate.simps) simp
      with "1.prems"(1) have "propagate s1 m1 = (m', sol')" by simp
      from "1.IH"[OF ro[symmetric] refl True this t(4) t(1,2)] t(3)
      show ?thesis by (auto simp: extends_def)
    next
      case False
      then have "propagate solved0 m = (m1, s1)"
        using ro by (subst propagate.simps) simp
      with "1.prems"(1) have e: "m' = m1" "sol' = s1" by simp_all
      from False have r0: "r = 0" by simp
      have "distinct (unsolved m)" using "1.prems"(4) by (simp add: listed_def)
      moreover have "length (unsolved m) < 256" using listed_length[OF "1.prems"(4)] by simp
      ultimately have "m1 = m" "stable m"
        using reduceOptions_zero[OF ro[unfolded \<open>solved0 = []\<close> r0]] by simp_all
      with e t "1.prems" show ?thesis by (simp add: ready_def extends_def)
    qed
  qed
  with assms show "ready m'" and "extends (board m) (board m')" and "sol' = []" by blast+
qed

section \<open>The selection scan and the guess\<close>

lemma select_scan_None_iff:
  "select_scan m xs (f, g) = None \<longleftrightarrow> (\<exists>i\<in>set xs. numPossibilities m i = 0)"
  by (induction xs arbitrary: f g) (auto simp: Let_def)

lemma select_scan_Some:
  assumes "select_scan m xs (f, g) = Some (f', g')" "sorted xs"
  shows "f' \<le> f \<and> (\<forall>j\<in>set xs. f' \<le> numPossibilities m j)
    \<and> ((f', g') = (f, g) \<or>
        (g' \<in> set xs \<and> numPossibilities m g' = f' \<and> f' < f
         \<and> (\<forall>j\<in>set xs. numPossibilities m j = f' \<longrightarrow> g' \<le> j)))"
  using assms
proof (induction xs arbitrary: f g)
  case Nil
  then show ?case by simp
next
  case (Cons x xs)
  let ?o = "numPossibilities m x"
  from Cons.prems(2) have s: "sorted xs" "\<forall>j\<in>set xs. x \<le> j" by auto
  from Cons.prems(1) have nz: "?o \<noteq> 0" by (auto simp: Let_def split: if_splits)
  show ?case
  proof (cases "?o < f")
    case True
    with Cons.prems(1) nz have "select_scan m xs (?o, x) = Some (f', g')" by (simp add: Let_def)
    from Cons.IH[OF this s(1)] True s(2) show ?thesis by auto
  next
    case False
    with Cons.prems(1) nz have "select_scan m xs (f, g) = Some (f', g')" by (simp add: Let_def)
    from Cons.IH[OF this s(1)] False show ?thesis by auto
  qed
qed

lemma reduced_mask_eq_iff:
  "reduced_mask m i = squares m i \<longleftrightarrow>
   bits (squares m i) \<inter> (bits (rows m (rowIndex i)) \<union> bits (columns m (columnIndex i))
      \<union> bits (blocks m (blockIndex i))) = {}"
proof -
  have "reduced_mask m i = squares m i \<longleftrightarrow> bits (reduced_mask m i) = bits (squares m i)"
    by (simp add: bits_inject)
  also have "\<dots> \<longleftrightarrow> bits (squares m i) \<inter> (bits (rows m (rowIndex i)) \<union> bits (columns m (columnIndex i))
      \<union> bits (blocks m (blockIndex i))) = {}"
    by (auto simp: reduced_mask_def)
  finally show ?thesis .
qed

lemma stable_disjoint:
  "tracks m \<Longrightarrow> stable m \<Longrightarrow> i \<in> set (unsolved m) \<Longrightarrow> bits (squares m i) \<inter> peers_used (board m) i = {}"
  by (auto simp: stable_def reduced_mask_eq_iff tracks_def peers_used_def)

lemma used_less: "wf_grid b \<Longrightarrow> k \<in> used b G \<Longrightarrow> k < 9"
  using wf_grid_cell symbol_bit_less by (fastforce simp: used_def)

lemma numPossibilities_le: "tracks m \<Longrightarrow> i < 81 \<Longrightarrow> numPossibilities m i \<le> 9"
proof -
  assume "tracks m" "i < 81"
  then have "bits (squares m i) \<subseteq> {0..<9}" by (simp add: tracks_def)
  then have "card (bits (squares m i)) \<le> card {0..<9::nat}" by (intro card_mono) auto
  then show ?thesis by (simp add: numPossibilities_card)
qed

lemma all_candidates:
  assumes "tracks m" "i < 81" "numPossibilities m i = 9"
  shows "bits (squares m i) = {0..<9}"
proof -
  from assms(1,2) have "bits (squares m i) \<subseteq> {0..<9}" by (simp add: tracks_def)
  moreover have "card (bits (squares m i)) = card {0..<9::nat}"
    using assms(3) by (simp add: numPossibilities_card)
  ultimately show ?thesis by (intro card_subset_eq) auto
qed

text \<open>
  When every unsolved square still has all nine candidates, square 0 is unsolved: this is
  what makes the initial \<open>guessIndex = 0\<close> of the scan a square of \<open>unsolved\<close>.
\<close>

lemma untouched_row_column:
  assumes "ready m" "i \<in> set (unsolved m)" "numPossibilities m i = 9" "j < 81"
    "rowIndex j = rowIndex i \<or> columnIndex j = columnIndex i"
  shows "j \<in> set (unsolved m)"
proof (rule ccontr)
  assume n: "j \<notin> set (unsolved m)"
  from assms(1) have t: "tracks m" and l: "listed m" and s: "stable m" by (auto simp: ready_def)
  from l assms(2) have i: "i < 81" by (auto simp: listed_def)
  from l n assms(4) have f: "cell (board m) j \<noteq> CHR ''.''" by (auto simp: listed_def)
  have wf: "wf_grid (board m)" using t by (simp add: tracks_def)
  from f assms(4,5) have "symbol_bit (cell (board m) j) \<in> peers_used (board m) i"
    by (auto simp: peers_used_def used_def)
  moreover have "symbol_bit (cell (board m) j) < 9"
    using wf_grid_cell[OF wf assms(4)] f by (auto intro: symbol_bit_less)
  ultimately show False
    using stable_disjoint[OF t s assms(2)] all_candidates[OF t i assms(3)] by auto
qed

lemma square_zero_unsolved:
  assumes "ready m" "i \<in> set (unsolved m)" "\<forall>j\<in>set (unsolved m). numPossibilities m j = 9"
  shows "0 \<in> set (unsolved m)"
proof -
  from assms(1) have l: "listed m" by (simp add: ready_def)
  from l assms(2) have i: "i < 81" by (auto simp: listed_def)
  let ?j = "9 * rowIndex i"
  have j: "?j < 81" using rowIndex_less[OF i] by simp
  have rj: "rowIndex ?j = rowIndex i" "columnIndex ?j = 0" by (simp_all add: rowIndex_def columnIndex_def)
  have "?j \<in> set (unsolved m)"
    using untouched_row_column[OF assms(1,2) _ j] assms(2,3) rj by simp
  moreover from this assms(3) have "numPossibilities m ?j = 9" by simp
  moreover have "columnIndex 0 = columnIndex ?j" by (simp add: columnIndex_def)
  ultimately show ?thesis
    using untouched_row_column[OF assms(1), of ?j 0] by simp
qed

lemma select_ready:
  assumes "ready m" "unsolved m \<noteq> []" "\<forall>i\<in>set (unsolved m). numPossibilities m i \<noteq> 0"
  shows "\<exists>f gi. select_scan m (unsolved m) (9, 0) = Some (f, gi) \<and> gi \<in> set (unsolved m)
     \<and> numPossibilities m gi = f
     \<and> (\<forall>j\<in>set (unsolved m). f \<le> numPossibilities m j \<and> (numPossibilities m j = f \<longrightarrow> gi \<le> j))"
proof -
  from assms(1) have t: "tracks m" and l: "listed m" by (auto simp: ready_def)
  from l have srt: "sorted (unsolved m)" and lt: "\<forall>i\<in>set (unsolved m). i < 81"
    by (auto simp: listed_def)
  from assms(3) obtain f gi where sel: "select_scan m (unsolved m) (9, 0) = Some (f, gi)"
    using select_scan_None_iff[of m "unsolved m" 9 0] by (cases "select_scan m (unsolved m) (9, 0)") auto
  note sp = select_scan_Some[OF sel srt]
  show ?thesis
  proof (cases "(f, gi) = (9, 0)")
    case True
    have all9: "\<forall>j\<in>set (unsolved m). numPossibilities m j = 9"
      using sp True numPossibilities_le[OF t] lt by (auto simp: le_antisym)
    from assms(2) obtain i where "i \<in> set (unsolved m)" by (cases "unsolved m") auto
    from square_zero_unsolved[OF assms(1) this all9] have "0 \<in> set (unsolved m)" .
    with sel True all9 show ?thesis by auto
  next
    case False
    with sp sel show ?thesis by auto
  qed
qed

section \<open>One iteration of the search loop\<close>

lemma symbol_of_guess: "char_of (of_char CHR ''0'' + Suc k) = symbol_of k"
  by (simp add: symbol_of_def)

lemma retract_ready:
  assumes "ready m" "gi \<in> set (unsolved m)"
  shows "ready (retract gi g m)"
proof -
  from assms(1) have t: "tracks m" and l: "listed m" and s: "stable m" by (auto simp: ready_def)
  from l assms(2) have gi: "gi < 81" "cell (board m) gi = CHR ''.''" by (auto simp: listed_def)
  have "tracks (retract gi g m)"
    unfolding retract_def by (rule tracks_reduce[OF t gi]) simp
  moreover have "listed (retract gi g m)" using l by (simp add: listed_def retract_def)
  moreover have "stable (retract gi g m)"
    using s unfolding stable_def reduced_mask_eq_iff by (auto simp: retract_def)
  ultimately show ?thesis by (simp add: ready_def)
qed

lemma retract_fewer:
  assumes "gi \<in> set (unsolved m)" "g - 1 \<in> bits (squares m gi)"
  shows "candidates_left (retract gi g m) < candidates_left m"
proof -
  let ?c = "\<lambda>i. card (bits (squares m i))" and ?c' = "\<lambda>i. card (bits (squares (retract gi g m) i))"
  have b: "bits (squares (retract gi g m) gi) = bits (squares m gi) - {g - 1}"
    using bits_bound[OF assms(2)] by (simp add: retract_def bits_exp)
  have "?c' gi < ?c gi"
    unfolding b by (rule card_Diff1_less[OF finite_bits assms(2)])
  moreover have "?c' i \<le> ?c i" for i
    by (rule card_mono[OF finite_bits retract_shrinks])
  ultimately have "sum ?c' (set (unsolved m)) < sum ?c (set (unsolved m))"
    using assms(1) by (intro sum_strict_mono_ex1) auto
  then show ?thesis by (simp add: candidates_left_def retract_def)
qed

lemma search_iteration:
  assumes "ready m" "select_scan m (unsolved m) (9, 0) = Some (fp, gi)" "unsolved m \<noteq> []"
  obtains k where "gi \<in> set (unsolved m)" "gi < 81" "cell (board m) gi = CHR ''.''"
    "k \<in> bits (squares m gi)" "k < 9" "\<forall>k'\<in>bits (squares m gi). k \<le> k'"
    "guess_of m gi = Suc k" "guess_board m gi = set_cell (board m) gi (symbol_of k)"
    "wf_grid (guess_board m gi)" "k \<notin> peers_used (board m) gi"
    "ready (retract gi (guess_of m gi) m)"
    "candidates_left (retract gi (guess_of m gi) m) < candidates_left m"
    "numPossibilities m gi = fp"
    "\<forall>j\<in>set (unsolved m). fp \<le> numPossibilities m j \<and> (numPossibilities m j = fp \<longrightarrow> gi \<le> j)"
proof -
  from assms(1) have t: "tracks m" and l: "listed m" and s: "stable m" by (auto simp: ready_def)
  have nz: "\<forall>i\<in>set (unsolved m). numPossibilities m i \<noteq> 0"
    using assms(2) select_scan_None_iff[of m "unsolved m" 9 0] by auto
  from select_ready[OF assms(1,3) nz] assms(2)
  have gi: "gi \<in> set (unsolved m)" and fp: "numPossibilities m gi = fp"
    and mn: "\<forall>j\<in>set (unsolved m). fp \<le> numPossibilities m j \<and> (numPossibilities m j = fp \<longrightarrow> gi \<le> j)"
    by auto
  from l gi have g81: "gi < 81" and e: "cell (board m) gi = CHR ''.''" by (auto simp: listed_def)
  have sub: "bits (squares m gi) \<subseteq> {0..<9}" using t g81 by (simp add: tracks_def)
  have ne: "bits (squares m gi) \<noteq> {}"
    using nz gi by (auto simp: numPossibilities_card)
  define k where "k = Min (bits (squares m gi))"
  have kin: "k \<in> bits (squares m gi)" unfolding k_def by (rule Min_in[OF finite_bits ne])
  with sub have k9: "k < 9" by auto
  have kmin: "\<forall>k'\<in>bits (squares m gi). k \<le> k'" unfolding k_def by simp
  have g: "guess_of m gi = Suc k"
    unfolding guess_of_def k_def by (rule guess_loop_least[OF sub ne]) auto
  have gb: "guess_board m gi = set_cell (board m) gi (symbol_of k)"
    by (simp add: guess_board_def g symbol_of_def)
  have wf: "wf_grid (board m)" using t by (simp add: tracks_def)
  have wfg: "wf_grid (guess_board m gi)"
    unfolding gb by (rule wf_grid_set_cell[OF wf]) (simp add: symbol_of_digit[OF k9])
  have np: "k \<notin> peers_used (board m) gi"
    using stable_disjoint[OF t s gi] kin by auto
  have r: "ready (retract gi (guess_of m gi) m)" by (rule retract_ready[OF assms(1) gi])
  have c: "candidates_left (retract gi (guess_of m gi) m) < candidates_left m"
    by (rule retract_fewer[OF gi]) (simp add: g kin)
  from that[OF gi g81 e kin k9 kmin g gb wfg np r c fp mn] show ?thesis .
qed

lemma solve_init:
  assumes "wf_grid b"
  obtains m1 where "propagate [] (BoardMap_init b) = (m1, [])" "ready m1" "extends b (board m1)"
    "\<forall>fuel. solve fuel [] (BoardMap_init b) = search fuel [] m1"
proof -
  obtain m1 s1 where p: "propagate [] (BoardMap_init b) = (m1, s1)"
    by (cases "propagate [] (BoardMap_init b)")
  note r = propagate_ready[OF p tracks_init[OF assms] listed_init[OF assms]]
  from p r that[of m1] show ?thesis by (simp add: solve_def)
qed

section \<open>Termination of the search\<close>

lemma propagate_static: "propagate sol m = (m', sol') \<Longrightarrow> sol' = []"
proof (induction sol m arbitrary: m' sol' rule: propagate.induct)
  case (1 solved0 m)
  obtain r m1 s1 where ro: "reduceOptions solved0 m = (r, m1, s1)"
    by (cases "reduceOptions solved0 m") auto
  then have s1: "s1 = []" by (auto simp: reduceOptions_def split: prod.splits)
  show ?case
  proof (cases "r > 0")
    case True
    then have "propagate solved0 m = propagate s1 m1"
      using ro by (subst propagate.simps) simp
    with "1.prems" "1.IH"[OF ro[symmetric] refl True] show ?thesis by simp
  next
    case False
    then have "propagate solved0 m = (m1, s1)"
      using ro by (subst propagate.simps) simp
    with "1.prems" s1 show ?thesis by simp
  qed
qed

lemma solve_static: "solve fuel sol m = Some (ok, m', sol', tr) \<Longrightarrow> sol' = []"
  and search_static: "search fuel sol m = Some (ok, m', sol', tr) \<Longrightarrow> sol = [] \<Longrightarrow> sol' = []"
proof (induction fuel arbitrary: sol m ok m' sol' tr)
  case 0
  {
    case 1
    then show ?case by (simp add: solve_def split: prod.splits)
  next
    case 2
    then show ?case by simp
  }
next
  case (Suc fuel)
  {
    case 2
    from "2.prems"(1) show ?case
    proof (cases rule: search_Suc_cases)
      case solved
      with 2 show ?thesis by simp
    next
      case dead
      with 2 show ?thesis by simp
    next
      case (adopt fp gi c2 tr1)
      from Suc.IH(1)[OF adopt(3)] show ?thesis .
    next
      case (retract fp gi c2 s2 tr1 tr2)
      from Suc.IH(1)[OF retract(3)] have "s2 = []" .
      from Suc.IH(2)[OF retract(4) this] show ?thesis .
    qed
  next
    case 1
    obtain m1 s1 where p: "propagate sol m = (m1, s1)" by (cases "propagate sol m")
    with "1.prems" have "search (Suc fuel) s1 m1 = Some (ok, m', sol', tr)" by (simp add: solve_def)
    moreover have "s1 = []" by (rule propagate_static[OF p])
    ultimately show ?case
    proof (cases rule: search_Suc_cases)
      case solved
      with \<open>s1 = []\<close> show ?thesis by simp
    next
      case dead
      with \<open>s1 = []\<close> show ?thesis by simp
    next
      case (adopt fp gi c2 tr1)
      from Suc.IH(1)[OF adopt(3)] show ?thesis .
    next
      case (retract fp gi c2 s2 tr1 tr2)
      from Suc.IH(1)[OF retract(3)] have "s2 = []" .
      from Suc.IH(2)[OF retract(4) this] show ?thesis .
    qed
  }
qed

lemma search_mono:
  "search fuel sol m = Some (ok, m', sol', tr) \<Longrightarrow> search (fuel + k) sol m = Some (ok, m', sol', tr)"
proof (induction fuel arbitrary: sol m ok m' sol' tr)
  case 0
  then show ?case by simp
next
  case (Suc fuel)
  have sv: "solve fuel s x = Some (a, b, c, d) \<Longrightarrow> solve (fuel + k) s x = Some (a, b, c, d)"
    for s x a b c d
    using Suc.IH by (auto simp: solve_def split: prod.splits)
  from Suc.prems show ?case
  proof (cases rule: search_Suc_cases)
    case solved
    then show ?thesis by (simp add: search_Suc)
  next
    case dead
    then show ?thesis by (simp add: search_Suc)
  next
    case (adopt fp gi c2 tr1)
    with sv[OF adopt(3)] show ?thesis by (simp add: search_Suc)
  next
    case (retract fp gi c2 s2 tr1 tr2)
    with sv[OF retract(3)] Suc.IH[OF retract(4)] show ?thesis by (simp add: search_Suc)
  qed
qed

lemma search_mono_le: "search fuel sol m = Some r \<Longrightarrow> fuel \<le> fuel' \<Longrightarrow> search fuel' sol m = Some r"
  using search_mono[of fuel sol m _ _ _ _ "fuel' - fuel"] by (cases r) auto

lemma listed_card: "listed m \<Longrightarrow> length (unsolved m) = card {i. i < 81 \<and> cell (board m) i = CHR ''.''}"
  using distinct_card[of "unsolved m"] by (simp add: listed_def)

lemma guess_fewer_empty:
  assumes "ready m" "gi \<in> set (unsolved m)" "extends (set_cell (board m) gi c) (board m1)"
    "c \<noteq> CHR ''.''" "listed m1"
  shows "length (unsolved m1) < length (unsolved m)"
proof -
  from assms(1) have l: "listed m" and wf: "wf_grid (board m)" by (auto simp: ready_def tracks_def)
  from l assms(2) have gi: "gi < 81" "cell (board m) gi = CHR ''.''" by (auto simp: listed_def)
  have c: "cell (set_cell (board m) gi c) j = (if j = gi then c else cell (board m) j)" if "j < 81" for j
    by (rule cell_set_cell[OF wf gi(1) that])
  have "{i. i < 81 \<and> cell (board m1) i = CHR ''.''} \<subseteq> {i. i < 81 \<and> cell (board m) i = CHR ''.''} - {gi}"
    using assms(3,4) c unfolding extends_def by (auto split: if_splits)
  then have "card {i. i < 81 \<and> cell (board m1) i = CHR ''.''} \<le> card ({i. i < 81 \<and> cell (board m) i = CHR ''.''} - {gi})"
    by (intro card_mono) auto
  also have "\<dots> < card {i. i < 81 \<and> cell (board m) i = CHR ''.''}"
    using gi by (intro card_Diff1_less) auto
  finally show ?thesis by (simp add: listed_card[OF l] listed_card[OF assms(5)])
qed

lemma search_terminates: "ready m \<Longrightarrow> \<exists>fuel r. search fuel [] m = Some r"
proof (induction m rule: wf_induct_rule[OF wf_measures[of "[\<lambda>m. length (unsolved m), candidates_left]"]])
  case (1 m)
  show ?case
  proof (cases "unsolved m = []")
    case True
    then have "search (Suc 0) [] m = Some (True, m, [], [])" by (simp add: search_Suc)
    then show ?thesis by blast
  next
    case ne: False
    show ?thesis
    proof (cases "select_scan m (unsolved m) (9, 0)")
      case None
      with ne have "search (Suc 0) [] m = Some (False, m, [], [])" by (simp add: search_Suc)
      then show ?thesis by blast
    next
      case (Some a)
      obtain fp gi where sel: "select_scan m (unsolved m) (9, 0) = Some (fp, gi)"
        using Some by (cases a) auto
      from "1.prems" sel ne obtain k where it: "gi \<in> set (unsolved m)" "k < 9"
        "guess_board m gi = set_cell (board m) gi (symbol_of k)" "wf_grid (guess_board m gi)"
        "ready (retract gi (guess_of m gi) m)"
        "candidates_left (retract gi (guess_of m gi) m) < candidates_left m"
        by (rule search_iteration)
      from it(4) obtain m1 where c: "ready m1" "extends (guess_board m gi) (board m1)"
        "\<And>fuel. solve fuel [] (BoardMap_init (guess_board m gi)) = search fuel [] m1"
        by (rule solve_init) simp
      have "length (unsolved m1) < length (unsolved m)"
        using guess_fewer_empty[OF "1.prems" it(1) c(2)[unfolded it(3)]] c(1)
          digit_not_dot[OF symbol_of_digit[OF it(2)]] by (simp add: ready_def)
      then have "(m1, m) \<in> measures [\<lambda>m. length (unsolved m), candidates_left]" by simp
      from "1.IH"[OF this c(1)] obtain n1 ok1 c2 s2 tr1 where
        r1: "search n1 [] m1 = Some (ok1, c2, s2, tr1)" by auto
      from search_static[OF r1] have s2: "s2 = []" by simp
      show ?thesis
      proof (cases ok1)
        case True
        with r1 c(3)[of n1] sel ne have "search (Suc n1) [] m \<noteq> None"
          by (simp add: search_Suc)
        then show ?thesis by blast
      next
        case False
        have "(retract gi (guess_of m gi) m, m) \<in> measures [\<lambda>m. length (unsolved m), candidates_left]"
          using it(6) by (simp add: retract_def)
        from "1.IH"[OF this it(5)] obtain n2 r2 where
          r2: "search n2 [] (retract gi (guess_of m gi) m) = Some r2" by auto
        let ?n = "max n1 n2"
        have "search ?n [] m1 = Some (False, c2, [], tr1)"
          using search_mono_le[OF r1, of ?n] False s2 by simp
        moreover have "search ?n [] (retract gi (guess_of m gi) m) = Some r2"
          using search_mono_le[OF r2, of ?n] by simp
        ultimately have "search (Suc ?n) [] m \<noteq> None"
          using sel ne c(3)[of ?n] by (simp add: search_Suc split: prod.splits)
        then show ?thesis by blast
      qed
    qed
  qed
qed

lemma solve_terminates: "wf_grid b \<Longrightarrow> \<exists>fuel r. solve fuel [] (BoardMap_init b) = Some r"
proof -
  assume "wf_grid b"
  then obtain m1 where "ready m1" "\<And>fuel. solve fuel [] (BoardMap_init b) = search fuel [] m1"
    by (rule solve_init) simp
  with search_terminates[of m1] show ?thesis by simp
qed

section \<open>The Sudoku constraints\<close>

text \<open>The 27 groups: the squares of each row, of each column and of each 3x3 block.\<close>

definition groups :: "nat list list" where
  "groups =
     map (\<lambda>r. filter (\<lambda>i. rowIndex i = r) [0..<81]) [0..<9]
     @ map (\<lambda>c. filter (\<lambda>i. columnIndex i = c) [0..<81]) [0..<9]
     @ map (\<lambda>k. filter (\<lambda>i. blockIndex i = k) [0..<81]) [0..<9]"

text \<open>No symbol is repeated among the filled squares of a group.\<close>

definition conflict_free :: "grid \<Rightarrow> bool" where
  "conflict_free b \<longleftrightarrow>
     (\<forall>g\<in>set groups. distinct (filter (\<lambda>c. c \<noteq> CHR ''.'') (map (cell b) g)))"

text \<open>Every row, column and block holds each of the nine symbols exactly once.\<close>

definition valid_solution :: "grid \<Rightarrow> bool" where
  "valid_solution b \<longleftrightarrow>
     wf_grid b \<and> (\<forall>g\<in>set groups. \<forall>d\<in>set ''123456789''. count_list (map (cell b) g) d = 1)"

text \<open>A completion of a grid: a valid solution that keeps its filled squares.\<close>

definition completion :: "grid \<Rightarrow> grid \<Rightarrow> bool" where
  "completion b c \<longleftrightarrow> valid_solution c \<and> extends b c"

lemma upt_81_rows: "[0..<81] = concat (map (\<lambda>r. map (\<lambda>c. 9 * r + c) [0..<9]) [0..<9])"
  by (simp add: upt_rec)

lemma upt_9: "[0..<9] = [0,1,2,3,4,5,6,7,8]"
  by (simp add: upt_rec)

lemma groups_explicit:
  "groups =
    [[0,1,2,3,4,5,6,7,8], [9,10,11,12,13,14,15,16,17], [18,19,20,21,22,23,24,25,26],
     [27,28,29,30,31,32,33,34,35], [36,37,38,39,40,41,42,43,44], [45,46,47,48,49,50,51,52,53],
     [54,55,56,57,58,59,60,61,62], [63,64,65,66,67,68,69,70,71], [72,73,74,75,76,77,78,79,80],
     [0,9,18,27,36,45,54,63,72], [1,10,19,28,37,46,55,64,73], [2,11,20,29,38,47,56,65,74],
     [3,12,21,30,39,48,57,66,75], [4,13,22,31,40,49,58,67,76], [5,14,23,32,41,50,59,68,77],
     [6,15,24,33,42,51,60,69,78], [7,16,25,34,43,52,61,70,79], [8,17,26,35,44,53,62,71,80],
     [0,1,2,9,10,11,18,19,20], [3,4,5,12,13,14,21,22,23], [6,7,8,15,16,17,24,25,26],
     [27,28,29,36,37,38,45,46,47], [30,31,32,39,40,41,48,49,50], [33,34,35,42,43,44,51,52,53],
     [54,55,56,63,64,65,72,73,74], [57,58,59,66,67,68,75,76,77], [60,61,62,69,70,71,78,79,80]]"
  unfolding groups_def upt_81_rows upt_9
  by (simp add: rowIndex_def columnIndex_def blockIndex_def)

text \<open>The same constraints, square by square.\<close>

definition peer :: "nat \<Rightarrow> nat \<Rightarrow> bool" where
  "peer i j \<longleftrightarrow>
     i \<noteq> j \<and> (rowIndex i = rowIndex j \<or> columnIndex i = columnIndex j \<or> blockIndex i = blockIndex j)"

definition no_conflict :: "grid \<Rightarrow> bool" where
  "no_conflict b \<longleftrightarrow> (\<forall>i<81. \<forall>j<81. peer i j \<and> cell b i \<noteq> CHR ''.'' \<longrightarrow> cell b i \<noteq> cell b j)"

lemma group_distinct: "g \<in> set groups \<Longrightarrow> distinct g \<and> (\<forall>i\<in>set g. i < 81)"
  by (auto simp: groups_def)

lemma group_length: "g \<in> set groups \<Longrightarrow> length g = 9"
  by (auto simp: groups_explicit)

lemma same_group_iff:
  assumes "i < 81" "j < 81"
  shows "(\<exists>g\<in>set groups. i \<in> set g \<and> j \<in> set g) \<longleftrightarrow>
    (rowIndex i = rowIndex j \<or> columnIndex i = columnIndex j \<or> blockIndex i = blockIndex j)"
proof
  assume "\<exists>g\<in>set groups. i \<in> set g \<and> j \<in> set g"
  then show "rowIndex i = rowIndex j \<or> columnIndex i = columnIndex j \<or> blockIndex i = blockIndex j"
    by (auto simp: groups_def)
next
  assume "rowIndex i = rowIndex j \<or> columnIndex i = columnIndex j \<or> blockIndex i = blockIndex j"
  then consider "rowIndex i = rowIndex j" | "columnIndex i = columnIndex j" | "blockIndex i = blockIndex j"
    by blast
  then show "\<exists>g\<in>set groups. i \<in> set g \<and> j \<in> set g"
  proof cases
    case 1
    have "filter (\<lambda>x. rowIndex x = rowIndex i) [0..<81] \<in> set groups"
      using rowIndex_less[OF assms(1)] by (simp add: groups_def)
    with 1 assms show ?thesis by (intro bexI[of _ "filter (\<lambda>x. rowIndex x = rowIndex i) [0..<81]"]) auto
  next
    case 2
    have "filter (\<lambda>x. columnIndex x = columnIndex i) [0..<81] \<in> set groups"
      using columnIndex_less[of i] by (simp add: groups_def)
    with 2 assms show ?thesis by (intro bexI[of _ "filter (\<lambda>x. columnIndex x = columnIndex i) [0..<81]"]) auto
  next
    case 3
    have "filter (\<lambda>x. blockIndex x = blockIndex i) [0..<81] \<in> set groups"
      using blockIndex_less[OF assms(1)] by (simp add: groups_def)
    with 3 assms show ?thesis by (intro bexI[of _ "filter (\<lambda>x. blockIndex x = blockIndex i) [0..<81]"]) auto
  qed
qed

lemma distinct_filter_map:
  "distinct g \<Longrightarrow>
   distinct (filter P (map f g)) \<longleftrightarrow> (\<forall>i\<in>set g. \<forall>j\<in>set g. i \<noteq> j \<and> P (f i) \<longrightarrow> f i \<noteq> f j)"
proof -
  assume d: "distinct g"
  have "filter P (map f g) = map f (filter (\<lambda>i. P (f i)) g)"
    by (simp add: filter_map comp_def)
  then have "distinct (filter P (map f g)) \<longleftrightarrow> inj_on f {i \<in> set g. P (f i)}"
    using d by (simp add: distinct_map)
  also have "\<dots> \<longleftrightarrow> (\<forall>i\<in>set g. \<forall>j\<in>set g. i \<noteq> j \<and> P (f i) \<longrightarrow> f i \<noteq> f j)"
  proof
    assume inj: "inj_on f {i \<in> set g. P (f i)}"
    show "\<forall>i\<in>set g. \<forall>j\<in>set g. i \<noteq> j \<and> P (f i) \<longrightarrow> f i \<noteq> f j"
    proof (intro ballI impI notI)
      fix i j assume "i \<in> set g" "j \<in> set g" "i \<noteq> j \<and> P (f i)" "f i = f j"
      then have "i \<in> {i \<in> set g. P (f i)}" "j \<in> {i \<in> set g. P (f i)}" by auto
      with inj \<open>f i = f j\<close> have "i = j" by (simp add: inj_on_def)
      with \<open>i \<noteq> j \<and> P (f i)\<close> show False by simp
    qed
  next
    assume "\<forall>i\<in>set g. \<forall>j\<in>set g. i \<noteq> j \<and> P (f i) \<longrightarrow> f i \<noteq> f j"
    then show "inj_on f {i \<in> set g. P (f i)}" by (intro inj_onI) blast
  qed
  finally show ?thesis .
qed

lemma conflict_free_iff: "conflict_free b \<longleftrightarrow> no_conflict b"
proof
  assume cf: "conflict_free b"
  show "no_conflict b"
    unfolding no_conflict_def
  proof (intro allI impI)
    fix i j assume i: "i < 81" and j: "j < 81" and p: "peer i j \<and> cell b i \<noteq> CHR ''.''"
    then obtain g where g: "g \<in> set groups" "i \<in> set g" "j \<in> set g"
      using same_group_iff[OF i j] by (auto simp: peer_def)
    from cf g(1) have "distinct (filter (\<lambda>c. c \<noteq> CHR ''.'') (map (cell b) g))"
      by (simp add: conflict_free_def)
    with group_distinct[OF g(1)] g(2,3) p show "cell b i \<noteq> cell b j"
      by (auto simp: distinct_filter_map peer_def)
  qed
next
  assume nc: "no_conflict b"
  show "conflict_free b"
    unfolding conflict_free_def
  proof
    fix g assume g: "g \<in> set groups"
    note d = group_distinct[OF g]
    have "cell b i \<noteq> cell b j" if "i \<in> set g" "j \<in> set g" "i \<noteq> j" "cell b i \<noteq> CHR ''.''" for i j
    proof -
      from d that have "i < 81" "j < 81" by auto
      moreover from this that g have "peer i j"
        using same_group_iff[of i j] by (auto simp: peer_def)
      ultimately show ?thesis using nc that(4) by (auto simp: no_conflict_def)
    qed
    then show "distinct (filter (\<lambda>c. c \<noteq> CHR ''.'') (map (cell b) g))"
      using d by (auto simp: distinct_filter_map)
  qed
qed

lemma count_list_distinct: "distinct xs \<Longrightarrow> x \<in> set xs \<Longrightarrow> count_list xs x = 1"
  by (induction xs) auto

lemma count_list_le_1_distinct: "(\<forall>x\<in>set xs. count_list xs x \<le> 1) \<Longrightarrow> distinct xs"
proof (induction xs)
  case Nil
  then show ?case by simp
next
  case (Cons a xs)
  from Cons.prems have "count_list (a # xs) a \<le> 1" by simp
  then have "count_list xs a = 0" by simp
  then have "a \<notin> set xs" by (simp add: count_list_0_iff)
  moreover have "\<forall>x\<in>set xs. count_list xs x \<le> 1"
  proof
    fix x assume "x \<in> set xs"
    with Cons.prems have "count_list (a # xs) x \<le> 1" by simp
    moreover have "count_list xs x \<le> count_list (a # xs) x" by simp
    ultimately show "count_list xs x \<le> 1" by (rule order_trans[rotated])
  qed
  ultimately show ?case using Cons.IH by simp
qed

lemma digits_card: "card (set ''123456789'') = 9"
  by simp

lemma row_group: "r < 9 \<Longrightarrow> filter (\<lambda>i. rowIndex i = r) [0..<81] \<in> set groups"
  by (auto simp: groups_def)

lemma in_own_row: "i < 81 \<Longrightarrow> i \<in> set (filter (\<lambda>j. rowIndex j = rowIndex i) [0..<81])"
  by simp

lemma valid_solution_iff:
  "valid_solution b \<longleftrightarrow> wf_grid b \<and> (\<forall>i<81. cell b i \<noteq> CHR ''.'') \<and> no_conflict b"
proof
  define D where "D = set ''123456789''"
  have D: "finite D" "card D = 9" "CHR ''.'' \<notin> D" by (simp_all add: D_def)
  assume v: "valid_solution b"
  then have wf: "wf_grid b" by (simp add: valid_solution_def)
  have grp: "distinct (map (cell b) g) \<and> CHR ''.'' \<notin> set (map (cell b) g)" if g: "g \<in> set groups" for g
  proof -
    let ?xs = "map (cell b) g"
    have c1: "\<forall>d\<in>D. count_list ?xs d = 1"
      using v g unfolding valid_solution_def D_def by blast
    have sub: "set ?xs \<subseteq> insert CHR ''.'' D"
    proof
      fix x assume "x \<in> set ?xs"
      then obtain i where "i \<in> set g" "x = cell b i" by auto
      with wf_grid_cell[OF wf, of i] group_distinct[OF g] show "x \<in> insert CHR ''.'' D"
        unfolding D_def digit_def by blast
    qed
    have "sum (count_list ?xs) (insert CHR ''.'' D) = length ?xs"
      by (rule sum_count_set[OF sub]) (simp add: D(1))
    moreover have "sum (count_list ?xs) D = 9"
      using c1 D(2) by simp
    ultimately have "count_list ?xs CHR ''.'' = 0"
      using group_length[OF g] D(1,3) by simp
    then have nd: "CHR ''.'' \<notin> set ?xs" by (simp add: count_list_0_iff)
    have "\<forall>x\<in>set ?xs. count_list ?xs x \<le> 1"
    proof
      fix x assume x: "x \<in> set ?xs"
      with nd sub have "x \<in> D" by blast
      with c1 show "count_list ?xs x \<le> 1" by simp
    qed
    from count_list_le_1_distinct[OF this] nd show ?thesis by blast
  qed
  have full: "\<forall>i<81. cell b i \<noteq> CHR ''.''"
  proof (intro allI impI)
    fix i :: nat assume i: "i < 81"
    let ?g = "filter (\<lambda>j. rowIndex j = rowIndex i) [0..<81]"
    have "cell b i \<in> set (map (cell b) ?g)" using in_own_row[OF i] by (simp only: set_map image_eqI)
    with grp[OF row_group[OF rowIndex_less[OF i]]]
    show "cell b i \<noteq> CHR ''.''" by metis
  qed
  have "conflict_free b"
    unfolding conflict_free_def using grp by (simp add: distinct_filter)
  with wf full show "wf_grid b \<and> (\<forall>i<81. cell b i \<noteq> CHR ''.'') \<and> no_conflict b"
    by (simp add: conflict_free_iff)
next
  define D where "D = set ''123456789''"
  have D: "finite D" "card D = 9" by (simp_all add: D_def)
  assume a: "wf_grid b \<and> (\<forall>i<81. cell b i \<noteq> CHR ''.'') \<and> no_conflict b"
  then have wf: "wf_grid b" and full: "\<forall>i<81. cell b i \<noteq> CHR ''.''" and cf: "conflict_free b"
    by (simp_all add: conflict_free_iff)
  have "count_list (map (cell b) g) d = 1" if g: "g \<in> set groups" and d: "d \<in> D" for g d
  proof -
    let ?xs = "map (cell b) g"
    have nd: "\<forall>i\<in>set g. cell b i \<noteq> CHR ''.''" using full group_distinct[OF g] by blast
    then have "filter (\<lambda>c. c \<noteq> CHR ''.'') ?xs = ?xs" by (simp add: filter_id_conv)
    with cf g have dist: "distinct ?xs" unfolding conflict_free_def by metis
    have sub: "set ?xs \<subseteq> D"
    proof
      fix x assume "x \<in> set ?xs"
      then obtain i where "i \<in> set g" "x = cell b i" by auto
      with wf_grid_cell[OF wf, of i] group_distinct[OF g] nd show "x \<in> D"
        unfolding D_def digit_def by blast
    qed
    have "card (set ?xs) = 9" using distinct_card[OF dist] group_length[OF g] by simp
    with sub D have "set ?xs = D" by (intro card_subset_eq) simp_all
    with d count_list_distinct[OF dist] show ?thesis by blast
  qed
  with wf show "valid_solution b" unfolding valid_solution_def D_def by blast
qed

section \<open>Properties kept by every step of a pass\<close>

lemma fold_pass_invariant:
  assumes "fold reduceOptions_step xs (r, m, sol) = (r', m', sol')" "pass_pre m xs" "P m"
    and step: "\<And>i r m sol r1 m1 sol1. reduceOptions_step i (r, m, sol) = (r1, m1, sol1) \<Longrightarrow>
      tracks m \<Longrightarrow> i < 81 \<Longrightarrow> cell (board m) i = CHR ''.'' \<Longrightarrow> P m \<Longrightarrow> P m1"
  shows "P m'"
  using assms(1,2,3)
proof (induction xs arbitrary: r m sol)
  case Nil
  then show ?case by simp
next
  case (Cons x xs)
  obtain r1 m1 sol1 where st: "reduceOptions_step x (r, m, sol) = (r1, m1, sol1)"
    by (cases "reduceOptions_step x (r, m, sol)") auto
  with Cons.prems have rest: "fold reduceOptions_step xs (r1, m1, sol1) = (r', m', sol')" by simp
  from Cons.prems(2) have p: "tracks m" "x < 81" "cell (board m) x = CHR ''.''"
    by (auto simp: pass_pre_def)
  from Cons.IH[OF rest pass_pre_step[OF Cons.prems(2) st] step[OF st p Cons.prems(3)]]
  show ?case .
qed

lemma reduceOptions_invariant:
  assumes "reduceOptions [] m = (r, m', sol')" "tracks m" "listed m" "P m"
    and step: "\<And>i r m sol r1 m1 sol1. reduceOptions_step i (r, m, sol) = (r1, m1, sol1) \<Longrightarrow>
      tracks m \<Longrightarrow> i < 81 \<Longrightarrow> cell (board m) i = CHR ''.'' \<Longrightarrow> P m \<Longrightarrow> P m1"
    and upd: "\<And>m u. P m \<Longrightarrow> P (m\<lparr>unsolved := u\<rparr>)"
  shows "P m'"
proof -
  obtain m1 sol1 where f: "fold reduceOptions_step (unsolved m) (0, m, []) = (r, m1, sol1)"
    and m': "m' = m1\<lparr>unsolved := fold set_erase sol1 (unsolved m1)\<rparr>"
    using assms(1) by (auto simp: reduceOptions_def split: prod.splits)
  have "P m1"
    by (rule fold_pass_invariant[where P = P, OF f listed_pass_pre[OF assms(2,3)] assms(4)]) (rule step)
  then show ?thesis unfolding m' by (rule upd)
qed

lemma propagate_invariant:
  assumes "propagate [] m = (m', sol')" "tracks m" "listed m" "P m"
    and step: "\<And>i r m sol r1 m1 sol1. reduceOptions_step i (r, m, sol) = (r1, m1, sol1) \<Longrightarrow>
      tracks m \<Longrightarrow> i < 81 \<Longrightarrow> cell (board m) i = CHR ''.'' \<Longrightarrow> P m \<Longrightarrow> P m1"
    and upd: "\<And>m u. P m \<Longrightarrow> P (m\<lparr>unsolved := u\<rparr>)"
  shows "P m'"
proof -
  have "propagate sol m = (m', sol') \<Longrightarrow> sol = [] \<Longrightarrow> tracks m \<Longrightarrow> listed m \<Longrightarrow> P m \<Longrightarrow> P m'" for sol
  proof (induction sol m arbitrary: m' sol' rule: propagate.induct)
    case (1 solved0 m)
    obtain r m1 s1 where ro: "reduceOptions solved0 m = (r, m1, s1)"
      by (cases "reduceOptions solved0 m") auto
    note ro' = ro[unfolded \<open>solved0 = []\<close>]
    note t = reduceOptions_tracks[OF ro' "1.prems"(3,4)]
    have p1: "P m1"
      by (rule reduceOptions_invariant[where P = P, OF ro' "1.prems"(3,4,5)]) (rule step, assumption+, rule upd)
    show ?case
    proof (cases "r > 0")
      case True
      then have "propagate solved0 m = propagate s1 m1"
        using ro by (subst propagate.simps) simp
      with "1.prems"(1) have "propagate s1 m1 = (m', sol')" by simp
      from "1.IH"[OF ro[symmetric] refl True this t(4) t(1,2) p1] show ?thesis .
    next
      case False
      then have "propagate solved0 m = (m1, s1)"
        using ro by (subst propagate.simps) simp
      with "1.prems"(1) p1 show ?thesis by simp
    qed
  qed
  with assms(1-4) show ?thesis by blast
qed

section \<open>Soundness: a grid without conflicts stays without conflicts\<close>

lemma no_conflict_set_cell:
  assumes "wf_grid b" "i < 81" "cell b i = CHR ''.''" "no_conflict b" "digit c"
    "symbol_bit c \<notin> peers_used b i"
  shows "no_conflict (set_cell b i c)"
  unfolding no_conflict_def
proof (intro allI impI)
  fix x y assume x: "x < 81" and y: "y < 81"
    and p: "peer x y \<and> cell (set_cell b i c) x \<noteq> CHR ''.''"
  have c: "cell (set_cell b i c) j = (if j = i then c else cell b j)" if "j < 81" for j
    by (rule cell_set_cell[OF assms(1,2) that])
  have other: "cell b j \<noteq> c" if "j < 81" "peer i j" for j
  proof (cases "cell b j = CHR ''.''")
    case True
    with digit_not_dot[OF assms(5)] show ?thesis by auto
  next
    case False
    from that(2) consider "rowIndex j = rowIndex i" | "columnIndex j = columnIndex i"
      | "blockIndex j = blockIndex i"
      unfolding peer_def by metis
    then have "symbol_bit (cell b j) \<in> peers_used b i"
    proof cases
      case 1
      with that(1) False have "symbol_bit (cell b j) \<in> used b (\<lambda>j. rowIndex j = rowIndex i)"
        unfolding used_def by blast
      then show ?thesis by (simp add: peers_used_def)
    next
      case 2
      with that(1) False have "symbol_bit (cell b j) \<in> used b (\<lambda>j. columnIndex j = columnIndex i)"
        unfolding used_def by blast
      then show ?thesis by (simp add: peers_used_def)
    next
      case 3
      with that(1) False have "symbol_bit (cell b j) \<in> used b (\<lambda>j. blockIndex j = blockIndex i)"
        unfolding used_def by blast
      then show ?thesis by (simp add: peers_used_def)
    qed
    with assms(6) show ?thesis by auto
  qed
  have sym: "peer y x" using p by (auto simp: peer_def)
  show "cell (set_cell b i c) x \<noteq> cell (set_cell b i c) y"
  proof (cases "x = i")
    case True
    with p have "y \<noteq> i" by (auto simp: peer_def)
    with True other[OF y] p c[OF x] c[OF y] show ?thesis by auto
  next
    case xi: False
    show ?thesis
    proof (cases "y = i")
      case True
      with other[OF x] sym xi c[OF x] c[OF y] show ?thesis by auto
    next
      case False
      with xi p assms(4) x y c[OF x] c[OF y] show ?thesis by (auto simp: no_conflict_def)
    qed
  qed
qed

lemma step_no_conflict:
  assumes "reduceOptions_step i (r, m, sol) = (r1, m1, sol1)" "tracks m" "i < 81"
    "cell (board m) i = CHR ''.''" "no_conflict (board m)"
  shows "no_conflict (board m1)"
  using assms(1)
proof (cases rule: step_cases)
  case same
  with assms show ?thesis by simp
next
  case reduced
  with assms show ?thesis by simp
next
  case solved
  then obtain k where k: "k < 9" "reduced_mask m i = 2 ^ k" "toChar (reduced_mask m i) = symbol_of k"
    by (cases "reduced_mask m i" rule: toChar_cases) auto
  have wf: "wf_grid (board m)" using assms(2) by (simp add: tracks_def)
  have "k \<in> bits (reduced_mask m i)" using k by (simp add: bits_exp)
  then have "k \<notin> peers_used (board m) i" by (simp add: bits_reduced_mask[OF assms(2)])
  then have "no_conflict (set_cell (board m) i (symbol_of k))"
    using no_conflict_set_cell[OF wf assms(3,4,5) symbol_of_digit[OF k(1)]]
    by (simp add: symbol_bit_symbol_of[OF k(1)])
  with solved k show ?thesis by (simp add: commit_def)
qed

lemma propagate_no_conflict:
  assumes "propagate [] m = (m', sol')" "tracks m" "listed m" "no_conflict (board m)"
  shows "no_conflict (board m')"
  by (rule propagate_invariant[where P = "\<lambda>m. no_conflict (board m)", OF assms])
     (auto intro: step_no_conflict)

lemma extends_refl [simp]: "extends b b"
  by (simp add: extends_def)

lemma extends_trans: "extends a b \<Longrightarrow> extends b c \<Longrightarrow> extends a c"
  by (auto simp: extends_def)

lemma extends_set_cell: "wf_grid b \<Longrightarrow> i < 81 \<Longrightarrow> cell b i = CHR ''.'' \<Longrightarrow> extends b (set_cell b i c)"
  by (auto simp: extends_def cell_set_cell)

lemma ready_solved_valid:
  assumes "ready m" "unsolved m = []" "no_conflict (board m)"
  shows "valid_solution (board m)"
  using assms unfolding valid_solution_iff ready_def listed_def tracks_def by auto

lemma search_sound:
  "search fuel [] m = Some (True, m', sol', tr) \<Longrightarrow> ready m \<Longrightarrow> no_conflict (board m) \<Longrightarrow>
   valid_solution (board m') \<and> extends (board m) (board m')"
proof (induction fuel arbitrary: m m' sol' tr)
  case 0
  then show ?case by simp
next
  case (Suc fuel)
  from Suc.prems(1) show ?case
  proof (cases rule: search_Suc_cases)
    case solved
    with Suc.prems ready_solved_valid show ?thesis by simp
  next
    case dead
    then show ?thesis by simp
  next
    case (adopt fp gi c2 tr1)
    from Suc.prems(2) adopt(2,1) obtain k where it: "gi < 81" "cell (board m) gi = CHR ''.''"
      "k < 9" "guess_board m gi = set_cell (board m) gi (symbol_of k)" "wf_grid (guess_board m gi)"
      "k \<notin> peers_used (board m) gi"
      by (rule search_iteration)
    have wf: "wf_grid (board m)" using Suc.prems(2) by (simp add: ready_def tracks_def)
    have nc: "no_conflict (guess_board m gi)"
      unfolding it(4)
      using no_conflict_set_cell[OF wf it(1,2) Suc.prems(3) symbol_of_digit[OF it(3)]] it(6)
      by (simp add: symbol_bit_symbol_of[OF it(3)])
    from it(5) obtain m1 where c: "propagate [] (BoardMap_init (guess_board m gi)) = (m1, [])"
      "ready m1" "extends (guess_board m gi) (board m1)"
      "\<forall>fuel. solve fuel [] (BoardMap_init (guess_board m gi)) = search fuel [] m1"
      by (rule solve_init)
    have nc1: "no_conflict (board m1)"
      using propagate_no_conflict[OF c(1) tracks_init[OF it(5)] listed_init[OF it(5)]] nc by simp
    from adopt(3) c(4) have "search fuel [] m1 = Some (True, c2, sol', tr1)" by simp
    from Suc.IH[OF this c(2) nc1] have v: "valid_solution (board c2)" "extends (board m1) (board c2)"
      by simp_all
    have "extends (board m) (board c2)"
      using extends_trans[OF extends_set_cell[OF wf it(1,2)] extends_trans[OF c(3)[unfolded it(4)] v(2)]] .
    with v(1) adopt(5) show ?thesis by simp
  next
    case (retract fp gi c2 s2 tr1 tr2)
    from Suc.prems(2) retract(2,1) obtain k where it: "ready (retract gi (guess_of m gi) m)"
      by (rule search_iteration)
    have s2: "s2 = []" by (rule solve_static[OF retract(3)])
    have "no_conflict (board (retract gi (guess_of m gi) m))"
      using Suc.prems(3) by (simp add: retract_def)
    from Suc.IH[OF retract(4)[unfolded s2] it this] show ?thesis by (simp add: retract_def)
  qed
qed

section \<open>Completeness: no candidate of a completion is ever removed\<close>

text \<open>Every completion of the object's grid takes, at each square, one of its candidates.\<close>

definition keeps :: "BoardMap \<Rightarrow> bool" where
  "keeps m \<longleftrightarrow> (\<forall>c. completion (board m) c \<longrightarrow> (\<forall>i<81. symbol_bit (cell c i) \<in> bits (squares m i)))"

text \<open>The writes of propagation are forced: every completion of the first grid has them.\<close>

definition forced :: "grid \<Rightarrow> grid \<Rightarrow> bool" where
  "forced b0 b \<longleftrightarrow> (\<forall>c. completion b0 c \<longrightarrow> completion b c)"

lemma completion_digit: "completion b c \<Longrightarrow> i < 81 \<Longrightarrow> digit (cell c i)"
  using wf_grid_cell[of c i] by (auto simp: completion_def valid_solution_iff)

lemma init_squares:
  "wf_grid b \<Longrightarrow> i < 81 \<Longrightarrow>
   squares (BoardMap_init b) i = (if cell b i = CHR ''.'' then 0b111111111 else mask_of (cell b i))"
  by (simp add: BoardMap_init_wf init_cells_def wf_grid_length wf_grid_concat_nth)

lemma keeps_init: "wf_grid b \<Longrightarrow> keeps (BoardMap_init b)"
  unfolding keeps_def
proof (intro allI impI)
  fix c i assume w: "wf_grid b" and c: "completion (board (BoardMap_init b)) c" and i: "i < (81::nat)"
  then have cb: "completion b c" by simp
  note d = completion_digit[OF cb i]
  show "symbol_bit (cell c i) \<in> bits (squares (BoardMap_init b) i)"
  proof (cases "cell b i = CHR ''.''")
    case True
    with symbol_bit_less[OF d] show ?thesis by (simp add: init_squares[OF w i] bits_511)
  next
    case False
    with cb i have "cell c i = cell b i" by (simp add: completion_def extends_def)
    with False d show ?thesis by (simp add: init_squares[OF w i] bits_mask_of)
  qed
qed

lemma completion_avoids:
  assumes "completion b c" "i < 81" "cell b i = CHR ''.''"
  shows "symbol_bit (cell c i) \<notin> peers_used b i"
proof
  assume "symbol_bit (cell c i) \<in> peers_used b i"
  then obtain j where j: "j < 81" "cell b j \<noteq> CHR ''.''" "symbol_bit (cell c i) = symbol_bit (cell b j)"
    "rowIndex j = rowIndex i \<or> columnIndex j = columnIndex i \<or> blockIndex j = blockIndex i"
    unfolding peers_used_def used_def by blast
  from j(2) assms(3) have ne: "i \<noteq> j" by auto
  from assms(1) j(1,2) have cj: "cell c j = cell b j" by (simp add: completion_def extends_def)
  from j(3) cj completion_digit[OF assms(1) assms(2)] completion_digit[OF assms(1) j(1)]
  have "cell c i = cell c j" by (simp add: symbol_bit_inj)
  moreover have "peer i j" using ne j(4) unfolding peer_def by metis
  moreover have "no_conflict c" "cell c i \<noteq> CHR ''.''"
    using assms(1,2) by (simp_all add: completion_def valid_solution_iff)
  ultimately show False using assms(2) j(1) unfolding no_conflict_def by blast
qed

lemma completion_mono: "completion b' c \<Longrightarrow> extends b b' \<Longrightarrow> completion b c"
  by (auto simp: completion_def intro: extends_trans)

lemma completion_set_cell:
  assumes "wf_grid b" "i < 81" "completion b c" "cell c i = d"
  shows "completion (set_cell b i d) c"
  using assms by (auto simp: completion_def extends_def cell_set_cell)

lemma step_keeps:
  assumes "reduceOptions_step i (r, m, sol) = (r1, m1, sol1)" "tracks m" "i < 81"
    "cell (board m) i = CHR ''.''" "keeps m \<and> forced b0 (board m)"
  shows "keeps m1 \<and> forced b0 (board m1)"
proof -
  have wf: "wf_grid (board m)" using assms(2) by (simp add: tracks_def)
  have red: "symbol_bit (cell c i) \<in> bits (reduced_mask m i)" if "completion (board m) c" for c
    using that assms(5) completion_avoids[OF that assms(3,4)] assms(3)
    by (auto simp: keeps_def bits_reduced_mask[OF assms(2)])
  from assms(1) show ?thesis
  proof (cases rule: step_cases)
    case same
    with assms(5) show ?thesis by simp
  next
    case reduced
    with assms(5) red show ?thesis by (auto simp: keeps_def)
  next
    case solved
    then obtain k where k: "k < 9" "reduced_mask m i = 2 ^ k" "toChar (reduced_mask m i) = symbol_of k"
      by (cases "reduced_mask m i" rule: toChar_cases) auto
    have b1: "board m1 = set_cell (board m) i (symbol_of k)" "squares m1 = (squares m)(i := 2 ^ k)"
      using solved k by (simp_all add: commit_def)
    have ci: "cell c i = symbol_of k" if "completion (board m) c" for c
    proof -
      from red[OF that] k have "symbol_bit (cell c i) = k" by (simp add: bits_exp)
      with symbol_of_symbol_bit[OF completion_digit[OF that assms(3)]] show ?thesis by simp
    qed
    have ext: "extends (board m) (board m1)"
      unfolding b1 by (rule extends_set_cell[OF wf assms(3,4)])
    have "keeps m1"
      unfolding keeps_def
    proof (intro allI impI)
      fix c j assume c: "completion (board m1) c" and j: "j < (81::nat)"
      note cm = completion_mono[OF c ext]
      show "symbol_bit (cell c j) \<in> bits (squares m1 j)"
      proof (cases "j = i")
        case True
        with ci[OF cm] k(1) show ?thesis by (simp add: b1 symbol_bit_symbol_of bits_exp)
      next
        case False
        with cm j assms(5) show ?thesis by (simp add: keeps_def b1)
      qed
    qed
    moreover have "forced b0 (board m1)"
      unfolding forced_def b1
    proof (intro allI impI)
      fix c assume "completion b0 c"
      with assms(5) have cm: "completion (board m) c" by (simp add: forced_def)
      from completion_set_cell[OF wf assms(3) cm ci[OF cm]]
      show "completion (set_cell (board m) i (symbol_of k)) c" .
    qed
    ultimately show ?thesis by simp
  qed
qed

lemma propagate_keeps:
  assumes "propagate [] m = (m', sol')" "tracks m" "listed m" "keeps m" "forced b0 (board m)"
  shows "keeps m'" and "forced b0 (board m')"
proof -
  have "keeps m' \<and> forced b0 (board m')"
  proof (rule propagate_invariant[where P = "\<lambda>m. keeps m \<and> forced b0 (board m)", OF assms(1,2,3)])
    show "keeps m \<and> forced b0 (board m)" using assms(4,5) by simp
    show "keeps m1 \<and> forced b0 (board m1)"
      if "reduceOptions_step i (r, m, sol) = (r1, m1, sol1)" "tracks m" "i < 81"
        "cell (board m) i = CHR ''.''" "keeps m \<and> forced b0 (board m)"
      for i r m sol r1 m1 sol1
      using that by (rule step_keeps)
    show "keeps (m\<lparr>unsolved := u\<rparr>) \<and> forced b0 (board (m\<lparr>unsolved := u\<rparr>))"
      if "keeps m \<and> forced b0 (board m)" for m u
      using that by (simp add: keeps_def)
  qed
  then show "keeps m'" and "forced b0 (board m')" by simp_all
qed

lemma forced_refl [simp]: "forced b b"
  by (simp add: forced_def)

lemma search_complete:
  "search fuel [] m = Some (False, m', sol', tr) \<Longrightarrow> ready m \<Longrightarrow> keeps m \<Longrightarrow>
   \<not> (\<exists>c. completion (board m) c)"
proof (induction fuel arbitrary: m m' sol' tr)
  case 0
  then show ?case by simp
next
  case (Suc fuel)
  from Suc.prems(1) show ?case
  proof (cases rule: search_Suc_cases)
    case solved
    then show ?thesis by simp
  next
    case dead
    then obtain i where i: "i \<in> set (unsolved m)" "numPossibilities m i = 0"
      using select_scan_None_iff[of m "unsolved m" 9 0] by auto
    then have "i < 81" "bits (squares m i) = {}"
      using Suc.prems(2) by (auto simp: ready_def listed_def numPossibilities_card)
    with Suc.prems(3) show ?thesis by (auto simp: keeps_def)
  next
    case (adopt fp gi c2 tr1)
    then show ?thesis by simp
  next
    case (retract fp gi c2 s2 tr1 tr2)
    from Suc.prems(2) retract(2,1) obtain k where it: "gi < 81" "cell (board m) gi = CHR ''.''"
      "k < 9" "guess_of m gi = Suc k" "guess_board m gi = set_cell (board m) gi (symbol_of k)"
      "wf_grid (guess_board m gi)" "ready (retract gi (guess_of m gi) m)"
      by (rule search_iteration)
    have wf: "wf_grid (board m)" using Suc.prems(2) by (simp add: ready_def tracks_def)
    from it(6) obtain m1 where c: "propagate [] (BoardMap_init (guess_board m gi)) = (m1, [])"
      "ready m1" "\<forall>fuel. solve fuel [] (BoardMap_init (guess_board m gi)) = search fuel [] m1"
      by (rule solve_init)
    note pk = propagate_keeps[OF c(1) tracks_init[OF it(6)] listed_init[OF it(6)] keeps_init[OF it(6)],
        of "guess_board m gi"]
    from retract(3) c(3) have "search fuel [] m1 = Some (False, c2, s2, tr1)" by simp
    from Suc.IH[OF this c(2) pk(1)] pk(2) have nog: "\<not> (\<exists>c. completion (guess_board m gi) c)"
      by (auto simp: forced_def)
    have s2: "s2 = []" by (rule solve_static[OF retract(3)])
    have "keeps (retract gi (guess_of m gi) m)"
      unfolding keeps_def
    proof (intro allI impI)
      fix c j assume cm: "completion (board (retract gi (guess_of m gi) m)) c" and j: "j < (81::nat)"
      then have cm': "completion (board m) c" by (simp add: retract_def)
      have "symbol_bit (cell c gi) \<noteq> k"
      proof
        assume "symbol_bit (cell c gi) = k"
        with symbol_of_symbol_bit[OF completion_digit[OF cm' it(1)]] have "cell c gi = symbol_of k" by simp
        from completion_set_cell[OF wf it(1) cm' this] nog it(5) show False by auto
      qed
      with Suc.prems(3) cm' j show "symbol_bit (cell c j) \<in> bits (squares (retract gi (guess_of m gi) m) j)"
        by (auto simp: keeps_def retract_def it(4) bits_exp)
    qed
    from Suc.IH[OF retract(4)[unfolded s2] it(7) this] show ?thesis by (simp add: retract_def)
  qed
qed

theorem solve_decides:
  assumes "wf_grid b" "conflict_free b" "solve fuel [] (BoardMap_init b) = Some (ok, m', sol', tr)"
  shows "ok \<longleftrightarrow> (\<exists>c. completion b c)" and "ok \<longrightarrow> completion b (board m')"
proof -
  from assms(1) obtain m1 where c: "propagate [] (BoardMap_init b) = (m1, [])"
    "ready m1" "extends b (board m1)" "\<forall>fuel. solve fuel [] (BoardMap_init b) = search fuel [] m1"
    by (rule solve_init)
  note t = tracks_init[OF assms(1)] and l = listed_init[OF assms(1)]
  have nc: "no_conflict (board m1)"
    using propagate_no_conflict[OF c(1) t l] assms(2) by (simp add: conflict_free_iff)
  note pk = propagate_keeps[OF c(1) t l keeps_init[OF assms(1)], of b]
  from assms(3) c(4) have s: "search fuel [] m1 = Some (ok, m', sol', tr)" by simp
  have pos: "completion b (board m')" if ok
  proof -
    from s that have "search fuel [] m1 = Some (True, m', sol', tr)" by simp
    from search_sound[OF this c(2) nc] c(3) show ?thesis
      by (auto simp: completion_def intro: extends_trans)
  qed
  have neg: "\<not> (\<exists>c. completion b c)" if "\<not> ok"
  proof -
    from s that have "search fuel [] m1 = Some (False, m', sol', tr)" by simp
    from search_complete[OF this c(2) pk(1)] pk(2) show ?thesis
      by (auto simp: forced_def)
  qed
  from pos neg show "ok \<longleftrightarrow> (\<exists>c. completion b c)" and "ok \<longrightarrow> completion b (board m')" by blast+
qed

lemma cell_in_row: "wf_grid b \<Longrightarrow> i < 81 \<Longrightarrow> \<exists>row\<in>set b. cell b i \<in> set row"
proof -
  assume w: "wf_grid b" and i: "i < 81"
  then have r: "b ! rowIndex i \<in> set b" using rowIndex_less[OF i] by (simp add: wf_grid_def)
  with w have "length (b ! rowIndex i) = 9" by (simp add: wf_grid_def)
  then have "cell b i \<in> set (b ! rowIndex i)"
    using columnIndex_less[of i] by (simp add: cell_def)
  with r show ?thesis by blast
qed

lemma full_gridI: "wf_grid b \<Longrightarrow> \<forall>row\<in>set b. CHR ''.'' \<notin> set row \<Longrightarrow> \<forall>i<81. cell b i \<noteq> CHR ''.''"
  using cell_in_row by metis

section \<open>Example grids\<close>

definition solved_grid :: grid where
  "solved_grid =
     [''123456789'', ''456789123'', ''789123456'',
      ''231564897'', ''564897231'', ''897231564'',
      ''312645978'', ''645978312'', ''978312645'']"

lemma wf_solved_grid: "wf_grid solved_grid"
  by (simp add: wf_grid_def solved_grid_def digit_def)

lemma solved_grid_full: "\<forall>i<81. cell solved_grid i \<noteq> CHR ''.''"
  by (rule full_gridI[OF wf_solved_grid]) (simp add: solved_grid_def)

lemma solve_solved_grid:
  "solve (Suc fuel) [] (BoardMap_init solved_grid) = Some (True, BoardMap_init solved_grid, [], [])"
  by (simp add: solve_no_unsolved full_grid_unsolved wf_solved_grid solved_grid_full)

section \<open>What the search leaves in the grid\<close>

definition complete :: "grid \<Rightarrow> bool" where
  "complete b \<longleftrightarrow> (\<forall>row\<in>set b. CHR ''.'' \<notin> set row)"

lemma complete_iff: "wf_grid b \<Longrightarrow> complete b \<longleftrightarrow> (\<forall>i<81. cell b i \<noteq> CHR ''.'')"
proof
  assume "wf_grid b" "complete b"
  then show "\<forall>i<81. cell b i \<noteq> CHR ''.''" by (intro full_gridI) (auto simp: complete_def)
next
  assume w: "wf_grid b" and f: "\<forall>i<81. cell b i \<noteq> CHR ''.''"
  show "complete b"
    unfolding complete_def
  proof (intro ballI notI)
    fix row assume "row \<in> set b" "CHR ''.'' \<in> set row"
    then obtain y x where y: "y < length b" "row = b ! y" and x: "x < length row" "row ! x = CHR ''.''"
      by (auto simp: in_set_conv_nth)
    with w have y9: "y < 9" and x9: "x < 9" by (auto simp: wf_grid_def)
    then have "9 * y + x < 81" by simp
    moreover have "cell b (9 * y + x) = CHR ''.''"
      using x y x9 by (simp add: cell_def rowIndex_def columnIndex_def)
    ultimately show False using f by blast
  qed
qed

lemma search_frame:
  "search fuel [] m = Some (ok, m', sol', tr) \<Longrightarrow> ready m \<Longrightarrow>
   wf_grid (board m') \<and> extends (board m) (board m')
   \<and> (\<not> ok \<longrightarrow> board m' = board m) \<and> (ok \<longrightarrow> complete (board m'))"
proof (induction fuel arbitrary: m ok m' sol' tr)
  case 0
  then show ?case by simp
next
  case (Suc fuel)
  have wf: "wf_grid (board m)" using Suc.prems(2) by (simp add: ready_def tracks_def)
  from Suc.prems(1) show ?case
  proof (cases rule: search_Suc_cases)
    case solved
    with Suc.prems(2) wf show ?thesis
      by (auto simp: complete_iff ready_def listed_def)
  next
    case dead
    with wf show ?thesis by simp
  next
    case (adopt fp gi c2 tr1)
    from Suc.prems(2) adopt(2,1) obtain k where it: "gi < 81" "cell (board m) gi = CHR ''.''"
      "guess_board m gi = set_cell (board m) gi (symbol_of k)" "wf_grid (guess_board m gi)"
      by (rule search_iteration)
    from it(4) obtain m1 where c: "ready m1" "extends (guess_board m gi) (board m1)"
      "\<forall>fuel. solve fuel [] (BoardMap_init (guess_board m gi)) = search fuel [] m1"
      by (rule solve_init)
    from adopt(3) c(3) have "search fuel [] m1 = Some (True, c2, sol', tr1)" by simp
    from Suc.IH[OF this c(1)] have v: "wf_grid (board c2)" "extends (board m1) (board c2)" "complete (board c2)"
      by simp_all
    have "extends (board m) (board c2)"
      using extends_trans[OF extends_set_cell[OF wf it(1,2)] extends_trans[OF c(2)[unfolded it(3)] v(2)]] .
    with v adopt show ?thesis by simp
  next
    case (retract fp gi c2 s2 tr1 tr2)
    from Suc.prems(2) retract(2,1) obtain k where it: "ready (retract gi (guess_of m gi) m)"
      by (rule search_iteration)
    have s2: "s2 = []" by (rule solve_static[OF retract(3)])
    from Suc.IH[OF retract(4)[unfolded s2] it] show ?thesis by (auto simp: retract_def)
  qed
qed

section \<open>The guesses of a run\<close>

text \<open>
  The rule by which a guess is made in an object: the square is the lowest-index one among
  the unsolved squares with the fewest candidates, the symbol the lowest candidate.
\<close>

definition chosen :: "BoardMap \<Rightarrow> nat \<Rightarrow> nat \<Rightarrow> bool" where
  "chosen m guessIndex guess \<longleftrightarrow>
     guessIndex \<in> set (unsolved m)
     \<and> (\<forall>j\<in>set (unsolved m). numPossibilities m guessIndex \<le> numPossibilities m j
           \<and> (numPossibilities m j = numPossibilities m guessIndex \<longrightarrow> guessIndex \<le> j))
     \<and> 1 \<le> guess \<and> guess - 1 \<in> bits (squares m guessIndex)
     \<and> (\<forall>k\<in>bits (squares m guessIndex). guess - 1 \<le> k)"

lemma iteration_chosen:
  assumes "ready m" "select_scan m (unsolved m) (9, 0) = Some (fp, gi)" "unsolved m \<noteq> []"
  shows "chosen m gi (guess_of m gi)"
proof -
  from assms obtain k where it: "gi \<in> set (unsolved m)" "k \<in> bits (squares m gi)"
    "\<forall>k'\<in>bits (squares m gi). k \<le> k'" "guess_of m gi = Suc k" "numPossibilities m gi = fp"
    "\<forall>j\<in>set (unsolved m). fp \<le> numPossibilities m j \<and> (numPossibilities m j = fp \<longrightarrow> gi \<le> j)"
    by (rule search_iteration)
  then show ?thesis by (simp add: chosen_def)
qed

lemma search_trace:
  "search fuel [] m = Some (ok, m', sol', tr) \<Longrightarrow> ready m \<Longrightarrow>
   \<forall>(s, gi, g)\<in>set tr. chosen s gi g"
proof (induction fuel arbitrary: m ok m' sol' tr)
  case 0
  then show ?case by simp
next
  case (Suc fuel)
  from Suc.prems(1) show ?case
  proof (cases rule: search_Suc_cases)
    case solved
    then show ?thesis by simp
  next
    case dead
    then show ?thesis by simp
  next
    case (adopt fp gi c2 tr1)
    from Suc.prems(2) adopt(2,1) obtain k where it: "wf_grid (guess_board m gi)"
      by (rule search_iteration)
    from it obtain m1 where c: "ready m1"
      "\<forall>fuel. solve fuel [] (BoardMap_init (guess_board m gi)) = search fuel [] m1"
      by (rule solve_init)
    from adopt(3) c(2) have "search fuel [] m1 = Some (True, c2, sol', tr1)" by simp
    from Suc.IH[OF this c(1)] iteration_chosen[OF Suc.prems(2) adopt(2,1)] adopt(6)
    show ?thesis by simp
  next
    case (retract fp gi c2 s2 tr1 tr2)
    from Suc.prems(2) retract(2,1) obtain k where it: "wf_grid (guess_board m gi)"
      "ready (retract gi (guess_of m gi) m)"
      by (rule search_iteration)
    from it(1) obtain m1 where c: "ready m1"
      "\<forall>fuel. solve fuel [] (BoardMap_init (guess_board m gi)) = search fuel [] m1"
      by (rule solve_init)
    from retract(3) c(2) have "search fuel [] m1 = Some (False, c2, s2, tr1)" by simp
    note ih1 = Suc.IH[OF this c(1)]
    have s2: "s2 = []" by (rule solve_static[OF retract(3)])
    note ih2 = Suc.IH[OF retract(4)[unfolded s2] it(2)]
    from ih1 ih2 iteration_chosen[OF Suc.prems(2) retract(2,1)] retract(5)
    show ?thesis by auto
  qed
qed

text \<open>The result does not depend on the fuel, once there is enough of it.\<close>

lemma search_fuel_independent:
  assumes "search fuel sol m = Some r" "search fuel' sol m = Some r'"
  shows "r = r'"
proof -
  from search_mono_le[OF assms(1), of "max fuel fuel'"] search_mono_le[OF assms(2), of "max fuel fuel'"]
  show ?thesis by simp
qed

lemma solve_fuel_independent:
  assumes "solve fuel sol m = Some r" "solve fuel' sol m = Some r'"
  shows "r = r'"
  using assms search_fuel_independent unfolding solve_def by (auto split: prod.splits)

section \<open>The states of an object during \<open>solve\<close>\<close>

text \<open>
  \<open>pass_start b m\<close>: the object built over the grid \<open>b\<close> is in state \<open>m\<close> when a pass of
  \<open>reduceOptions\<close> begins, in the \<open>do ... while\<close> loop at the head of \<open>solve\<close>.
\<close>

inductive pass_start :: "grid \<Rightarrow> BoardMap \<Rightarrow> bool" for b where
  construct: "wf_grid b \<Longrightarrow> pass_start b (BoardMap_init b)"
| again: "pass_start b m \<Longrightarrow> reduceOptions [] m = (updated, m', solved) \<Longrightarrow> updated > 0 \<Longrightarrow>
     pass_start b m'"

text \<open>
  \<open>iteration b m\<close>: the object built over \<open>b\<close> is in state \<open>m\<close> when the condition of the
  search loop \<open>while (!unsolved.empty())\<close> is tested: after the pass that returned zero, and
  after each retraction of a guess whose copy failed.
\<close>

inductive iteration :: "grid \<Rightarrow> BoardMap \<Rightarrow> bool" for b where
  propagated: "pass_start b m \<Longrightarrow> reduceOptions [] m = (0, m', solved) \<Longrightarrow> iteration b m'"
| retracted: "iteration b m \<Longrightarrow> unsolved m \<noteq> [] \<Longrightarrow>
     select_scan m (unsolved m) (9, 0) = Some (fewestPossibilities, guessIndex) \<Longrightarrow>
     solve fuel [] (BoardMap_init (guess_board m guessIndex)) = Some (False, copy, solved, tr) \<Longrightarrow>
     iteration b (retract guessIndex (guess_of m guessIndex) m)"

text \<open>No square listed in \<open>unsolved\<close> has exactly one candidate.\<close>

definition unsettled :: "BoardMap \<Rightarrow> bool" where
  "unsettled m \<longleftrightarrow> (\<forall>i\<in>set (unsolved m). numPossibilities m i \<noteq> 1)"

lemma not_single:
  assumes "toChar w = CHR ''.''" "bits w \<subseteq> {0..<9}"
  shows "card (bits w) \<noteq> 1"
proof
  assume "card (bits w) = 1"
  then have "\<exists>k<16. w = 2 ^ k" by (simp only: card_bits_one)
  then obtain k where k: "k < 16" "w = 2 ^ k" by blast
  then have "k \<in> bits w" by (simp add: bits_exp)
  with assms(2) have "k < 9" by auto
  with assms(1) k(2) show False unfolding toChar_dot_iff by blast
qed

lemma step_unsettled:
  assumes "reduceOptions_step i (r, m, sol) = (r1, m1, sol1)" "tracks m" "i < 81"
    "cell (board m) i = CHR ''.''"
    "\<forall>j\<in>U. cell (board m) j = CHR ''.'' \<longrightarrow> numPossibilities m j \<noteq> 1" "\<forall>j\<in>U. j < 81"
  shows "\<forall>j\<in>U. cell (board m1) j = CHR ''.'' \<longrightarrow> numPossibilities m1 j \<noteq> 1"
proof -
  note st = step_tracks[OF assms(1-4)]
  from assms(1) show ?thesis
  proof (cases rule: step_cases)
    case same
    with assms(5) show ?thesis by simp
  next
    case reduced
    have "bits (reduced_mask m i) \<subseteq> {0..<9}"
      using assms(2,3) by (auto simp: bits_reduced_mask tracks_def)
    from not_single[OF reduced(2) this] reduced(4) assms(5) show ?thesis
      by (auto simp: numPossibilities_card)
  next
    case solved
    then have sq: "squares m1 j = squares m j" if "j \<noteq> i" for j
      using that by (simp add: commit_def)
    have wf: "wf_grid (board m)" using assms(2) by (simp add: tracks_def)
    have "cell (board m1) i \<noteq> CHR ''.''"
      using solved(2,4) cell_set_cell[OF wf assms(3) assms(3)] by (simp add: commit_def)
    with st(2) sq assms(5,6) show ?thesis
      by (auto simp: numPossibilities_def) metis
  qed
qed

lemma reduceOptions_unsettled:
  assumes "reduceOptions [] m = (r, m', sol')" "tracks m" "listed m" "unsettled m"
  shows "unsettled m'"
proof -
  let ?U = "set (unsolved m)"
  let ?P = "\<lambda>m. \<forall>j\<in>?U. cell (board m) j = CHR ''.'' \<longrightarrow> numPossibilities m j \<noteq> 1"
  have lt: "\<forall>j\<in>?U. j < 81" using assms(3) by (auto simp: listed_def)
  have "?P m'"
  proof (rule reduceOptions_invariant[where P = ?P, OF assms(1,2,3)])
    show "?P m" using assms(4) by (simp add: unsettled_def)
    show "?P m1" if "reduceOptions_step i (r, m, sol) = (r1, m1, sol1)" "tracks m" "i < 81"
      "cell (board m) i = CHR ''.''" "?P m" for i r m sol r1 m1 sol1
      using step_unsettled[OF that lt] .
    show "?P (m\<lparr>unsolved := u\<rparr>)" if "?P m" for m u
      using that by (simp add: numPossibilities_def)
  qed
  moreover have "set (unsolved m') \<subseteq> ?U"
    using assms(1) fold_step_unsolved[of "unsolved m" 0 m "[]"]
    by (auto simp: reduceOptions_def fold_set_erase split: prod.splits)
  moreover have "\<forall>j\<in>set (unsolved m'). cell (board m') j = CHR ''.''"
    using reduceOptions_tracks(2)[OF assms(1,2,3)] by (auto simp: listed_def)
  ultimately show ?thesis unfolding unsettled_def by blast
qed

lemma unsettled_init: "wf_grid b \<Longrightarrow> unsettled (BoardMap_init b)"
  unfolding unsettled_def
proof
  fix i assume w: "wf_grid b" and i: "i \<in> set (unsolved (BoardMap_init b))"
  then have "i < 81" "cell b i = CHR ''.''" by (auto simp: init_unsolved)
  then show "numPossibilities (BoardMap_init b) i \<noteq> 1"
    by (simp add: numPossibilities_card init_squares[OF w] bits_511)
qed

lemma pass_start_inv:
  "pass_start b m \<Longrightarrow> tracks m \<and> listed m \<and> unsettled m \<and> extends b (board m)"
proof (induction rule: pass_start.induct)
  case construct
  then show ?case by (simp add: tracks_init listed_init unsettled_init)
next
  case (again m updated m' solved)
  with reduceOptions_tracks[OF again(2)] reduceOptions_unsettled[OF again(2)]
  show ?case by (auto intro: extends_trans)
qed

lemma pass_start_zero:
  assumes "pass_start b m" "reduceOptions [] m = (0, m', solved)"
  shows "m' = m" and "ready m"
proof -
  from pass_start_inv[OF assms(1)] have t: "tracks m" and l: "listed m" by simp_all
  have d: "distinct (unsolved m)" "length (unsolved m) < 256"
    using l listed_length[OF l] by (simp_all add: listed_def)
  from reduceOptions_zero[OF assms(2) d] t l show "m' = m" and "ready m"
    by (simp_all add: ready_def)
qed

lemma iteration_ready: "iteration b m \<Longrightarrow> ready m \<and> extends b (board m)"
proof (induction rule: iteration.induct)
  case (propagated m m' solved)
  with pass_start_zero[OF propagated] pass_start_inv[OF propagated(1)] show ?case by simp
next
  case (retracted m fewestPossibilities guessIndex fuel copy solved tr)
  then have r: "ready m" by simp
  from r retracted(3,2) obtain k where "ready (retract guessIndex (guess_of m guessIndex) m)"
    by (rule search_iteration)
  with retracted show ?case by (simp add: retract_def)
qed

lemma propagate_iteration:
  "propagate sol m = (m', sol') \<Longrightarrow> sol = [] \<Longrightarrow> pass_start b m \<Longrightarrow> iteration b m'"
proof (induction sol m arbitrary: m' sol' rule: propagate.induct)
  case (1 solved0 m)
  obtain r m1 s1 where ro: "reduceOptions solved0 m = (r, m1, s1)"
    by (cases "reduceOptions solved0 m") auto
  note ro' = ro[unfolded \<open>solved0 = []\<close>]
  have s1: "s1 = []" using ro by (auto simp: reduceOptions_def split: prod.splits)
  show ?case
  proof (cases "r > 0")
    case True
    then have "propagate solved0 m = propagate s1 m1"
      using ro by (subst propagate.simps) simp
    with "1.prems"(1) have "propagate s1 m1 = (m', sol')" by simp
    from "1.IH"[OF ro[symmetric] refl True this s1 pass_start.again[OF "1.prems"(3) ro' True]]
    show ?thesis .
  next
    case False
    then have "propagate solved0 m = (m1, s1)"
      using ro by (subst propagate.simps) simp
    with "1.prems"(1) have e: "m' = m1" by simp
    from False ro' have "reduceOptions [] m = (0, m1, s1)" by simp
    from iteration.propagated[OF "1.prems"(3) this] e show ?thesis by simp
  qed
qed

lemma solve_iteration:
  assumes "wf_grid b"
  obtains m1 where "iteration b m1" "propagate [] (BoardMap_init b) = (m1, [])"
    "\<forall>fuel. solve fuel [] (BoardMap_init b) = search fuel [] m1"
proof -
  from assms obtain m1 where c: "propagate [] (BoardMap_init b) = (m1, [])"
    "\<forall>fuel. solve fuel [] (BoardMap_init b) = search fuel [] m1"
    by (rule solve_init)
  from propagate_iteration[OF c(1) refl pass_start.construct[OF assms]] c that show ?thesis by blast
qed

section \<open>More example grids\<close>

lemma extends_rows:
  assumes "wf_grid b" "wf_grid c" "list_all2 (list_all2 (\<lambda>x y. x = CHR ''.'' \<or> y = x)) b c"
  shows "extends b c"
  unfolding extends_def
proof (intro allI impI)
  fix i :: nat assume i: "i < 81" and f: "cell b i \<noteq> CHR ''.''"
  have r: "rowIndex i < length b" using rowIndex_less[OF i] assms(1) by (simp add: wf_grid_def)
  then have "b ! rowIndex i \<in> set b" by simp
  then have l: "columnIndex i < length (b ! rowIndex i)"
    using columnIndex_less[of i] assms(1) by (simp add: wf_grid_def)
  from assms(3) r have "list_all2 (\<lambda>x y. x = CHR ''.'' \<or> y = x) (b ! rowIndex i) (c ! rowIndex i)"
    by (rule list_all2_nthD)
  from list_all2_nthD[OF this l] f show "cell c i = cell b i" by (simp add: cell_def)
qed

lemma completion_conflict_free:
  assumes "completion b c"
  shows "conflict_free b"
  unfolding conflict_free_iff no_conflict_def
proof (intro allI impI)
  fix i j :: nat assume i: "i < 81" and j: "j < 81" and p: "peer i j \<and> cell b i \<noteq> CHR ''.''"
  from assms have nc: "no_conflict c" and e: "extends b c"
    and full: "\<forall>i<81. cell c i \<noteq> CHR ''.''"
    by (simp_all add: completion_def valid_solution_iff)
  from e i p have ci: "cell c i = cell b i" by (simp add: extends_def)
  from nc i j p full have ne: "cell c i \<noteq> cell c j" by (simp add: no_conflict_def)
  show "cell b i \<noteq> cell b j"
  proof (cases "cell b j = CHR ''.''")
    case True
    with p show ?thesis by simp
  next
    case False
    with e j have "cell c j = cell b j" by (simp add: extends_def)
    with ci ne show ?thesis by simp
  qed
qed

lemma conflict_free_solved_grid: "conflict_free solved_grid"
  unfolding conflict_free_def groups_explicit
  by (simp add: solved_grid_def cell_def rowIndex_def columnIndex_def)

lemma valid_solved_grid: "valid_solution solved_grid"
  unfolding valid_solution_iff
  using conflict_free_solved_grid wf_solved_grid solved_grid_full
  by (simp add: conflict_free_iff)

text \<open>A puzzle: 41 squares of \<open>solved_grid\<close> are given.\<close>

definition puzzle_grid :: grid where
  "puzzle_grid =
     [''1.3.5.7.9'', ''.5.7.9.2.'', ''7.9.2.4.6'',
      ''.3.5.4.9.'', ''5.4.9.2.1'', ''.9.2.1.6.'',
      ''3.2.4.9.8'', ''.4.9.8.1.'', ''9.8.1.6.5'']"

lemma wf_puzzle_grid: "wf_grid puzzle_grid"
  by (simp add: wf_grid_def puzzle_grid_def digit_def)

lemma puzzle_completion: "completion puzzle_grid solved_grid"
  unfolding completion_def
  by (intro conjI valid_solved_grid extends_rows wf_puzzle_grid wf_solved_grid)
     (simp add: puzzle_grid_def solved_grid_def)

definition empty_grid :: grid where
  "empty_grid = replicate 9 (replicate 9 CHR ''.'')"

lemma wf_empty_grid: "wf_grid empty_grid"
  by (simp add: wf_grid_def empty_grid_def)

lemma cell_empty_grid: "i < 81 \<Longrightarrow> cell empty_grid i = CHR ''.''"
  using rowIndex_less[of i] columnIndex_less[of i] by (simp add: cell_def empty_grid_def)

lemma empty_completion: "valid_solution c \<Longrightarrow> completion empty_grid c"
  by (simp add: completion_def extends_def cell_empty_grid)

text \<open>A grid that fills every square with the same symbol.\<close>

definition ones_grid :: grid where
  "ones_grid = replicate 9 (replicate 9 CHR ''1'')"

lemma wf_ones_grid: "wf_grid ones_grid"
  by (simp add: wf_grid_def ones_grid_def digit_def)

lemma cell_ones_grid: "i < 81 \<Longrightarrow> cell ones_grid i = CHR ''1''"
  using rowIndex_less[of i] columnIndex_less[of i] by (simp add: cell_def ones_grid_def)

text \<open>The solved grid with the symbol of its first square repeated in the second.\<close>

definition clash_grid :: grid where
  "clash_grid =
     [''113456789'', ''456789123'', ''789123456'',
      ''231564897'', ''564897231'', ''897231564'',
      ''312645978'', ''645978312'', ''978312645'']"

lemma wf_clash_grid: "wf_grid clash_grid"
  by (simp add: wf_grid_def clash_grid_def digit_def)

lemma clash_grid_full: "\<forall>i<81. cell clash_grid i \<noteq> CHR ''.''"
  by (rule full_gridI[OF wf_clash_grid]) (simp add: clash_grid_def)

text \<open>
  A grid whose givens do not clash and that has no completion: the last square of the
  first row sees all nine symbols.
\<close>

definition stuck_grid :: grid where
  "stuck_grid =
     [''12345678.'', ''........9'', ''.........'',
      ''.........'', ''.........'', ''.........'',
      ''.........'', ''.........'', ''.........'']"

lemma wf_stuck_grid: "wf_grid stuck_grid"
  by (simp add: wf_grid_def stuck_grid_def digit_def)

lemma conflict_free_stuck_grid: "conflict_free stuck_grid"
  unfolding conflict_free_def groups_explicit
  by (simp add: stuck_grid_def cell_def rowIndex_def columnIndex_def)

lemma peers_used_member:
  assumes "j < 81" "cell b j = symbol_of k" "k < 9"
    "rowIndex j = rowIndex i \<or> columnIndex j = columnIndex i \<or> blockIndex j = blockIndex i"
  shows "k \<in> peers_used b i"
proof -
  have "cell b j \<noteq> CHR ''.''" "symbol_bit (cell b j) = k"
    using assms(2,3) symbol_bit_symbol_of[of k] symbol_of_digit[of k] digit_not_dot by auto
  with assms(1,4) show ?thesis unfolding peers_used_def used_def by blast
qed

lemma no_candidate_no_completion:
  assumes "i < 81" "cell b i = CHR ''.''" "{0..<9} \<subseteq> peers_used b i"
  shows "\<not> completion b c"
proof
  assume c: "completion b c"
  from completion_digit[OF c assms(1)] have "symbol_bit (cell c i) < 9" by (rule symbol_bit_less)
  with assms(3) completion_avoids[OF c assms(1,2)] show False by auto
qed

lemma stuck_grid_no_completion: "\<not> completion stuck_grid c"
proof (rule no_candidate_no_completion[of 8])
  show "(8::nat) < 81" by simp
  show "cell stuck_grid 8 = CHR ''.''"
    by (simp add: stuck_grid_def cell_def rowIndex_def columnIndex_def)
  show "{0..<9} \<subseteq> peers_used stuck_grid 8"
  proof
    fix k :: nat assume "k \<in> {0..<9}"
    then have k: "k < 9" by simp
    let ?j = "if k = 8 then 17 else k"
    have c: "cell stuck_grid ?j = symbol_of k"
      using k by (auto dest!: less_9_cases
          simp: stuck_grid_def cell_def rowIndex_def columnIndex_def symbol_of_simps)
    have g: "rowIndex ?j = rowIndex 8 \<or> columnIndex ?j = columnIndex 8 \<or> blockIndex ?j = blockIndex 8"
      using k by (auto simp: rowIndex_def columnIndex_def)
    have "?j < 81" using k by simp
    from this c k g show "k \<in> peers_used stuck_grid 8" by (rule peers_used_member)
  qed
qed

section \<open>Claims about the result of \<open>solve\<close>\<close>

lemma solve_result:
  assumes "wf_grid b"
  obtains fuel ok m' tr where "solve fuel [] (BoardMap_init b) = Some (ok, m', [], tr)"
    "\<forall>fuel' r. solve fuel' [] (BoardMap_init b) = Some r \<longrightarrow> r = (ok, m', [], tr)"
proof -
  from solve_terminates[OF assms] obtain fuel r where s: "solve fuel [] (BoardMap_init b) = Some r"
    by blast
  obtain ok m' sol' tr where r: "r = (ok, m', sol', tr)" by (cases r)
  from s r solve_static[of fuel "[]" "BoardMap_init b" ok m' sol' tr] have "sol' = []" by simp
  with s r have 1: "solve fuel [] (BoardMap_init b) = Some (ok, m', [], tr)" by simp
  have "\<forall>fuel' r. solve fuel' [] (BoardMap_init b) = Some r \<longrightarrow> r = (ok, m', [], tr)"
    using solve_fuel_independent[OF _ 1] by blast
  with 1 show ?thesis by (rule that)
qed

lemma solve_frame:
  assumes "wf_grid b" "solve fuel [] (BoardMap_init b) = Some (ok, m', sol', tr)"
  shows "wf_grid (board m')" and "extends b (board m')" and "ok \<longrightarrow> complete (board m')"
    and "\<not> ok \<longrightarrow> board m' = board (fst (propagate [] (BoardMap_init b)))"
proof -
  from assms(1) obtain m1 where c: "propagate [] (BoardMap_init b) = (m1, [])"
    "ready m1" "extends b (board m1)" "\<forall>fuel. solve fuel [] (BoardMap_init b) = search fuel [] m1"
    by (rule solve_init)
  from assms(2) c(4) have s: "search fuel [] m1 = Some (ok, m', sol', tr)" by simp
  note f = search_frame[OF s c(2)]
  from f show "wf_grid (board m')" and "ok \<longrightarrow> complete (board m')" by simp_all
  from f c(3) show "extends b (board m')" by (auto intro: extends_trans)
  from f c(1) show "\<not> ok \<longrightarrow> board m' = board (fst (propagate [] (BoardMap_init b)))" by simp
qed

section \<open>A pass over a stable object\<close>

lemma fold_step_stable:
  "\<forall>i\<in>set xs. reduced_mask m i = squares m i \<Longrightarrow> fold reduceOptions_step xs (r, m, sol) = (r, m, sol)"
  by (induction xs) (simp_all add: reduceOptions_step_eq)

lemma reduceOptions_stable: "stable m \<Longrightarrow> reduceOptions [] m = (0, m, [])"
  by (simp add: reduceOptions_def stable_def fold_step_stable)

lemma propagate_stable: "stable m \<Longrightarrow> propagate [] m = (m, [])"
  by (subst propagate.simps) (simp add: reduceOptions_stable)

lemma solve_stable: "stable m \<Longrightarrow> solve fuel [] m = search fuel [] m"
  by (simp add: solve_def propagate_stable)

section \<open>The empty grid\<close>

lemma used_empty_grid: "used empty_grid G = {}"
  by (auto simp: used_def cell_empty_grid)

lemma unsolved_empty_grid: "unsolved (BoardMap_init empty_grid) = [0..<81]"
proof -
  have "filter (\<lambda>i. cell empty_grid i = CHR ''.'') [0..<81] = [0..<81]"
    by (rule filter_True) (simp add: cell_empty_grid)
  then show ?thesis by (simp add: init_unsolved[OF wf_empty_grid])
qed

lemma squares_empty_grid: "i < 81 \<Longrightarrow> squares (BoardMap_init empty_grid) i = 0b111111111"
  by (simp add: init_squares[OF wf_empty_grid] cell_empty_grid)

lemma stable_empty_grid: "stable (BoardMap_init empty_grid)"
  using tracks_init[OF wf_empty_grid]
  by (simp add: stable_def reduced_mask_eq_iff tracks_def used_empty_grid)

lemma iteration_empty_grid: "iteration empty_grid (BoardMap_init empty_grid)"
  using iteration.propagated[OF pass_start.construct[OF wf_empty_grid]
      reduceOptions_stable[OF stable_empty_grid]] .

lemma select_scan_all_nine:
  "\<forall>i\<in>set xs. numPossibilities m i = 9 \<Longrightarrow> select_scan m xs (9, g) = Some (9, g)"
  by (induction xs) simp_all

lemma numPossibilities_empty_grid: "i < 81 \<Longrightarrow> numPossibilities (BoardMap_init empty_grid) i = 9"
  by (simp add: numPossibilities_card squares_empty_grid bits_511)

lemma select_scan_empty_grid:
  "select_scan (BoardMap_init empty_grid) (unsolved (BoardMap_init empty_grid)) (9, 0) = Some (9, 0)"
  by (rule select_scan_all_nine) (simp add: unsolved_empty_grid numPossibilities_empty_grid)

lemma search_guesses:
  assumes "search fuel sol m = Some (ok, m', sol', tr)" "unsolved m \<noteq> []"
    "select_scan m (unsolved m) (9, 0) = Some (fp, gi)"
  shows "\<exists>tr'. tr = (m, gi, guess_of m gi) # tr'"
proof (cases fuel)
  case 0
  with assms(1) show ?thesis by simp
next
  case (Suc n)
  from assms(1)[unfolded Suc] show ?thesis
    by (cases rule: search_Suc_cases) (use assms(2,3) in auto)
qed

section \<open>What propagation leaves of the candidates\<close>

text \<open>
  Propagation removes from an unsolved square only symbols placed in its row, column or
  block: until a guess is retracted, every symbol not placed there is still a candidate.
\<close>

definition exact :: "BoardMap \<Rightarrow> bool" where
  "exact m \<longleftrightarrow> (\<forall>i<81. cell (board m) i = CHR ''.'' \<longrightarrow>
      {0..<9} - peers_used (board m) i \<subseteq> bits (squares m i))"

lemma used_mono: "extends b b' \<Longrightarrow> used b G \<subseteq> used b' G"
  unfolding used_def extends_def by (auto; metis)

lemma peers_used_mono: "extends b b' \<Longrightarrow> peers_used b i \<subseteq> peers_used b' i"
  unfolding peers_used_def using used_mono[of b b'] by blast

lemma exact_init: "wf_grid b \<Longrightarrow> exact (BoardMap_init b)"
  by (auto simp: exact_def init_squares bits_511)

lemma step_exact:
  assumes "reduceOptions_step i (r, m, sol) = (r1, m1, sol1)" "tracks m" "i < 81"
    "cell (board m) i = CHR ''.''" "exact m"
  shows "exact m1"
proof -
  have wf: "wf_grid (board m)" using assms(2) by (simp add: tracks_def)
  from assms(1) show ?thesis
  proof (cases rule: step_cases)
    case same
    with assms(5) show ?thesis by simp
  next
    case reduced
    have "{0..<9} - peers_used (board m) j \<subseteq> bits (squares m1 j)"
      if "j < 81" "cell (board m) j = CHR ''.''" for j
      using assms(5) that reduced(4) bits_reduced_mask[OF assms(2), of i]
      by (cases "j = i") (auto simp: exact_def)
    with reduced(4) show ?thesis by (simp add: exact_def)
  next
    case solved
    have b1: "board m1 = set_cell (board m) i (toChar (reduced_mask m i))"
      using solved(4) by (simp add: commit_def)
    have e: "extends (board m) (board m1)"
      unfolding b1 by (rule extends_set_cell[OF wf assms(3,4)])
    have c1: "cell (board m1) j = (if j = i then toChar (reduced_mask m i) else cell (board m) j)"
      if "j < 81" for j
      unfolding b1 by (rule cell_set_cell[OF wf assms(3) that])
    have sq: "squares m1 j = squares m j" if "j \<noteq> i" for j
      using that solved(4) by (simp add: commit_def)
    show ?thesis
      unfolding exact_def
    proof (intro allI impI)
      fix j :: nat assume j: "j < 81" and d: "cell (board m1) j = CHR ''.''"
      with c1[OF j] solved(2) have ne: "j \<noteq> i" and dj: "cell (board m) j = CHR ''.''"
        by (auto split: if_splits)
      from assms(5) j dj have "{0..<9} - peers_used (board m) j \<subseteq> bits (squares m j)"
        by (simp add: exact_def)
      with peers_used_mono[OF e, of j] sq[OF ne]
      show "{0..<9} - peers_used (board m1) j \<subseteq> bits (squares m1 j)" by auto
    qed
  qed
qed

lemma pass_start_tracks: "pass_start b m \<Longrightarrow> tracks m" and pass_start_listed: "pass_start b m \<Longrightarrow> listed m"
  and pass_start_unsettled: "pass_start b m \<Longrightarrow> unsettled m"
  and pass_start_extends: "pass_start b m \<Longrightarrow> extends b (board m)"
  using pass_start_inv by blast+

lemma pass_start_exact: "pass_start b m \<Longrightarrow> exact m"
proof (induction rule: pass_start.induct)
  case construct
  then show ?case by (rule exact_init)
next
  case (again m updated m' solved)
  show ?case
  proof (rule reduceOptions_invariant[where P = exact,
        OF again(2) pass_start_tracks[OF again(1)] pass_start_listed[OF again(1)] again.IH])
    show "exact m1" if "reduceOptions_step i (r, m, sol) = (r1, m1, sol1)" "tracks m" "i < 81"
      "cell (board m) i = CHR ''.''" "exact m" for i r m sol r1 m1 sol1
      using that by (rule step_exact)
    show "exact (m\<lparr>unsolved := u\<rparr>)" if "exact m" for m u
      using that by (simp add: exact_def)
  qed
qed

lemma propagate_pass_start:
  "propagate sol m = (m', sol') \<Longrightarrow> sol = [] \<Longrightarrow> pass_start b m \<Longrightarrow>
   pass_start b m' \<and> reduceOptions [] m' = (0, m', []) \<and> sol' = []"
proof (induction sol m arbitrary: m' sol' rule: propagate.induct)
  case (1 solved0 m)
  obtain r m1 s1 where ro: "reduceOptions solved0 m = (r, m1, s1)"
    by (cases "reduceOptions solved0 m") auto
  note ro' = ro[unfolded \<open>solved0 = []\<close>]
  have s1: "s1 = []" using ro by (auto simp: reduceOptions_def split: prod.splits)
  show ?case
  proof (cases "r > 0")
    case True
    then have "propagate solved0 m = propagate s1 m1"
      using ro by (subst propagate.simps) simp
    with "1.prems"(1) have "propagate s1 m1 = (m', sol')" by simp
    from "1.IH"[OF ro[symmetric] refl True this s1 pass_start.again[OF "1.prems"(3) ro' True]]
    show ?thesis .
  next
    case False
    then have "propagate solved0 m = (m1, s1)"
      using ro by (subst propagate.simps) simp
    with "1.prems"(1) have e: "m' = m1" "sol' = s1" by simp_all
    from False ro' s1 have z: "reduceOptions [] m = (0, m1, [])" by simp
    from pass_start_zero(1)[OF "1.prems"(3) z] have "m1 = m" .
    with e z s1 "1.prems"(3) show ?thesis by simp
  qed
qed

text \<open>The object \<open>solve\<close> has when its search loop starts.\<close>

definition propagated :: "grid \<Rightarrow> BoardMap" where
  "propagated b = fst (propagate [] (BoardMap_init b))"

lemma propagated:
  assumes "wf_grid b"
  shows "propagate [] (BoardMap_init b) = (propagated b, [])"
    and "pass_start b (propagated b)" and "iteration b (propagated b)"
    and "ready (propagated b)" and "exact (propagated b)" and "unsettled (propagated b)"
    and "extends b (board (propagated b))"
    and "solve fuel [] (BoardMap_init b) = search fuel [] (propagated b)"
proof -
  obtain m1 s1 where p: "propagate [] (BoardMap_init b) = (m1, s1)"
    by (cases "propagate [] (BoardMap_init b)")
  note s = propagate_pass_start[OF p refl pass_start.construct[OF assms]]
  from p s show 1: "propagate [] (BoardMap_init b) = (propagated b, [])" by (simp add: propagated_def)
  from p s show 2: "pass_start b (propagated b)" by (simp add: propagated_def)
  from s p have z: "reduceOptions [] (propagated b) = (0, propagated b, [])" by (simp add: propagated_def)
  from iteration.propagated[OF 2 z] show 3: "iteration b (propagated b)" .
  from iteration_ready[OF 3] show "ready (propagated b)" "extends b (board (propagated b))" by simp_all
  from pass_start_exact[OF 2] show "exact (propagated b)" .
  from pass_start_unsettled[OF 2] show "unsettled (propagated b)" .
  from 1 show "solve fuel [] (BoardMap_init b) = search fuel [] (propagated b)" by (simp add: solve_def)
qed

lemma propagated_candidates:
  assumes "wf_grid b" "i \<in> set (unsolved (propagated b))"
  shows "bits (squares (propagated b) i) = {0..<9} - peers_used (board (propagated b)) i"
proof -
  let ?m = "propagated b"
  note r = propagated(4)[OF assms(1)]
  then have t: "tracks ?m" and l: "listed ?m" and s: "stable ?m" by (simp_all add: ready_def)
  from l assms(2) have i: "i < 81" "cell (board ?m) i = CHR ''.''" by (auto simp: listed_def)
  from t i have "bits (squares ?m i) \<subseteq> {0..<9}" by (simp add: tracks_def)
  moreover note stable_disjoint[OF t s assms(2)]
  moreover from propagated(5)[OF assms(1)] i
  have "{0..<9} - peers_used (board ?m) i \<subseteq> bits (squares ?m i)" by (simp add: exact_def)
  ultimately show ?thesis by blast
qed

text \<open>A square that has one candidate in the grid it starts from: propagation writes.\<close>

lemma propagation_writes:
  assumes "wf_grid b" "i < 81" "cell b i = CHR ''.''" "{0..<9} - peers_used b i = {k}"
  shows "board (propagated b) \<noteq> b"
proof
  assume e: "board (propagated b) = b"
  let ?m = "propagated b"
  from propagated(4)[OF assms(1)] have l: "listed ?m" by (simp add: ready_def)
  with e assms(2,3) have u: "i \<in> set (unsolved ?m)" by (simp add: listed_def)
  from propagated_candidates[OF assms(1) u] e assms(4) have "bits (squares ?m i) = {k}" by simp
  then have "numPossibilities ?m i = 1" by (simp add: numPossibilities_card)
  with propagated(6)[OF assms(1)] u show False by (simp add: unsettled_def)
qed

text \<open>A grid in which no empty square has exactly one candidate: propagation writes nothing.\<close>

lemma step_quiet:
  assumes "reduceOptions_step i (r, m, sol) = (r1, m1, sol1)" "tracks m" "i < 81"
    "cell (board m) i = CHR ''.''" "exact m \<and> board m = b"
    "\<forall>i<81. cell b i = CHR ''.'' \<longrightarrow> card ({0..<9} - peers_used b i) \<noteq> 1"
  shows "exact m1 \<and> board m1 = b"
proof -
  from assms(5) have ex: "exact m" and b: "board m = b" by simp_all
  have "bits (squares m i) \<subseteq> {0..<9}" using assms(2,3) by (simp add: tracks_def)
  moreover have "{0..<9} - peers_used b i \<subseteq> bits (squares m i)"
    using ex assms(3,4) b by (auto simp: exact_def)
  ultimately have "bits (reduced_mask m i) = {0..<9} - peers_used b i"
    unfolding bits_reduced_mask[OF assms(2)] b by blast
  with assms(3,4,6) b have c: "card (bits (reduced_mask m i)) \<noteq> 1" by simp
  have d: "toChar (reduced_mask m i) = CHR ''.''"
  proof (cases "reduced_mask m i" rule: toChar_cases)
    case (single k)
    with c show ?thesis by (simp add: bits_exp)
  next
    case none
    then show ?thesis by simp
  qed
  from assms(1) have "board m1 = board m"
    by (cases rule: step_cases) (use d in simp_all)
  with step_exact[OF assms(1-4) ex] b show ?thesis by simp
qed

lemma propagated_quiet:
  assumes "wf_grid b" "\<forall>i<81. cell b i = CHR ''.'' \<longrightarrow> card ({0..<9} - peers_used b i) \<noteq> 1"
  shows "board (propagated b) = b"
    and "set (unsolved (propagated b)) = {i. i < 81 \<and> cell b i = CHR ''.''}"
    and "\<forall>i<81. cell b i = CHR ''.'' \<longrightarrow> bits (squares (propagated b) i) = {0..<9} - peers_used b i"
proof -
  let ?P = "\<lambda>m. exact m \<and> board m = b"
  have "?P (propagated b)"
  proof (rule propagate_invariant[where P = ?P, OF propagated(1)[OF assms(1)]
        tracks_init[OF assms(1)] listed_init[OF assms(1)]])
    show "?P (BoardMap_init b)" using exact_init[OF assms(1)] by simp
    show "?P m1" if "reduceOptions_step i (r, m, sol) = (r1, m1, sol1)" "tracks m" "i < 81"
      "cell (board m) i = CHR ''.''" "?P m" for i r m sol r1 m1 sol1
      using step_quiet[OF that assms(2)] .
    show "?P (m\<lparr>unsolved := u\<rparr>)" if "?P m" for m u
      using that by (auto simp: exact_def)
  qed
  then show e: "board (propagated b) = b" by simp
  from propagated(4)[OF assms(1)] have "listed (propagated b)" by (simp add: ready_def)
  with e show u: "set (unsolved (propagated b)) = {i. i < 81 \<and> cell b i = CHR ''.''}"
    by (simp add: listed_def)
  show "\<forall>i<81. cell b i = CHR ''.'' \<longrightarrow> bits (squares (propagated b) i) = {0..<9} - peers_used b i"
    using propagated_candidates[OF assms(1)] u e by auto
qed

text \<open>A square that sees all nine symbols in the grid is left without a candidate.\<close>

lemma propagated_no_candidate:
  assumes "wf_grid b" "conflict_free b" "i < 81" "cell b i = CHR ''.''" "{0..<9} \<subseteq> peers_used b i"
  shows "i \<in> set (unsolved (propagated b))" and "numPossibilities (propagated b) i = 0"
proof -
  let ?m = "propagated b"
  note r = propagated(4)[OF assms(1)]
  then have t: "tracks ?m" and l: "listed ?m" by (simp_all add: ready_def)
  have wf: "wf_grid (board ?m)" using t by (simp add: tracks_def)
  note e = propagated(7)[OF assms(1)]
  have nc: "no_conflict (board ?m)"
    using propagate_no_conflict[OF propagated(1)[OF assms(1)] tracks_init[OF assms(1)] listed_init[OF assms(1)]]
      assms(2) by (simp add: conflict_free_iff)
  have "cell (board ?m) i = CHR ''.''"
  proof (rule ccontr)
    assume f: "cell (board ?m) i \<noteq> CHR ''.''"
    with wf_grid_cell[OF wf assms(3)] have d: "digit (cell (board ?m) i)" by simp
    from symbol_bit_less[OF d] assms(5) have "symbol_bit (cell (board ?m) i) \<in> peers_used b i" by auto
    then obtain j where j: "j < 81" "cell b j \<noteq> CHR ''.''" "symbol_bit (cell (board ?m) i) = symbol_bit (cell b j)"
      "rowIndex j = rowIndex i \<or> columnIndex j = columnIndex i \<or> blockIndex j = blockIndex i"
      unfolding peers_used_def used_def by blast
    from j(2) assms(4) have ne: "i \<noteq> j" by auto
    from e j(1,2) have cj: "cell (board ?m) j = cell b j" by (simp add: extends_def)
    with wf_grid_cell[OF wf j(1)] j(2) have dj: "digit (cell (board ?m) j)" by simp
    from j(3) cj d dj have "cell (board ?m) i = cell (board ?m) j" by (simp add: symbol_bit_inj)
    moreover have "peer i j" using ne j(4) unfolding peer_def by metis
    ultimately show False using nc assms(3) j(1) f unfolding no_conflict_def by blast
  qed
  with l assms(3) show u: "i \<in> set (unsolved ?m)" by (simp add: listed_def)
  from propagated_candidates[OF assms(1) u] peers_used_mono[OF e, of i] assms(5)
  have "bits (squares ?m i) = {}" by auto
  then show "numPossibilities ?m i = 0" by (simp add: numPossibilities_card)
qed

text \<open>The symbols of a grid, as bit positions.\<close>

lemma used_symbols: "wf_grid b \<Longrightarrow> used b G \<subseteq> symbol_bit ` ((\<Union>row\<in>set b. set row) - {CHR ''.''})"
  unfolding used_def using cell_in_row[of b] by blast

lemma peers_used_symbols:
  "wf_grid b \<Longrightarrow> peers_used b i \<subseteq> symbol_bit ` ((\<Union>row\<in>set b. set row) - {CHR ''.''})"
  unfolding peers_used_def using used_symbols[of b] by blast

section \<open>Inside a pass of \<open>reduceOptions\<close>\<close>

text \<open>
  The counter, the object and the static set in the loop of \<open>reduceOptions\<close>, called on \<open>m\<close>
  with the static set empty, when the squares \<open>visited\<close> have been visited.
\<close>

definition during_pass :: "BoardMap \<Rightarrow> nat list \<Rightarrow> nat \<times> BoardMap \<times> nat list" where
  "during_pass m visited = fold reduceOptions_step visited (0, m, [])"

lemma reduceOptions_during_pass:
  "reduceOptions [] m =
     (case during_pass m (unsolved m) of
        (reduced, m', solved) \<Rightarrow> (reduced, m'\<lparr>unsolved := fold set_erase solved (unsolved m')\<rparr>, []))"
  by (simp add: reduceOptions_def during_pass_def)

lemma fold_pass_pre:
  "fold reduceOptions_step xs (r, m, sol) = (r', m', sol') \<Longrightarrow> pass_pre m (xs @ ys) \<Longrightarrow> pass_pre m' ys"
proof (induction xs arbitrary: r m sol)
  case Nil
  then show ?case by simp
next
  case (Cons x xs)
  obtain r1 m1 sol1 where st: "reduceOptions_step x (r, m, sol) = (r1, m1, sol1)"
    by (cases "reduceOptions_step x (r, m, sol)") auto
  with Cons.prems have rest: "fold reduceOptions_step xs (r1, m1, sol1) = (r', m', sol')" by simp
  from Cons.prems(2) have "pass_pre m (x # (xs @ ys))" by simp
  from Cons.IH[OF rest pass_pre_step[OF this st]] show ?case .
qed

lemma during_pass_counter:
  assumes "during_pass m visited = (r, mi, s)" "distinct visited"
  shows "r \<le> length visited" and "r = card {i \<in> set visited. squares mi i \<noteq> squares m i} mod 256"
proof -
  from fold_step_count[OF assms(1)[unfolded during_pass_def] assms(2)]
  show 2: "r = card {i \<in> set visited. squares mi i \<noteq> squares m i} mod 256" by (simp add: changed_def)
  have "card {i \<in> set visited. squares mi i \<noteq> squares m i} mod 256 \<le> card {i \<in> set visited. squares mi i \<noteq> squares m i}"
    by simp
  also have "\<dots> \<le> length visited" using card_changed_le[of m mi visited] by (simp add: changed_def)
  finally show "r \<le> length visited" using 2 by simp
qed

lemma visit:
  assumes "tracks m" "listed m" "unsolved m = visited @ index # rest"
    "during_pass m visited = (r, mi, s)" "reduceOptions_step index (r, mi, s) = (r1, m1, s1)"
    "reduceOptions [] m = (reduced, m', solved')"
  shows "tracks mi" and "index < 81" and "cell (board mi) index = CHR ''.''"
    and "squares mi index = squares m index" and "unsolved mi = unsolved m" and "unsolved m1 = unsolved m"
    and "during_pass m (visited @ [index]) = (r1, m1, s1)"
    and "squares m1 index = reduced_mask mi index"
    and "squares m1 index = squares mi index \<longrightarrow> r1 = r \<and> m1 = mi \<and> s1 = s"
    and "squares m1 index \<noteq> squares mi index \<longrightarrow> r1 = r + 1"
    and "\<forall>k<9. squares m1 index \<noteq> squares mi index \<and> squares m1 index = 2 ^ k \<longrightarrow>
           m1 = commit index (2 ^ k) mi \<and> toChar (2 ^ k) = symbol_of k \<and> s1 = set_insert index s
           \<and> cell (board m') index = symbol_of k \<and> index \<notin> set (unsolved m')"
    and "(\<forall>k<9. squares m1 index \<noteq> 2 ^ k) \<longrightarrow>
           m1 = mi\<lparr>squares := (squares mi)(index := reduced_mask mi index)\<rparr> \<and> s1 = s
           \<and> cell (board m') index = CHR ''.'' \<and> index \<in> set (unsolved m')"
proof -
  note f = assms(4)[unfolded during_pass_def]
  have pre: "pass_pre m (visited @ index # rest)"
    using listed_pass_pre[OF assms(1,2)] assms(3) by simp
  from fold_pass_pre[OF f pre] have prei: "pass_pre mi (index # rest)" .
  then show t: "tracks mi" and i: "index < 81" and c: "cell (board mi) index = CHR ''.''"
    by (simp_all add: pass_pre_def)
  from pre have d: "distinct (visited @ index # rest)" by (simp add: pass_pre_def)
  then have nv: "index \<notin> set visited" and nr: "index \<notin> set rest" by auto
  from fold_step_squares_other[OF f nv] show sq: "squares mi index = squares m index" .
  from fold_step_unsolved[OF f] show ui: "unsolved mi = unsolved m" .
  from step_unsolved[OF assms(5)] ui show u1: "unsolved m1 = unsolved m" by simp
  show dp: "during_pass m (visited @ [index]) = (r1, m1, s1)"
    using assms(4,5) by (simp add: during_pass_def)
  from step_squares[OF assms(5)] show red: "squares m1 index = reduced_mask mi index"
    by (simp add: reduced_mask_def)
  from d have "distinct visited" by simp
  from during_pass_counter(1)[OF assms(4) this] have "r \<le> length visited" .
  moreover have "length (unsolved m) \<le> 81" by (rule listed_length[OF assms(2)])
  ultimately have rb: "r < 255" using assms(3) by simp
  show "squares m1 index = squares mi index \<longrightarrow> r1 = r \<and> m1 = mi \<and> s1 = s"
    using step_same[OF assms(5)] by simp
  show "squares m1 index \<noteq> squares mi index \<longrightarrow> r1 = r + 1"
    using step_counter[OF assms(5)] rb by simp
  obtain rf mf sf where fin: "fold reduceOptions_step rest (r1, m1, s1) = (rf, mf, sf)"
    by (cases "fold reduceOptions_step rest (r1, m1, s1)") auto
  have whole: "during_pass m (unsolved m) = (rf, mf, sf)"
    using fin assms(3,4,5) by (simp add: during_pass_def)
  with assms(6) have m': "board m' = board mf"
    by (auto simp: reduceOptions_during_pass)
  from fold_pass(2)[OF fin pass_pre_step[OF prei assms(5)]] i nr
  have keep: "cell (board m') index = cell (board m1) index" by (simp add: m')
  have wf: "wf_grid (board mi)" using t by (simp add: tracks_def)
  note l' = reduceOptions_tracks(2)[OF assms(6,1,2)]
  have mem: "index \<in> set (unsolved m') \<longleftrightarrow> cell (board m') index = CHR ''.''"
    using l' i by (simp add: listed_def)
  show "\<forall>k<9. squares m1 index \<noteq> squares mi index \<and> squares m1 index = 2 ^ k \<longrightarrow>
           m1 = commit index (2 ^ k) mi \<and> toChar (2 ^ k) = symbol_of k \<and> s1 = set_insert index s
           \<and> cell (board m') index = symbol_of k \<and> index \<notin> set (unsolved m')"
  proof (intro allI impI)
    fix k :: nat assume k: "k < 9" and h: "squares m1 index \<noteq> squares mi index \<and> squares m1 index = 2 ^ k"
    from h red have r2: "reduced_mask mi index = 2 ^ k" "reduced_mask mi index \<noteq> squares mi index" by auto
    note tc = toChar_single[OF k]
    have nd: "symbol_of k \<noteq> CHR ''.''" using symbol_of_digit[OF k] digit_not_dot by blast
    from assms(5) r2 tc nd have 1: "m1 = commit index (2 ^ k) mi" "s1 = set_insert index s"
      by (simp_all add: reduceOptions_step_eq)
    have "cell (board m1) index = symbol_of k"
      unfolding 1 using cell_set_cell[OF wf i i] tc by (simp add: commit_def)
    with keep nd mem 1 tc
    show "m1 = commit index (2 ^ k) mi \<and> toChar (2 ^ k) = symbol_of k \<and> s1 = set_insert index s
           \<and> cell (board m') index = symbol_of k \<and> index \<notin> set (unsolved m')" by simp
  qed
  show "(\<forall>k<9. squares m1 index \<noteq> 2 ^ k) \<longrightarrow>
           m1 = mi\<lparr>squares := (squares mi)(index := reduced_mask mi index)\<rparr> \<and> s1 = s
           \<and> cell (board m') index = CHR ''.'' \<and> index \<in> set (unsolved m')"
  proof
    assume "\<forall>k<9. squares m1 index \<noteq> 2 ^ k"
    with red have "toChar (reduced_mask mi index) = CHR ''.''" by (simp add: toChar_dot_iff)
    with assms(5) have 1: "m1 = mi\<lparr>squares := (squares mi)(index := reduced_mask mi index)\<rparr> \<and> s1 = s"
      by (cases "reduced_mask mi index = squares mi index") (auto simp: reduceOptions_step_eq)
    then have "board m1 = board mi" by simp
    with keep c mem 1
    show "m1 = mi\<lparr>squares := (squares mi)(index := reduced_mask mi index)\<rparr> \<and> s1 = s
           \<and> cell (board m') index = CHR ''.'' \<and> index \<in> set (unsolved m')" by simp
  qed
qed

lemma reduceOptions_result:
  assumes "tracks m" "listed m" "reduceOptions [] m = (reduced, m', solved')"
  shows "reduced = card {i \<in> set (unsolved m). squares m' i \<noteq> squares m i}"
    and "unsolved m' = filter (\<lambda>i. cell (board m') i = CHR ''.'') (unsolved m)"
    and "solved' = []"
proof -
  from assms(2) have d: "distinct (unsolved m)" by (simp add: listed_def)
  have "card (changed m m' (unsolved m)) \<le> 81"
    using card_changed_le[of m m' "unsolved m"] listed_length[OF assms(2)] by simp
  with reduceOptions_count[OF assms(3) d]
  show "reduced = card {i \<in> set (unsolved m). squares m' i \<noteq> squares m i}"
    by (simp add: changed_def)
  note l' = reduceOptions_tracks(2)[OF assms(3,1,2)]
  obtain rf mf sf where f: "fold reduceOptions_step (unsolved m) (0, m, []) = (rf, mf, sf)"
    by (cases "fold reduceOptions_step (unsolved m) (0, m, [])") auto
  with assms(3) have m': "m' = mf\<lparr>unsolved := fold set_erase sf (unsolved mf)\<rparr>"
    by (simp add: reduceOptions_def)
  have u: "unsolved mf = unsolved m" by (rule fold_step_unsolved[OF f])
  from fold_pass(3)[OF f listed_pass_pre[OF assms(1,2)]]
  have "set sf = {i \<in> set (unsolved m). cell (board mf) i \<noteq> CHR ''.''}" by simp
  then have "filter (\<lambda>i. i \<notin> set sf) (unsolved m) = filter (\<lambda>i. cell (board mf) i = CHR ''.'') (unsolved m)"
    by (intro filter_cong) auto
  then show "unsolved m' = filter (\<lambda>i. cell (board m') i = CHR ''.'') (unsolved m)"
    by (simp add: m' u fold_set_erase)
  from assms(3) show "solved' = []" by (auto simp: reduceOptions_def split: prod.splits)
qed

section \<open>The passes of the propagation loop\<close>

text \<open>The object after \<open>n\<close> calls of \<open>reduceOptions\<close>.\<close>

fun passes :: "nat \<Rightarrow> BoardMap \<Rightarrow> BoardMap" where
  "passes 0 m = m"
| "passes (Suc n) m = passes n (fst (snd (reduceOptions [] m)))"

lemma propagate_passes:
  "\<exists>n. (\<forall>k<n. 0 < fst (reduceOptions [] (passes k m)))
      \<and> fst (reduceOptions [] (passes n m)) = 0
      \<and> propagate [] m = (fst (snd (reduceOptions [] (passes n m))), [])"
proof -
  have "sol = [] \<Longrightarrow> \<exists>n. (\<forall>k<n. 0 < fst (reduceOptions [] (passes k m)))
      \<and> fst (reduceOptions [] (passes n m)) = 0
      \<and> propagate sol m = (fst (snd (reduceOptions [] (passes n m))), [])" for sol
  proof (induction sol m rule: propagate.induct)
    case (1 solved0 m)
    obtain r m1 s1 where ro: "reduceOptions solved0 m = (r, m1, s1)"
      by (cases "reduceOptions solved0 m") auto
    note ro' = ro[unfolded \<open>solved0 = []\<close>]
    have s1: "s1 = []" using ro by (auto simp: reduceOptions_def split: prod.splits)
    show ?case
    proof (cases "r > 0")
      case True
      then have p: "propagate solved0 m = propagate s1 m1"
        using ro by (subst propagate.simps) simp
      from "1.IH"[OF ro[symmetric] refl True s1] obtain n where
        n: "\<forall>k<n. 0 < fst (reduceOptions [] (passes k m1))"
        "fst (reduceOptions [] (passes n m1)) = 0"
        "propagate s1 m1 = (fst (snd (reduceOptions [] (passes n m1))), [])" by blast
      have "\<forall>k<Suc n. 0 < fst (reduceOptions [] (passes k m))"
      proof (intro allI impI)
        fix k assume "k < Suc n"
        then show "0 < fst (reduceOptions [] (passes k m))"
          using n(1) True ro' by (cases k) auto
      qed
      with n(2,3) p ro' show ?thesis by (intro exI[of _ "Suc n"]) simp
    next
      case False
      then have "propagate solved0 m = (m1, s1)"
        using ro by (subst propagate.simps) simp
      with False ro' s1 show ?thesis by (intro exI[of _ 0]) simp
    qed
  qed
  then show ?thesis by simp
qed

lemma reduceOptions_zero_same:
  assumes "tracks m" "listed m" "fst (reduceOptions [] m) = 0"
  shows "reduceOptions [] m = (0, m, [])"
proof -
  obtain r m' s' where ro: "reduceOptions [] m = (r, m', s')" by (cases "reduceOptions [] m") auto
  with assms(3) have z: "reduceOptions [] m = (0, m', s')" by simp
  from assms(2) have d: "distinct (unsolved m)" "length (unsolved m) < 256"
    using listed_length[OF assms(2)] by (simp_all add: listed_def)
  from reduceOptions_zero(1)[OF z d] reduceOptions_tracks(4)[OF z assms(1,2)] z show ?thesis by simp
qed

text \<open>
  The first empty square of a grid, when it has one candidate there, is solved by the first
  step of the first pass, and holds that symbol when propagation ends.
\<close>

lemma first_forced:
  assumes "wf_grid b" "unsolved (BoardMap_init b) = index # rest" "{0..<9} - peers_used b index = {k}"
  shows "squares (BoardMap_init b) index = 0b111111111"
    and "reduceOptions_step index (0, BoardMap_init b, []) = (1, commit index (2 ^ k) (BoardMap_init b), [index])"
    and "k < 9" and "toChar (2 ^ k) = symbol_of k"
    and "cell (board (fst (snd (reduceOptions [] (BoardMap_init b))))) index = symbol_of k"
    and "index \<notin> set (unsolved (fst (snd (reduceOptions [] (BoardMap_init b)))))"
    and "cell (board (propagated b)) index = symbol_of k"
proof -
  let ?m = "BoardMap_init b"
  note t = tracks_init[OF assms(1)] and l = listed_init[OF assms(1)]
  from l assms(2) have i: "index < 81" "cell b index = CHR ''.''" by (auto simp: listed_def)
  from assms(3) show k: "k < 9" by auto
  show sq: "squares ?m index = 0b111111111" using i by (simp add: init_squares[OF assms(1)])
  obtain r1 m1 s1 where st: "reduceOptions_step index (0, ?m, []) = (r1, m1, s1)"
    by (cases "reduceOptions_step index (0, ?m, [])") auto
  obtain reduced m' s' where ro: "reduceOptions [] ?m = (reduced, m', s')"
    by (cases "reduceOptions [] ?m") auto
  have u: "unsolved ?m = [] @ index # rest" using assms(2) by simp
  have dp: "during_pass ?m [] = (0, ?m, [])" by (simp add: during_pass_def)
  note v = visit[OF t l u dp st ro]
  have "bits (reduced_mask ?m index) = {k}"
    using assms(3) by (simp add: bits_reduced_mask[OF t] sq bits_511)
  then have "bits (reduced_mask ?m index) = bits (2 ^ k)" using k by (simp add: bits_exp)
  then have red: "reduced_mask ?m index = 2 ^ k" by (simp add: bits_inject)
  have "card (bits (squares ?m index)) \<noteq> card (bits (2 ^ k :: 16 word))"
    using k by (simp add: sq bits_511 bits_exp)
  then have ne: "squares ?m index \<noteq> 2 ^ k" by auto
  from v(8) red ne have h: "squares m1 index \<noteq> squares ?m index \<and> squares m1 index = 2 ^ k" by simp
  with v(11) k have c: "m1 = commit index (2 ^ k) ?m" "toChar (2 ^ k) = symbol_of k"
    "s1 = set_insert index []" "cell (board m') index = symbol_of k" "index \<notin> set (unsolved m')"
    by blast+
  from v(10) h have "r1 = 1" by auto
  with st c show "reduceOptions_step index (0, ?m, []) = (1, commit index (2 ^ k) ?m, [index])"
    by (simp add: set_insert_def)
  from c show "toChar (2 ^ k) = symbol_of k" by simp
  from c ro show w: "cell (board (fst (snd (reduceOptions [] ?m)))) index = symbol_of k"
    and "index \<notin> set (unsolved (fst (snd (reduceOptions [] ?m))))" by simp_all
  have nd: "symbol_of k \<noteq> CHR ''.''" using symbol_of_digit[OF k] digit_not_dot by blast
  note t' = reduceOptions_tracks(1,2)[OF ro t l]
  have "extends (board m') (board (propagated b))"
  proof (cases "reduced > 0")
    case True
    obtain mp sp where p: "propagate [] m' = (mp, sp)" by (cases "propagate [] m'") auto
    from True ro p have "propagate [] ?m = (mp, sp)"
      using reduceOptions_tracks(4)[OF ro t l] by (subst propagate.simps) simp
    then have "propagated b = mp" by (simp add: propagated_def)
    with propagate_ready(2)[OF p t'] show ?thesis by simp
  next
    case False
    with ro have "propagate [] ?m = (m', s')" by (subst propagate.simps) simp
    then show ?thesis by (simp add: propagated_def)
  qed
  with c(4) nd i show "cell (board (propagated b)) index = symbol_of k" by (simp add: extends_def)
qed

section \<open>Grids on which the search has work to do\<close>

lemma crowded_no_completion:
  assumes "X \<subseteq> {..<81}" "\<forall>x\<in>X. cell b x = CHR ''.''" "\<forall>x\<in>X. \<forall>y\<in>X. x \<noteq> y \<longrightarrow> peer x y"
    "\<forall>x\<in>X. {0..<9} - peers_used b x \<subseteq> S" "finite S" "card S < card X"
  shows "\<not> completion b c"
proof
  assume c: "completion b c"
  let ?f = "\<lambda>x. symbol_bit (cell c x)"
  have d: "digit (cell c x)" if "x \<in> X" for x
    using completion_digit[OF c] that assms(1) by auto
  have "?f x \<in> S" if "x \<in> X" for x
  proof -
    from that assms(1) have x: "x < 81" by auto
    from symbol_bit_less[OF d[OF that]] have "symbol_bit (cell c x) \<in> {0..<9}" by simp
    moreover from completion_avoids[OF c x] assms(2) that
    have "symbol_bit (cell c x) \<notin> peers_used b x" by simp
    ultimately show ?thesis using assms(4) that by blast
  qed
  then have sub: "?f ` X \<subseteq> S" by auto
  from c have nc: "no_conflict c" and full: "\<forall>i<81. cell c i \<noteq> CHR ''.''"
    by (simp_all add: completion_def valid_solution_iff)
  have "inj_on ?f X"
  proof (rule inj_onI)
    fix x y assume x: "x \<in> X" and y: "y \<in> X" and e: "?f x = ?f y"
    show "x = y"
    proof (rule ccontr)
      assume "x \<noteq> y"
      with assms(3) x y have "peer x y" by simp
      with nc full x y assms(1) have "cell c x \<noteq> cell c y" unfolding no_conflict_def by blast
      with e d[OF x] d[OF y] show False by (simp add: symbol_bit_inj)
    qed
  qed
  from card_inj_on_le[OF this sub assms(5)] assms(6) show False by simp
qed

text \<open>
  The first squares of the first two rows are empty and each sees the symbols 2 to 9 in its
  row: the first is solved with 1 by the first pass, and the other, below it, is left
  without a candidate.
\<close>

definition forced_grid :: grid where
  "forced_grid =
     [''.23456789'', ''.56789234'', ''.........'',
      ''.........'', ''.........'', ''.........'',
      ''.........'', ''.........'', ''.........'']"

lemma wf_forced_grid: "wf_grid forced_grid"
  by (simp add: wf_grid_def forced_grid_def digit_def)

lemma conflict_free_forced_grid: "conflict_free forced_grid"
  unfolding conflict_free_def groups_explicit
  by (simp add: forced_grid_def cell_def rowIndex_def columnIndex_def)

lemma forced_grid_cells:
  "cell forced_grid 0 = CHR ''.''" "cell forced_grid 9 = CHR ''.''"
  "0 < k \<Longrightarrow> k < 9 \<Longrightarrow> cell forced_grid k = symbol_of k"
proof -
  show "cell forced_grid 0 = CHR ''.''" "cell forced_grid 9 = CHR ''.''"
    by (simp_all add: forced_grid_def cell_def rowIndex_def columnIndex_def)
  assume "0 < k" "k < 9"
  then show "cell forced_grid k = symbol_of k"
    by (auto dest!: less_9_cases
        simp: forced_grid_def cell_def rowIndex_def columnIndex_def symbol_of_simps)
qed

lemma forced_grid_symbols:
  "symbol_bit ` ((\<Union>row\<in>set forced_grid. set row) - {CHR ''.''}) \<subseteq> {1..<9}"
  by (auto simp: forced_grid_def symbol_bit_def)

lemma forced_grid_first: "{0..<9} - peers_used forced_grid 0 = {0}"
proof -
  have sup: "k \<in> peers_used forced_grid 0" if "0 < k" "k < 9" for k
    using that
    by (intro peers_used_member[of k forced_grid k 0] forced_grid_cells) (simp_all add: rowIndex_def)
  have sub: "peers_used forced_grid 0 \<subseteq> {1..<9}"
    using peers_used_symbols[OF wf_forced_grid, of 0] forced_grid_symbols by (rule order_trans)
  show ?thesis
  proof (intro equalityI subsetI)
    fix x assume "x \<in> {0..<9} - peers_used forced_grid 0"
    with sup[of x] show "x \<in> {0}" by (cases "x = 0") auto
  next
    fix x :: nat assume "x \<in> {0}"
    with sub show "x \<in> {0..<9} - peers_used forced_grid 0" by auto
  qed
qed

lemma forced_grid_second: "{0..<9} - peers_used forced_grid 9 \<subseteq> {0}"
proof -
  have sup: "k \<in> peers_used forced_grid 9" if "0 < k" "k < 9" for k
  proof -
    let ?j = "if k < 4 then k + 14 else k + 6"
    have c: "cell forced_grid ?j = symbol_of k"
      using that by (auto dest!: less_9_cases
          simp: forced_grid_def cell_def rowIndex_def columnIndex_def symbol_of_simps)
    have g: "rowIndex ?j = rowIndex 9 \<or> columnIndex ?j = columnIndex 9 \<or> blockIndex ?j = blockIndex 9"
      using that by (auto dest!: less_9_cases simp: rowIndex_def)
    have "?j < 81" using that by simp
    from this c that(2) g show ?thesis by (rule peers_used_member)
  qed
  show ?thesis
  proof
    fix x assume "x \<in> {0..<9} - peers_used forced_grid 9"
    with sup[of x] show "x \<in> {0}" by (cases "x = 0") auto
  qed
qed

lemma forced_grid_no_completion: "\<not> completion forced_grid c"
proof (rule crowded_no_completion[of "{0, 9}" _ "{0}"])
  show "{0, 9} \<subseteq> {..<81::nat}" by simp
  show "\<forall>x\<in>{0, 9}. cell forced_grid x = CHR ''.''" by (simp add: forced_grid_cells)
  show "\<forall>x\<in>{0, 9::nat}. \<forall>y\<in>{0, 9}. x \<noteq> y \<longrightarrow> peer x y"
    by (simp add: peer_def columnIndex_def)
  show "\<forall>x\<in>{0, 9}. {0..<9} - peers_used forced_grid x \<subseteq> {0}"
    using forced_grid_first forced_grid_second by simp
  show "finite {0::nat}" by simp
  show "card {0::nat} < card {0, 9::nat}" by simp
qed

lemma forced_grid_unsolved: "\<exists>rest. unsolved (BoardMap_init forced_grid) = 0 # rest"
  by (simp add: init_unsolved[OF wf_forced_grid] upt_conv_Cons forced_grid_cells)

text \<open>
  The first three squares are empty and each sees the symbols 3 to 9: three squares of one
  row for the two symbols 1 and 2. The symbols 1 and 2 are nowhere in the grid, so every
  empty square has at least these two candidates and propagation writes nothing.
\<close>

definition pigeon_grid :: grid where
  "pigeon_grid =
     [''...456789'', ''3........'', ''.........'',
      ''.........'', ''.........'', ''.........'',
      ''.........'', ''.........'', ''.........'']"

lemma wf_pigeon_grid: "wf_grid pigeon_grid"
  by (simp add: wf_grid_def pigeon_grid_def digit_def)

lemma conflict_free_pigeon_grid: "conflict_free pigeon_grid"
  unfolding conflict_free_def groups_explicit
  by (simp add: pigeon_grid_def cell_def rowIndex_def columnIndex_def)

lemma pigeon_grid_cells:
  "i < 3 \<Longrightarrow> cell pigeon_grid i = CHR ''.''"
  "2 < k \<Longrightarrow> k < 9 \<Longrightarrow> cell pigeon_grid k = symbol_of k"
  "cell pigeon_grid 9 = symbol_of 2"
proof -
  show "cell pigeon_grid 9 = symbol_of 2"
    by (simp add: pigeon_grid_def cell_def rowIndex_def columnIndex_def symbol_of_simps)
  show "cell pigeon_grid k = symbol_of k" if "2 < k" "k < 9"
    using that by (auto dest!: less_9_cases
        simp: pigeon_grid_def cell_def rowIndex_def columnIndex_def symbol_of_simps)
  assume "i < 3"
  then have "i \<in> {0, 1, 2}" by auto
  then show "cell pigeon_grid i = CHR ''.''"
    by (auto simp: pigeon_grid_def cell_def rowIndex_def columnIndex_def)
qed

lemma pigeon_grid_symbols:
  "symbol_bit ` ((\<Union>row\<in>set pigeon_grid. set row) - {CHR ''.''}) \<subseteq> {2..<9}"
  by (auto simp: pigeon_grid_def symbol_bit_def)

lemma pigeon_grid_two: "{0, 1} \<subseteq> {0..<9} - peers_used pigeon_grid i"
proof -
  have "peers_used pigeon_grid i \<subseteq> {2..<9}"
    using peers_used_symbols[OF wf_pigeon_grid, of i] pigeon_grid_symbols by (rule order_trans)
  then show ?thesis by auto
qed

lemma pigeon_grid_first: "i < 3 \<Longrightarrow> {0..<9} - peers_used pigeon_grid i = {0, 1}"
proof -
  assume i: "i < 3"
  then have b: "blockIndex i = blockIndex 9" "rowIndex i = 0"
    by (auto simp: blockIndex_def rowIndex_def columnIndex_def)
  have sup: "k \<in> peers_used pigeon_grid i" if "1 < k" "k < 9" for k
  proof (cases "k = 2")
    case True
    show ?thesis unfolding True
      by (rule peers_used_member[of 9]) (simp_all add: pigeon_grid_cells b)
  next
    case False
    with that have "2 < k" by simp
    moreover from that have "rowIndex k = 0" by (simp add: rowIndex_def)
    ultimately show ?thesis using that
      by (intro peers_used_member[of k pigeon_grid k i] pigeon_grid_cells) (simp_all add: b)
  qed
  show ?thesis
  proof (intro equalityI subsetI)
    fix x assume "x \<in> {0..<9} - peers_used pigeon_grid i"
    with sup[of x] have "x < 2" by (cases "x < 2") auto
    then show "x \<in> {0, 1}" by auto
  next
    fix x :: nat assume "x \<in> {0, 1}"
    with pigeon_grid_two[of i] show "x \<in> {0..<9} - peers_used pigeon_grid i" by blast
  qed
qed

lemma pigeon_grid_quiet:
  "\<forall>i<81. cell pigeon_grid i = CHR ''.'' \<longrightarrow> card ({0..<9} - peers_used pigeon_grid i) \<noteq> 1"
proof (intro allI impI)
  fix i
  have "card {0, 1::nat} \<le> card ({0..<9} - peers_used pigeon_grid i)"
    by (rule card_mono[OF _ pigeon_grid_two]) simp
  then show "card ({0..<9} - peers_used pigeon_grid i) \<noteq> 1" by simp
qed

text \<open>The object on \<open>pigeon_grid\<close> when the search loop starts, and its first guess.\<close>

lemma pigeon_start:
  shows "board (propagated pigeon_grid) = pigeon_grid"
    and "0 \<in> set (unsolved (propagated pigeon_grid))"
    and "i < 3 \<Longrightarrow> bits (squares (propagated pigeon_grid) i) = {0, 1}"
    and "numPossibilities (propagated pigeon_grid) 0 = 2"
    and "\<forall>i\<in>set (unsolved (propagated pigeon_grid)). 2 \<le> numPossibilities (propagated pigeon_grid) i"
proof -
  let ?m = "propagated pigeon_grid"
  note q = propagated_quiet[OF wf_pigeon_grid pigeon_grid_quiet]
  from q(1) show "board ?m = pigeon_grid" .
  from q(2) show "0 \<in> set (unsolved ?m)" by (simp add: pigeon_grid_cells)
  show b: "bits (squares ?m i) = {0, 1}" if "i < 3" for i
    using q(3) that pigeon_grid_first[OF that] by (simp add: pigeon_grid_cells)
  from b[of 0] show "numPossibilities ?m 0 = 2" by (simp add: numPossibilities_card)
  show "\<forall>i\<in>set (unsolved ?m). 2 \<le> numPossibilities ?m i"
  proof
    fix i assume "i \<in> set (unsolved ?m)"
    with q(2,3) have "bits (squares ?m i) = {0..<9} - peers_used pigeon_grid i" by simp
    moreover have "card {0, 1::nat} \<le> card ({0..<9} - peers_used pigeon_grid i)"
      by (rule card_mono[OF _ pigeon_grid_two]) simp
    ultimately show "2 \<le> numPossibilities ?m i" by (simp add: numPossibilities_card)
  qed
qed

lemma pigeon_select:
  "select_scan (propagated pigeon_grid) (unsolved (propagated pigeon_grid)) (9, 0) = Some (2, 0)"
proof -
  let ?m = "propagated pigeon_grid"
  note r = propagated(4)[OF wf_pigeon_grid]
  have ne: "unsolved ?m \<noteq> []" using pigeon_start(2) by auto
  have nz: "\<forall>i\<in>set (unsolved ?m). numPossibilities ?m i \<noteq> 0" using pigeon_start(5) by auto
  from select_ready[OF r ne nz] obtain f gi where
    s: "select_scan ?m (unsolved ?m) (9, 0) = Some (f, gi)" "gi \<in> set (unsolved ?m)"
    "numPossibilities ?m gi = f"
    "\<forall>j\<in>set (unsolved ?m). f \<le> numPossibilities ?m j \<and> (numPossibilities ?m j = f \<longrightarrow> gi \<le> j)"
    by blast
  from s(4) pigeon_start(2,4) have "f \<le> 2" by auto
  moreover from s(2,3) pigeon_start(5) have "2 \<le> f" by auto
  ultimately have f: "f = 2" by simp
  with s(4) pigeon_start(2,4) have "gi = 0" by auto
  with s(1) f show ?thesis by simp
qed

lemma pigeon_guess:
  shows "guess_of (propagated pigeon_grid) 0 = 1"
    and "guess_board (propagated pigeon_grid) 0 = set_cell pigeon_grid 0 CHR ''1''"
proof -
  let ?m = "propagated pigeon_grid"
  have ne: "unsolved ?m \<noteq> []" using pigeon_start(2) by auto
  from propagated(4)[OF wf_pigeon_grid] pigeon_select ne obtain k where
    k: "k \<in> bits (squares ?m 0)" "\<forall>k'\<in>bits (squares ?m 0). k \<le> k'"
    "guess_of ?m 0 = Suc k" "guess_board ?m 0 = set_cell (board ?m) 0 (symbol_of k)"
    by (rule search_iteration)
  from k(1,2) pigeon_start(3)[of 0] have "k = 0" by auto
  with k(3,4) pigeon_start(1) show "guess_of ?m 0 = 1"
    and "guess_board ?m 0 = set_cell pigeon_grid 0 CHR ''1''" by (simp_all add: symbol_of_simps)
qed

lemma pigeon_guess_fails:
  "\<exists>fuel c tr. solve fuel [] (BoardMap_init (set_cell pigeon_grid 0 CHR ''1'')) = Some (False, c, [], tr)"
proof -
  let ?g = "set_cell pigeon_grid 0 CHR ''1''"
  note w = wf_pigeon_grid
  have z: "(0::nat) < 81" by simp
  have e: "cell pigeon_grid 0 = CHR ''.''" by (simp add: pigeon_grid_cells)
  have d: "digit CHR ''1''" by (simp add: digit_def)
  have wg: "wf_grid ?g" by (rule wf_grid_set_cell[OF w]) (simp add: d)
  have c: "cell ?g j = (if j = 0 then CHR ''1'' else cell pigeon_grid j)" if "j < 81" for j
    by (rule cell_set_cell[OF w z that])
  have s0: "symbol_bit CHR ''1'' = 0" by (simp add: symbol_bit_def)
  have "symbol_bit CHR ''1'' \<notin> peers_used pigeon_grid 0"
    using pigeon_grid_two[of 0] by (auto simp: s0)
  from no_conflict_set_cell[OF w z e _ d this] conflict_free_pigeon_grid
  have cf: "conflict_free ?g" by (simp add: conflict_free_iff)
  have ex: "extends pigeon_grid ?g" by (rule extends_set_cell[OF w z e])
  have nocomp: "\<not> completion ?g c" for c
  proof (rule crowded_no_completion[of "{1, 2}" _ "{1}"])
    show "{1, 2} \<subseteq> {..<81::nat}" by simp
    show "\<forall>x\<in>{1, 2}. cell ?g x = CHR ''.''" by (simp add: c pigeon_grid_cells(1))
    show "\<forall>x\<in>{1, 2::nat}. \<forall>y\<in>{1, 2}. x \<noteq> y \<longrightarrow> peer x y"
      by (simp add: peer_def rowIndex_def)
    show "\<forall>x\<in>{1, 2}. {0..<9} - peers_used ?g x \<subseteq> {1}"
    proof
      fix x :: nat assume x: "x \<in> {1, 2}"
      then have x3: "x < 3" by auto
      have r: "rowIndex 0 = rowIndex x" using x by (auto simp: rowIndex_def)
      have z0: "0 \<in> peers_used ?g x"
        by (rule peers_used_member[of 0]) (simp_all add: c symbol_of_simps r)
      show "{0..<9} - peers_used ?g x \<subseteq> {1}"
      proof
        fix y assume y: "y \<in> {0..<9} - peers_used ?g x"
        with peers_used_mono[OF ex, of x] have "y \<in> {0..<9} - peers_used pigeon_grid x" by auto
        then have "y \<in> {0, 1}" by (simp only: pigeon_grid_first[OF x3])
        with y z0 show "y \<in> {1}" by auto
      qed
    qed
    show "finite {1::nat}" by simp
    show "card {1::nat} < card {1, 2::nat}" by simp
  qed
  from wg obtain fuel ok m' tr where s: "solve fuel [] (BoardMap_init ?g) = Some (ok, m', [], tr)"
    by (rule solve_result)
  from solve_decides(1)[OF wg cf s] nocomp have "\<not> ok" by blast
  with s show ?thesis by auto
qed


text \<open>After the retraction of that guess, square 0 is unsolved with one candidate.\<close>

lemma pigeon_retracted:
  shows "iteration pigeon_grid (retract 0 1 (propagated pigeon_grid))"
    and "0 \<in> set (unsolved (retract 0 1 (propagated pigeon_grid)))"
    and "bits (squares (retract 0 1 (propagated pigeon_grid)) 0) = {1}"
    and "numPossibilities (retract 0 1 (propagated pigeon_grid)) 0 = 1"
proof -
  let ?m = "propagated pigeon_grid"
  have ne: "unsolved ?m \<noteq> []" using pigeon_start(2) by auto
  from pigeon_guess_fails obtain fuel c tr where
    f: "solve fuel [] (BoardMap_init (guess_board ?m 0)) = Some (False, c, [], tr)"
    unfolding pigeon_guess(2) by blast
  from iteration.retracted[OF propagated(3)[OF wf_pigeon_grid] ne pigeon_select f]
  show "iteration pigeon_grid (retract 0 1 ?m)" by (simp add: pigeon_guess(1))
  show "0 \<in> set (unsolved (retract 0 1 ?m))" using pigeon_start(2) by (simp add: retract_def)
  have "squares (retract 0 1 ?m) 0 = squares ?m 0 AND NOT (2 ^ 0)" by (simp add: retract_def)
  then have "bits (squares (retract 0 1 ?m) 0) = bits (squares ?m 0) - {0}"
    by (simp only: bits_and_not bits_exp) simp
  with pigeon_start(3)[of 0] show b: "bits (squares (retract 0 1 ?m) 0) = {1}" by auto
  then show "numPossibilities (retract 0 1 ?m) 0 = 1" by (simp add: numPossibilities_card)
qed

section \<open>Runs on the example grids\<close>

lemma search_false:
  "search fuel [] m = Some (False, m', sol', tr) \<Longrightarrow> ready m \<Longrightarrow>
   ready m' \<and> board m' = board m \<and> unsolved m' = unsolved m"
proof (induction fuel arbitrary: m m' sol' tr)
  case 0
  then show ?case by simp
next
  case (Suc fuel)
  from Suc.prems(1) show ?case
  proof (cases rule: search_Suc_cases)
    case solved
    then show ?thesis by simp
  next
    case dead
    with Suc.prems(2) show ?thesis by simp
  next
    case (adopt fp gi c2 tr1)
    then show ?thesis by simp
  next
    case (retract fp gi c2 s2 tr1 tr2)
    from Suc.prems(2) retract(2,1) obtain k where r: "ready (retract gi (guess_of m gi) m)"
      by (rule search_iteration)
    from solve_static[OF retract(3)] have "s2 = []" .
    with retract(4) have "search fuel [] (retract gi (guess_of m gi) m) = Some (False, m', sol', tr2)"
      by simp
    from Suc.IH[OF this r] show ?thesis by (simp add: retract_def)
  qed
qed

lemma tracks_filled:
  "tracks m \<Longrightarrow> i < 81 \<Longrightarrow> cell (board m) i = symbol_of k \<Longrightarrow> k < 9 \<Longrightarrow> squares m i = 2 ^ k"
  using symbol_of_digit[of k] digit_not_dot[of "symbol_of k"]
  by (simp add: tracks_def mask_of_symbol_of)

lemma forced_grid_run:
  shows "squares (BoardMap_init forced_grid) 0 = 0b111111111"
    and "squares (fst (snd (reduceOptions [] (BoardMap_init forced_grid)))) 0 = 1"
    and "squares (propagated forced_grid) 0 = 1"
    and "cell (board (propagated forced_grid)) 0 = CHR ''1''"
    and "\<exists>fuel m' tr. solve fuel [] (BoardMap_init forced_grid) = Some (False, m', [], tr)
           \<and> board m' = board (propagated forced_grid) \<and> squares m' 0 = 1"
proof -
  let ?m = "BoardMap_init forced_grid"
  note w = wf_forced_grid
  from forced_grid_unsolved obtain rest where u: "unsolved ?m = 0 # rest" by blast
  note ff = first_forced[OF w u forced_grid_first]
  from ff(1) show "squares ?m 0 = 0b111111111" .
  obtain r m1 s1 where ro: "reduceOptions [] ?m = (r, m1, s1)" by (cases "reduceOptions [] ?m") auto
  note t1 = reduceOptions_tracks(1)[OF ro tracks_init[OF w] listed_init[OF w]]
  from ff(5) ro have "cell (board m1) 0 = symbol_of 0" by simp
  from tracks_filled[OF t1 _ this] ro
  show "squares (fst (snd (reduceOptions [] ?m))) 0 = 1" by simp
  note rp = propagated(4)[OF w]
  then have tp: "tracks (propagated forced_grid)" by (simp add: ready_def)
  from tracks_filled[OF tp _ ff(7)] show "squares (propagated forced_grid) 0 = 1" by simp
  from ff(7) show c: "cell (board (propagated forced_grid)) 0 = CHR ''1''" by (simp add: symbol_of_simps)
  from w obtain fuel ok m' tr where s: "solve fuel [] ?m = Some (ok, m', [], tr)"
    by (rule solve_result)
  from solve_decides(1)[OF w conflict_free_forced_grid s] forced_grid_no_completion
  have "\<not> ok" by blast
  with s have f: "solve fuel [] ?m = Some (False, m', [], tr)" by simp
  then have "search fuel [] (propagated forced_grid) = Some (False, m', [], tr)"
    by (simp add: propagated(8)[OF w])
  from search_false[OF this rp] have r': "ready m'" and b: "board m' = board (propagated forced_grid)"
    by simp_all
  from r' have "tracks m'" by (simp add: ready_def)
  from tracks_filled[OF this, of 0 0] b ff(7) have "squares m' 0 = 1" by simp
  with f b show "\<exists>fuel m' tr. solve fuel [] ?m = Some (False, m', [], tr)
           \<and> board m' = board (propagated forced_grid) \<and> squares m' 0 = 1" by blast
qed

lemma forced_grid_row: "bits (rows (BoardMap_init forced_grid) 0) = {1..<9}"
proof -
  let ?G = "\<lambda>i. rowIndex i = 0"
  have "bits (rows (BoardMap_init forced_grid) 0) = used forced_grid ?G"
    using tracks_init[OF wf_forced_grid] by (simp add: tracks_def)
  moreover have "used forced_grid ?G \<subseteq> {1..<9}"
    using used_symbols[OF wf_forced_grid, of ?G] forced_grid_symbols by (rule order_trans)
  moreover have "k \<in> used forced_grid ?G" if "0 < k" "k < 9" for k
  proof -
    have "symbol_bit (cell forced_grid k) = k" "cell forced_grid k \<noteq> CHR ''.''"
      using forced_grid_cells(3)[OF that] symbol_bit_symbol_of[OF that(2)]
        symbol_of_digit[OF that(2)] digit_not_dot by auto
    moreover have "rowIndex k = 0" "k < 81" using that by (simp_all add: rowIndex_def)
    ultimately have "k = symbol_bit (cell forced_grid k) \<and> k < 81 \<and> rowIndex k = 0
        \<and> cell forced_grid k \<noteq> CHR ''.''" by simp
    then show ?thesis unfolding used_def by blast
  qed
  ultimately show ?thesis by auto
qed

text \<open>A square that sees all nine symbols around it is unsolved and has no candidate.\<close>

lemma dead_square:
  assumes "ready m" "no_conflict (board m)" "i < 81"
    "\<forall>k<9. \<exists>j<81. peer i j \<and> cell (board m) j = symbol_of k"
  shows "i \<in> set (unsolved m)" and "numPossibilities m i = 0"
proof -
  from assms(1) have t: "tracks m" and l: "listed m" and s: "stable m" by (simp_all add: ready_def)
  have wf: "wf_grid (board m)" using t by (simp add: tracks_def)
  have e: "cell (board m) i = CHR ''.''"
  proof (rule ccontr)
    assume f: "cell (board m) i \<noteq> CHR ''.''"
    with wf_grid_cell[OF wf assms(3)] have d: "digit (cell (board m) i)" by simp
    from assms(4) symbol_bit_less[OF d] obtain j where
      j: "j < 81" "peer i j" "cell (board m) j = symbol_of (symbol_bit (cell (board m) i))" by blast
    from j(3) symbol_of_symbol_bit[OF d] have "cell (board m) j = cell (board m) i" by simp
    with assms(2,3) j(1,2) f show False unfolding no_conflict_def by metis
  qed
  with l assms(3) show u: "i \<in> set (unsolved m)" by (simp add: listed_def)
  have "k \<in> peers_used (board m) i" if "k < 9" for k
  proof -
    from assms(4) that obtain j where j: "j < 81" "peer i j" "cell (board m) j = symbol_of k" by blast
    from j(2) have "rowIndex j = rowIndex i \<or> columnIndex j = columnIndex i \<or> blockIndex j = blockIndex i"
      unfolding peer_def by metis
    from peers_used_member[OF j(1,3) that this] show ?thesis .
  qed
  note pu = this
  from t assms(3) have sub: "bits (squares m i) \<subseteq> {0..<9}" by (simp add: tracks_def)
  have "bits (squares m i) = {}"
  proof (rule ccontr)
    assume "bits (squares m i) \<noteq> {}"
    then obtain x where x: "x \<in> bits (squares m i)" by blast
    with sub have "x < 9" by auto
    from pu[OF this] x stable_disjoint[OF t s u] show False by blast
  qed
  then show "numPossibilities m i = 0" by (simp add: numPossibilities_card)
qed

lemma search_dead:
  assumes "i \<in> set (unsolved m)" "numPossibilities m i = 0"
  shows "search (Suc fuel) [] m = Some (False, m, [], [])"
proof -
  from assms have "select_scan m (unsolved m) (9, 0) = None"
    unfolding select_scan_None_iff by blast
  moreover from assms(1) have "unsolved m \<noteq> []" by auto
  ultimately show ?thesis by (simp add: search_Suc)
qed

text \<open>
  \<open>solve\<close> on \<open>forced_grid\<close>: propagation writes 1 into square 0, square 9 below it is left
  without a candidate, and the search loop returns false in its first iteration.
\<close>

lemma forced_grid_dead:
  shows "9 \<in> set (unsolved (propagated forced_grid))"
    and "numPossibilities (propagated forced_grid) 9 = 0"
    and "solve (Suc fuel) [] (BoardMap_init forced_grid) = Some (False, propagated forced_grid, [], [])"
proof -
  let ?m = "propagated forced_grid"
  note w = wf_forced_grid
  note r = propagated(4)[OF w] and e = propagated(7)[OF w]
  have nc: "no_conflict (board ?m)"
    using propagate_no_conflict[OF propagated(1)[OF w] tracks_init[OF w] listed_init[OF w]]
      conflict_free_forced_grid by (simp add: conflict_free_iff)
  have p: "\<forall>k<9. \<exists>j<81. peer 9 j \<and> cell (board ?m) j = symbol_of k"
  proof (intro allI impI)
    fix k :: nat assume k: "k < 9"
    show "\<exists>j<81. peer 9 j \<and> cell (board ?m) j = symbol_of k"
    proof (cases "k = 0")
      case True
      have "peer 9 0" by (simp add: peer_def columnIndex_def)
      with forced_grid_run(4) True show ?thesis
        by (intro exI[of _ 0]) (simp add: symbol_of_simps)
    next
      case False
      let ?j = "if k < 4 then k + 14 else k + 6"
      have c: "cell forced_grid ?j = symbol_of k"
        using k False by (auto dest!: less_9_cases
            simp: forced_grid_def cell_def rowIndex_def columnIndex_def symbol_of_simps)
      have j: "?j < 81" using k by simp
      have "symbol_of k \<noteq> CHR ''.''" using symbol_of_digit[OF k] digit_not_dot by blast
      with e j c have "cell (board ?m) ?j = symbol_of k" by (simp add: extends_def)
      moreover have "peer 9 ?j" using k False by (auto dest!: less_9_cases simp: peer_def rowIndex_def)
      ultimately show ?thesis using j by blast
    qed
  qed
  from dead_square[OF r nc _ p] show d: "9 \<in> set (unsolved ?m)" "numPossibilities ?m 9 = 0"
    by simp_all
  from search_dead[OF d] show "solve (Suc fuel) [] (BoardMap_init forced_grid) = Some (False, ?m, [], [])"
    by (simp add: propagated(8)[OF w])
qed

text \<open>
  \<open>solve\<close> on \<open>pigeon_grid\<close>: the trace starts with the guess 1 at square 0, made on the
  object as propagation left it, and goes on, after the trace of the copy, with a guess
  made on the object as the retraction left it.
\<close>

lemma pigeon_trace:
  "\<exists>fuel m' tr1 g tr2. solve fuel [] (BoardMap_init pigeon_grid)
      = Some (False, m', [], (propagated pigeon_grid, 0, 1) # tr1
               @ (retract 0 1 (propagated pigeon_grid), 0, g) # tr2)"
proof -
  let ?m = "propagated pigeon_grid"
  let ?r = "retract 0 1 ?m"
  note w = wf_pigeon_grid
  from w obtain fuel ok m' tr where s: "solve fuel [] (BoardMap_init pigeon_grid) = Some (ok, m', [], tr)"
    by (rule solve_result)
  have nocomp: "\<not> completion pigeon_grid c" for c
  proof (rule crowded_no_completion[of "{0, 1, 2}" _ "{0, 1}"])
    show "{0, 1, 2} \<subseteq> {..<81::nat}" by simp
    show "\<forall>x\<in>{0, 1, 2}. cell pigeon_grid x = CHR ''.''" by (simp add: pigeon_grid_cells(1))
    show "\<forall>x\<in>{0, 1, 2::nat}. \<forall>y\<in>{0, 1, 2}. x \<noteq> y \<longrightarrow> peer x y"
      by (simp add: peer_def rowIndex_def)
    show "\<forall>x\<in>{0, 1, 2}. {0..<9} - peers_used pigeon_grid x \<subseteq> {0, 1}"
      by (simp add: pigeon_grid_first)
    show "finite {0, 1::nat}" by simp
    show "card {0, 1::nat} < card {0, 1, 2::nat}" by simp
  qed
  from solve_decides(1)[OF w conflict_free_pigeon_grid s] nocomp have "\<not> ok" by blast
  with s have f: "search fuel [] ?m = Some (False, m', [], tr)" by (simp add: propagated(8)[OF w])
  then obtain n where n: "fuel = Suc n" by (cases fuel) auto
  have ne: "unsolved ?m \<noteq> []" using pigeon_start(2) by auto
  from f[unfolded n] obtain c2 s2 tr1 tr2 where
    c: "solve n [] (BoardMap_init (guess_board ?m 0)) = Some (False, c2, s2, tr1)"
    "search n s2 ?r = Some (False, m', [], tr2)" "tr = (?m, 0, 1) # tr1 @ tr2"
  proof (cases rule: search_Suc_cases)
    case solved
    then show ?thesis by simp
  next
    case dead
    with pigeon_select show ?thesis by simp
  next
    case (adopt fp gi c2 tr1)
    then show ?thesis by simp
  next
    case (retract fp gi c2 s2 tr1 tr2)
    with pigeon_select have "gi = 0" by simp
    with retract pigeon_guess(1) that show ?thesis by simp
  qed
  from solve_static[OF c(1)] c(2) have sr: "search n [] ?r = Some (False, m', [], tr2)" by simp
  have ur: "unsolved ?r \<noteq> []" using pigeon_retracted(2) by auto
  have np: "numPossibilities ?r i = (if i = 0 then 1 else numPossibilities ?m i)" for i
    using pigeon_retracted(4) by (simp add: numPossibilities_def retract_def)
  have uu: "unsolved ?r = unsolved ?m" by (simp add: retract_def)
  have "\<forall>i\<in>set (unsolved ?r). numPossibilities ?r i \<noteq> 0"
    unfolding uu np using pigeon_start(5) by auto
  then have "select_scan ?r (unsolved ?r) (9, 0) \<noteq> None"
    unfolding select_scan_None_iff by blast
  then obtain fp gi where sel: "select_scan ?r (unsolved ?r) (9, 0) = Some (fp, gi)" by auto
  from iteration_ready[OF pigeon_retracted(1)] have rr: "ready ?r" by simp
  from select_ready[OF rr ur] sel \<open>\<forall>i\<in>set (unsolved ?r). numPossibilities ?r i \<noteq> 0\<close>
  have g: "numPossibilities ?r gi = fp" "gi \<in> set (unsolved ?r)"
    "\<forall>j\<in>set (unsolved ?r). fp \<le> numPossibilities ?r j \<and> (numPossibilities ?r j = fp \<longrightarrow> gi \<le> j)"
    by auto
  have "gi = 0"
  proof (rule ccontr)
    assume "gi \<noteq> 0"
    with g(1,2) pigeon_start(5) have "2 \<le> fp" unfolding uu np by auto
    moreover from g(3) pigeon_retracted(2,4) have "fp \<le> 1" by fastforce
    ultimately show False by simp
  qed
  from search_guesses[OF sr ur sel] this obtain tr' where "tr2 = (?r, 0, guess_of ?r 0) # tr'" by blast
  with s \<open>\<not> ok\<close> c(3) have "solve fuel [] (BoardMap_init pigeon_grid)
      = Some (False, m', [], (?m, 0, 1) # tr1 @ (?r, 0, guess_of ?r 0) # tr')" by simp
  then show ?thesis by blast
qed

text \<open>
  A grid with one empty square, the first, and the same symbols in every other row: the
  symbol 1 is nowhere, and every column but the last repeats its symbol.
\<close>

definition repeat_grid :: grid where
  "repeat_grid =
     [''.23456789'', ''234567892'', ''234567892'',
      ''234567892'', ''234567892'', ''234567892'',
      ''234567892'', ''234567892'', ''234567892'']"

lemma wf_repeat_grid: "wf_grid repeat_grid"
  by (simp add: wf_grid_def repeat_grid_def digit_def)

lemma repeat_grid_cells:
  "cell repeat_grid 0 = CHR ''.''" "cell repeat_grid 9 = CHR ''2''" "cell repeat_grid 18 = CHR ''2''"
  "0 < k \<Longrightarrow> k < 9 \<Longrightarrow> cell repeat_grid k = symbol_of k"
proof -
  show "cell repeat_grid 0 = CHR ''.''" "cell repeat_grid 9 = CHR ''2''" "cell repeat_grid 18 = CHR ''2''"
    by (simp_all add: repeat_grid_def cell_def rowIndex_def columnIndex_def)
  assume "0 < k" "k < 9"
  then show "cell repeat_grid k = symbol_of k"
    by (auto dest!: less_9_cases
        simp: repeat_grid_def cell_def rowIndex_def columnIndex_def symbol_of_simps)
qed

lemma repeat_grid_filled: "i < 81 \<Longrightarrow> i \<noteq> 0 \<Longrightarrow> cell repeat_grid i \<noteq> CHR ''.''"
proof -
  assume i: "i < 81" "i \<noteq> 0"
  have c: "columnIndex i < 9" by (rule columnIndex_less)
  show ?thesis
  proof (cases "rowIndex i = 0")
    case True
    with i have "i < 9" by (simp add: rowIndex_def)
    with i(2) repeat_grid_cells(4)[of i] symbol_of_digit[of i] digit_not_dot show ?thesis by auto
  next
    case False
    with rowIndex_less[OF i(1)] have "rowIndex i \<in> {1, 2, 3, 4, 5, 6, 7, 8}" by auto
    then have "repeat_grid ! rowIndex i = ''234567892''" by (auto simp: repeat_grid_def)
    moreover have "''234567892'' ! columnIndex i \<in> set ''234567892''"
      using c by (intro nth_mem) simp
    ultimately show ?thesis by (auto simp: cell_def)
  qed
qed

lemma repeat_grid_symbols:
  "symbol_bit ` ((\<Union>row\<in>set repeat_grid. set row) - {CHR ''.''}) \<subseteq> {1..<9}"
  by (auto simp: repeat_grid_def symbol_bit_def)

lemma repeat_grid_first: "{0..<9} - peers_used repeat_grid 0 = {0}"
proof -
  have sup: "k \<in> peers_used repeat_grid 0" if "0 < k" "k < 9" for k
    using that
    by (intro peers_used_member[of k repeat_grid k 0] repeat_grid_cells) (simp_all add: rowIndex_def)
  have sub: "peers_used repeat_grid 0 \<subseteq> {1..<9}"
    using peers_used_symbols[OF wf_repeat_grid, of 0] repeat_grid_symbols by (rule order_trans)
  show ?thesis
  proof (intro equalityI subsetI)
    fix x assume "x \<in> {0..<9} - peers_used repeat_grid 0"
    with sup[of x] show "x \<in> {0}" by (cases "x = 0") auto
  next
    fix x :: nat assume "x \<in> {0}"
    with sub show "x \<in> {0..<9} - peers_used repeat_grid 0" by auto
  qed
qed

text \<open>
  \<open>solve\<close> on \<open>repeat_grid\<close>: the first pass writes 1 into square 0, nothing is left in
  \<open>unsolved\<close>, and \<open>solve\<close> returns true.
\<close>

lemma repeat_grid_run:
  shows "cell (board (propagated repeat_grid)) 0 = CHR ''1''"
    and "cell (board (propagated repeat_grid)) 9 = CHR ''2''"
    and "cell (board (propagated repeat_grid)) 18 = CHR ''2''"
    and "solve (Suc fuel) [] (BoardMap_init repeat_grid) = Some (True, propagated repeat_grid, [], [])"
proof -
  let ?m = "propagated repeat_grid"
  note w = wf_repeat_grid
  have "unsolved (BoardMap_init repeat_grid) = 0 # filter (\<lambda>i. cell repeat_grid i = CHR ''.'') [1..<81]"
    by (simp add: init_unsolved[OF w] upt_conv_Cons repeat_grid_cells)
  from first_forced(7)[OF w this repeat_grid_first]
  show c: "cell (board ?m) 0 = CHR ''1''" by (simp add: symbol_of_simps)
  note e = propagated(7)[OF w]
  from e repeat_grid_cells(2,3) show "cell (board ?m) 9 = CHR ''2''" "cell (board ?m) 18 = CHR ''2''"
    by (simp_all add: extends_def)
  have "cell (board ?m) i \<noteq> CHR ''.''" if "i < 81" for i
  proof (cases "i = 0")
    case True
    with c show ?thesis by simp
  next
    case False
    from repeat_grid_filled[OF that False] e that show ?thesis by (simp add: extends_def)
  qed
  moreover from propagated(4)[OF w] have "listed ?m" by (simp add: ready_def)
  ultimately have "set (unsolved ?m) = {}" by (auto simp: listed_def)
  then have "unsolved ?m = []" by simp
  then show "solve (Suc fuel) [] (BoardMap_init repeat_grid) = Some (True, ?m, [], [])"
    by (simp add: propagated(8)[OF w] search_Suc)
qed

lemma single_bit_filled:
  assumes "tracks m" "i < 81" "cell (board m) i \<noteq> CHR ''.''"
  shows "numPossibilities m i = 1"
proof -
  have wf: "wf_grid (board m)" using assms(1) by (simp add: tracks_def)
  from wf_grid_cell[OF wf assms(2)] assms(3) have d: "digit (cell (board m) i)" by simp
  from assms have "squares m i = 2 ^ symbol_bit (cell (board m) i)"
    by (simp add: tracks_def mask_of_symbol)
  with symbol_bit_less[OF d] show ?thesis by (simp add: numPossibilities_card bits_exp)
qed

lemma pass_start_unsolved:
  assumes "pass_start b m"
  shows "set (unsolved m) = {i. i < 81 \<and> numPossibilities m i \<noteq> 1}"
proof -
  note t = pass_start_tracks[OF assms] and l = pass_start_listed[OF assms]
    and u = pass_start_unsettled[OF assms]
  from l have e: "set (unsolved m) = {i. i < 81 \<and> cell (board m) i = CHR ''.''}" by (simp add: listed_def)
  show ?thesis
  proof (intro equalityI subsetI)
    fix i assume "i \<in> set (unsolved m)"
    with e u show "i \<in> {i. i < 81 \<and> numPossibilities m i \<noteq> 1}" by (auto simp: unsettled_def)
  next
    fix i assume "i \<in> {i. i < 81 \<and> numPossibilities m i \<noteq> 1}"
    with single_bit_filled[OF t, of i] e show "i \<in> set (unsolved m)" by auto
  qed
qed

section \<open>The filled squares of a grid\<close>

definition filled :: "grid \<Rightarrow> nat" where
  "filled b = length (filter (\<lambda>i. cell b i \<noteq> CHR ''.'') [0..<81])"

lemma filled_card: "filled b = card {i. i < 81 \<and> cell b i \<noteq> CHR ''.''}"
proof -
  have "filled b = card (set (filter (\<lambda>i. cell b i \<noteq> CHR ''.'') [0..<81]))"
    unfolding filled_def by (rule distinct_card[symmetric]) simp
  also have "set (filter (\<lambda>i. cell b i \<noteq> CHR ''.'') [0..<81]) = {i. i < 81 \<and> cell b i \<noteq> CHR ''.''}"
    by auto
  finally show ?thesis .
qed

lemma filled_set_cell:
  assumes "wf_grid b" "i < 81" "cell b i = CHR ''.''" "c \<noteq> CHR ''.''"
  shows "filled (set_cell b i c) = Suc (filled b)"
proof -
  have "{j. j < 81 \<and> cell (set_cell b i c) j \<noteq> CHR ''.''} = insert i {j. j < 81 \<and> cell b j \<noteq> CHR ''.''}"
    using assms by (auto simp: cell_set_cell split: if_splits)
  moreover have "i \<notin> {j. j < 81 \<and> cell b j \<noteq> CHR ''.''}" using assms(3) by simp
  moreover have "finite {j. j < 81 \<and> cell b j \<noteq> CHR ''.''}" by simp
  ultimately show ?thesis unfolding filled_card by simp
qed

lemma iteration_guess:
  assumes "iteration b m" "unsolved m \<noteq> []"
    "select_scan m (unsolved m) (9, 0) = Some (fewestPossibilities, guessIndex)"
  shows "guessIndex \<in> set (unsolved m)" and "wf_grid (guess_board m guessIndex)"
    and "filled (guess_board m guessIndex) = Suc (filled (board m))"
    and "bits (squares (retract guessIndex (guess_of m guessIndex) m) guessIndex)
           \<subset> bits (squares m guessIndex)"
    and "1 \<le> guess_of m guessIndex" and "guess_of m guessIndex \<le> 9"
    and "guess_of m guessIndex - 1 \<in> bits (squares m guessIndex)"
    and "\<forall>k\<in>bits (squares m guessIndex). guess_of m guessIndex - 1 \<le> k"
    and "guess_board m guessIndex
           = set_cell (board m) guessIndex (symbol_of (guess_of m guessIndex - 1))"
    and "numPossibilities m guessIndex = fewestPossibilities"
    and "\<forall>j\<in>set (unsolved m). numPossibilities m guessIndex \<le> numPossibilities m j"
    and "\<forall>j\<in>set (unsolved m). j < guessIndex \<longrightarrow> numPossibilities m guessIndex < numPossibilities m j"
proof -
  from iteration_ready[OF assms(1)] have r: "ready m" by simp
  then have wf: "wf_grid (board m)" by (simp add: ready_def tracks_def)
  from r assms(3,2) obtain k where it: "guessIndex \<in> set (unsolved m)" "guessIndex < 81"
    "cell (board m) guessIndex = CHR ''.''"
    "k \<in> bits (squares m guessIndex)" "k < 9" "\<forall>k'\<in>bits (squares m guessIndex). k \<le> k'"
    "guess_of m guessIndex = Suc k"
    "guess_board m guessIndex = set_cell (board m) guessIndex (symbol_of k)"
    "wf_grid (guess_board m guessIndex)"
    "numPossibilities m guessIndex = fewestPossibilities"
    "\<forall>j\<in>set (unsolved m). fewestPossibilities \<le> numPossibilities m j
        \<and> (numPossibilities m j = fewestPossibilities \<longrightarrow> guessIndex \<le> j)"
    by (rule search_iteration)
  from it(1) show "guessIndex \<in> set (unsolved m)" .
  from it(9) show "wf_grid (guess_board m guessIndex)" .
  have nd: "symbol_of k \<noteq> CHR ''.''" using symbol_of_digit[OF it(5)] digit_not_dot by blast
  from filled_set_cell[OF wf it(2,3) nd] it(8)
  show "filled (guess_board m guessIndex) = Suc (filled (board m))" by simp
  have "squares (retract guessIndex (Suc k) m) guessIndex = squares m guessIndex AND NOT (2 ^ k)"
    by (simp add: retract_def)
  then have "bits (squares (retract guessIndex (Suc k) m) guessIndex) = bits (squares m guessIndex) - {k}"
    using it(5) by (simp add: bits_exp)
  with it(4,7) show "bits (squares (retract guessIndex (guess_of m guessIndex) m) guessIndex)
           \<subset> bits (squares m guessIndex)" by auto
  from it(7,5) show "1 \<le> guess_of m guessIndex" "guess_of m guessIndex \<le> 9" by simp_all
  from it(4,6,7,8) show "guess_of m guessIndex - 1 \<in> bits (squares m guessIndex)"
    "\<forall>k\<in>bits (squares m guessIndex). guess_of m guessIndex - 1 \<le> k"
    "guess_board m guessIndex = set_cell (board m) guessIndex (symbol_of (guess_of m guessIndex - 1))"
    by simp_all
  from it(10) show "numPossibilities m guessIndex = fewestPossibilities" .
  from it(10,11) show "\<forall>j\<in>set (unsolved m). numPossibilities m guessIndex \<le> numPossibilities m j"
    by simp
  show "\<forall>j\<in>set (unsolved m). j < guessIndex \<longrightarrow> numPossibilities m guessIndex < numPossibilities m j"
  proof (intro ballI impI)
    fix j assume j: "j \<in> set (unsolved m)" "j < guessIndex"
    with it(11) have "fewestPossibilities \<le> numPossibilities m j"
      "numPossibilities m j \<noteq> fewestPossibilities" by auto
    with it(10) show "numPossibilities m guessIndex < numPossibilities m j" by simp
  qed
qed

lemma empty_grid_solved:
  "\<exists>fuel m' tr. solve fuel [] (BoardMap_init empty_grid)
      = Some (True, m', [], (BoardMap_init empty_grid, 0, 1) # tr)
    \<and> valid_solution (board m')"
proof -
  let ?m = "BoardMap_init empty_grid"
  note w = wf_empty_grid
  from w obtain fuel ok m' tr where s: "solve fuel [] ?m = Some (ok, m', [], tr)"
    by (rule solve_result)
  have c: "completion empty_grid solved_grid" by (rule empty_completion[OF valid_solved_grid])
  note cf = completion_conflict_free[OF c]
  from solve_decides[OF w cf s] c have ok: ok and v: "valid_solution (board m')"
    by (auto simp: completion_def)
  have u: "unsolved ?m \<noteq> []" by (simp add: unsolved_empty_grid upt_rec)
  from s have "search fuel [] ?m = Some (ok, m', [], tr)" by (simp add: solve_stable[OF stable_empty_grid])
  from search_guesses[OF this u select_scan_empty_grid] obtain tr' where
    tr: "tr = (?m, 0, guess_of ?m 0) # tr'" by blast
  have g: "guess_of ?m 0 = 1"
    unfolding guess_of_def squares_empty_grid[of 0, simplified]
    by (subst guess_loop.simps) simp
  from s ok tr g v show ?thesis by auto
qed

lemma used_member:
  assumes "j < 81" "G j" "cell b j = symbol_of k" "k < 9"
  shows "k \<in> used b G"
proof -
  have "cell b j \<noteq> CHR ''.''" "symbol_bit (cell b j) = k"
    using assms(3,4) symbol_bit_symbol_of[of k] symbol_of_digit[of k] digit_not_dot by auto
  with assms(1,2) have "k = symbol_bit (cell b j) \<and> j < 81 \<and> G j \<and> cell b j \<noteq> CHR ''.''" by simp
  then show ?thesis unfolding used_def by blast
qed

lemma passes_pass_start:
  "pass_start b m \<Longrightarrow> \<forall>k<n. 0 < fst (reduceOptions [] (passes k m)) \<Longrightarrow> pass_start b (passes n m)"
proof (induction n arbitrary: m)
  case 0
  then show ?case by simp
next
  case (Suc n)
  obtain r m1 s1 where ro: "reduceOptions [] m = (r, m1, s1)" by (cases "reduceOptions [] m") auto
  from Suc.prems(2)[rule_format, of 0] ro have "r > 0" by simp
  from pass_start.again[OF Suc.prems(1) ro this] have p: "pass_start b m1" .
  have "\<forall>k<n. 0 < fst (reduceOptions [] (passes k m1))"
  proof (intro allI impI)
    fix k assume "k < n"
    with Suc.prems(2)[rule_format, of "Suc k"] ro show "0 < fst (reduceOptions [] (passes k m1))" by simp
  qed
  from Suc.IH[OF p this] ro show ?case by simp
qed

lemma propagate_until_zero:
  assumes "pass_start b m"
  shows "\<exists>n. (\<forall>k<n. 0 < fst (reduceOptions [] (passes k m)))
      \<and> reduceOptions [] (passes n m) = (0, passes n m, [])
      \<and> propagate [] m = (passes n m, [])"
proof -
  from propagate_passes[of m] obtain n where
    n: "\<forall>k<n. 0 < fst (reduceOptions [] (passes k m))" "fst (reduceOptions [] (passes n m)) = 0"
    "propagate [] m = (fst (snd (reduceOptions [] (passes n m))), [])" by blast
  note p = passes_pass_start[OF assms n(1)]
  from reduceOptions_zero_same[OF pass_start_tracks[OF p] pass_start_listed[OF p] n(2)]
  have z: "reduceOptions [] (passes n m) = (0, passes n m, [])" .
  with n(1,3) show ?thesis by (intro exI[of _ n]) simp
qed

section \<open>Claims\<close>

text \<open>
  C1. For every 9x9 grid of symbols and empty squares on which \<open>solve\<close> returns true, every
  row, column and block of the bound grid holds each of the nine symbols exactly once and no
  square is empty. As stated, for every such grid, this fails: the constructor does not
  compare the givens, so a full grid with a repeated symbol has nothing in \<open>unsolved\<close> and
  \<open>solve\<close> returns true on it at once. It holds for the grids whose givens repeat no symbol
  in a row, column or block, and on these \<open>solve\<close> always returns.
\<close>

theorem solve_true_is_valid_solution:
  assumes "wf_grid b" "conflict_free b"
  shows "(\<exists>fuel r. solve fuel [] (BoardMap_init b) = Some r)
    \<and> (\<forall>fuel m' solved' tr. solve fuel [] (BoardMap_init b) = Some (True, m', solved', tr) \<longrightarrow>
          valid_solution (board m') \<and> (\<forall>i<81. cell (board m') i \<noteq> CHR ''.''))"
proof (intro conjI allI impI)
  show "\<exists>fuel r. solve fuel [] (BoardMap_init b) = Some r" by (rule solve_terminates[OF assms(1)])
  fix fuel m' solved' tr
  assume "solve fuel [] (BoardMap_init b) = Some (True, m', solved', tr)"
  from solve_decides(2)[OF assms this] show v: "valid_solution (board m')"
    by (simp add: completion_def)
  fix i :: nat assume "i < 81"
  with v show "cell (board m') i \<noteq> CHR ''.''" by (simp add: valid_solution_iff)
qed

theorem solve_true_is_valid_solution_witness:
  "wf_grid puzzle_grid \<and> conflict_free puzzle_grid
   \<and> (\<exists>fuel m' tr. solve fuel [] (BoardMap_init puzzle_grid) = Some (True, m', [], tr)
         \<and> valid_solution (board m') \<and> extends puzzle_grid (board m'))"
proof -
  note w = wf_puzzle_grid and c = completion_conflict_free[OF puzzle_completion]
  from w obtain fuel ok m' tr where s: "solve fuel [] (BoardMap_init puzzle_grid) = Some (ok, m', [], tr)"
    by (rule solve_result)
  from solve_decides(1)[OF w c s] puzzle_completion have ok by blast
  with s have t: "solve fuel [] (BoardMap_init puzzle_grid) = Some (True, m', [], tr)" by simp
  with solve_true_is_valid_solution[OF w c] have "valid_solution (board m')" by blast
  with t solve_frame(2)[OF w t] w c show ?thesis by blast
qed

text \<open>
  The grid of 81 ones is a 9x9 grid of symbols; \<open>solve\<close> returns true on it and leaves it
  as it is, and it is no solution.
\<close>

theorem solve_true_on_repeated_symbol:
  "wf_grid ones_grid
   \<and> (\<forall>fuel. solve (Suc fuel) [] (BoardMap_init ones_grid) = Some (True, BoardMap_init ones_grid, [], []))
   \<and> board (BoardMap_init ones_grid) = ones_grid
   \<and> \<not> valid_solution ones_grid"
proof (intro conjI allI)
  show "wf_grid ones_grid" by (rule wf_ones_grid)
  show "solve (Suc fuel) [] (BoardMap_init ones_grid) = Some (True, BoardMap_init ones_grid, [], [])" for fuel
    by (simp add: solve_no_unsolved full_grid_unsolved wf_ones_grid cell_ones_grid)
  show "board (BoardMap_init ones_grid) = ones_grid" by simp
  have "peer 0 1" by (simp add: peer_def rowIndex_def)
  then have "\<not> no_conflict ones_grid"
    unfolding no_conflict_def using cell_ones_grid[of 0] cell_ones_grid[of 1]
    by (intro notI) (drule spec[of _ 0], drule mp, simp, drule spec[of _ 1], simp)
  then show "\<not> valid_solution ones_grid" by (simp add: valid_solution_iff)
qed

text \<open>
  C2. For every valid 9x9 grid without a completion \<open>solve\<close> returns false; \<open>solve\<close> returns
  true if and only if a complete solution exists, and then it was written into the bound
  grid. For every grid of 81 valid entries this fails, on a full grid with a repeated
  symbol. It holds for the grids whose givens repeat no symbol in a row, column or block:
  on these \<open>solve\<close> returns, with one result whatever the fuel, true exactly when the grid
  has a completion, and then the bound grid is a completion of the grid it started from.
\<close>

theorem solve_true_iff_completion:
  assumes "wf_grid b" "conflict_free b"
  shows "\<exists>fuel ok m' tr. solve fuel [] (BoardMap_init b) = Some (ok, m', [], tr)
     \<and> (\<forall>fuel' r. solve fuel' [] (BoardMap_init b) = Some r \<longrightarrow> r = (ok, m', [], tr))
     \<and> (ok \<longleftrightarrow> (\<exists>c. completion b c))
     \<and> (ok \<longrightarrow> completion b (board m'))"
proof -
  from assms(1) obtain fuel ok m' tr where s: "solve fuel [] (BoardMap_init b) = Some (ok, m', [], tr)"
    "\<forall>fuel' r. solve fuel' [] (BoardMap_init b) = Some r \<longrightarrow> r = (ok, m', [], tr)"
    by (rule solve_result)
  from solve_decides[OF assms s(1)] s show ?thesis by blast
qed

theorem solve_true_iff_completion_witness:
  "wf_grid puzzle_grid \<and> conflict_free puzzle_grid
   \<and> (\<exists>fuel m' tr. solve fuel [] (BoardMap_init puzzle_grid) = Some (True, m', [], tr)
         \<and> completion puzzle_grid (board m'))
   \<and> wf_grid stuck_grid \<and> conflict_free stuck_grid
   \<and> (\<exists>fuel m' tr. solve fuel [] (BoardMap_init stuck_grid) = Some (False, m', [], tr))"
proof -
  note w = wf_puzzle_grid and c = completion_conflict_free[OF puzzle_completion]
  from solve_true_iff_completion[OF w c] obtain fuel ok m' tr where
    s: "solve fuel [] (BoardMap_init puzzle_grid) = Some (ok, m', [], tr)"
    "ok \<longleftrightarrow> (\<exists>c. completion puzzle_grid c)" "ok \<longrightarrow> completion puzzle_grid (board m')"
    by blast
  from s(2) puzzle_completion have ok by blast
  with s have 1: "\<exists>fuel m' tr. solve fuel [] (BoardMap_init puzzle_grid) = Some (True, m', [], tr)
         \<and> completion puzzle_grid (board m')" by auto
  from solve_true_iff_completion[OF wf_stuck_grid conflict_free_stuck_grid] obtain fuel2 ok2 m2 tr2 where
    s2: "solve fuel2 [] (BoardMap_init stuck_grid) = Some (ok2, m2, [], tr2)"
    "ok2 \<longleftrightarrow> (\<exists>c. completion stuck_grid c)"
    by blast
  from s2(2) stuck_grid_no_completion have "\<not> ok2" by blast
  with s2 have 2: "\<exists>fuel m' tr. solve fuel [] (BoardMap_init stuck_grid) = Some (False, m', [], tr)"
    by auto
  from 1 2 w c wf_stuck_grid conflict_free_stuck_grid show ?thesis by blast
qed

text \<open>
  A full grid that repeats a symbol in its first row has no completion, and \<open>solve\<close>
  returns true on it.
\<close>

theorem solve_true_without_completion:
  "wf_grid clash_grid
   \<and> \<not> (\<exists>c. completion clash_grid c)
   \<and> (\<forall>fuel. solve (Suc fuel) [] (BoardMap_init clash_grid) = Some (True, BoardMap_init clash_grid, [], []))"
proof (intro conjI allI)
  show "wf_grid clash_grid" by (rule wf_clash_grid)
  show "solve (Suc fuel) [] (BoardMap_init clash_grid) = Some (True, BoardMap_init clash_grid, [], [])" for fuel
    by (simp add: solve_no_unsolved full_grid_unsolved wf_clash_grid clash_grid_full)
  show "\<not> (\<exists>c. completion clash_grid c)"
  proof
    assume "\<exists>c. completion clash_grid c"
    then obtain c where c: "completion clash_grid c" ..
    have g: "cell clash_grid 0 = CHR ''1''" "cell clash_grid 1 = CHR ''1''"
      by (simp_all add: clash_grid_def cell_def rowIndex_def columnIndex_def)
    from c g have "cell c 0 = CHR ''1''" "cell c 1 = CHR ''1''"
      by (simp_all add: completion_def extends_def)
    moreover have "peer 0 1" by (simp add: peer_def rowIndex_def)
    moreover from c have "no_conflict c" by (simp add: completion_def valid_solution_iff)
    ultimately show False
      unfolding no_conflict_def
      by - (drule spec[of _ 0], drule mp, simp, drule spec[of _ 1], simp)
  qed
qed

text \<open>
  C3. \<open>solve\<close> is deterministic. The one thing a run leaves behind outside the grid is the
  function-local static set of \<open>reduceOptions\<close>, and every run leaves it empty, as it found
  it: so a second run on an equal grid, started with the static set as the first run left
  it, gives the same boolean, the same bound grid and object, and the same sequence of
  guesses. Every guess of that sequence is made at the lowest-index square among the
  unsolved squares with the fewest remaining possibilities, and tries the lowest-valued
  remaining candidate of that square.
\<close>

theorem solve_deterministic:
  assumes "wf_grid b" "solve fuel [] (BoardMap_init b) = Some (ok, m', solved', tr)"
  shows "solved' = []
    \<and> (\<forall>fuel' r. solve fuel' solved' (BoardMap_init b) = Some r \<longrightarrow> r = (ok, m', solved', tr))
    \<and> (\<forall>(s, guessIndex, guess)\<in>set tr. chosen s guessIndex guess)"
proof (intro conjI)
  show e: "solved' = []" using assms(2) by (rule solve_static)
  show "\<forall>fuel' r. solve fuel' solved' (BoardMap_init b) = Some r \<longrightarrow> r = (ok, m', solved', tr)"
    unfolding e using solve_fuel_independent[OF _ assms(2)[unfolded e]] by blast
  from assms(1) obtain m1 where c: "ready m1"
    "\<forall>fuel. solve fuel [] (BoardMap_init b) = search fuel [] m1"
    by (rule solve_init)
  from assms(2) c(2) have "search fuel [] m1 = Some (ok, m', solved', tr)" by simp
  from search_trace[OF this c(1)] show "\<forall>(s, guessIndex, guess)\<in>set tr. chosen s guessIndex guess" .
qed

theorem solve_deterministic_witness:
  "wf_grid empty_grid
   \<and> (\<exists>fuel m' tr. solve fuel [] (BoardMap_init empty_grid)
           = Some (True, m', [], (BoardMap_init empty_grid, 0, 1) # tr)
         \<and> (\<forall>fuel' r. solve fuel' [] (BoardMap_init empty_grid) = Some r \<longrightarrow>
               r = (True, m', [], (BoardMap_init empty_grid, 0, 1) # tr))
         \<and> chosen (BoardMap_init empty_grid) 0 1
         \<and> (\<forall>(s, guessIndex, guess)\<in>set tr. chosen s guessIndex guess))"
proof -
  let ?m = "BoardMap_init empty_grid"
  note w = wf_empty_grid
  from w obtain fuel ok m' tr where s: "solve fuel [] ?m = Some (ok, m', [], tr)"
    by (rule solve_result)
  have "completion empty_grid solved_grid" by (rule empty_completion[OF valid_solved_grid])
  with solve_decides(1)[OF w completion_conflict_free s] have ok by blast
  have u: "unsolved ?m \<noteq> []" by (simp add: unsolved_empty_grid upt_rec)
  from s have "search fuel [] ?m = Some (ok, m', [], tr)" by (simp add: solve_stable[OF stable_empty_grid])
  from search_guesses[OF this u select_scan_empty_grid] obtain tr' where
    tr: "tr = (?m, 0, guess_of ?m 0) # tr'" by blast
  have g: "guess_of ?m 0 = 1"
    unfolding guess_of_def squares_empty_grid[of 0, simplified]
    by (subst guess_loop.simps) simp
  from s \<open>ok\<close> tr g have t: "solve fuel [] ?m = Some (True, m', [], (?m, 0, 1) # tr')" by simp
  note d = solve_deterministic[OF w t]
  from d have 1: "\<forall>fuel' r. solve fuel' [] ?m = Some r \<longrightarrow> r = (True, m', [], (?m, 0, 1) # tr')"
    by blast
  from d have 2: "chosen ?m 0 1" and 3: "\<forall>(s, guessIndex, guess)\<in>set tr'. chosen s guessIndex guess"
    by simp_all
  from w t 1 2 3 show ?thesis by blast
qed

text \<open>
  C4. In every iteration of the search loop of \<open>solve\<close> with unsolved squares left: if an
  unsolved square has no possibility left, the call returns false at once, without a
  guess; otherwise the square chosen for the guess is the first square, in the ascending
  order of \<open>unsolved\<close>, whose count is strictly smaller than the count of every earlier one,
  a square of minimum count, and the symbol guessed is the lowest-valued symbol whose bit
  is set in the mask of that square; the copy is the grid with that symbol in that square.
\<close>

theorem search_loop_iteration:
  assumes "iteration b m" "unsolved m \<noteq> []"
  shows "((\<exists>i\<in>set (unsolved m). numPossibilities m i = 0) \<longrightarrow>
            (\<forall>fuel. search (Suc fuel) [] m = Some (False, m, [], [])))
    \<and> ((\<forall>i\<in>set (unsolved m). numPossibilities m i \<noteq> 0) \<longrightarrow>
          (\<exists>fewestPossibilities guessIndex.
              select_scan m (unsolved m) (9, 0) = Some (fewestPossibilities, guessIndex)
            \<and> sorted (unsolved m) \<and> guessIndex \<in> set (unsolved m)
            \<and> numPossibilities m guessIndex = fewestPossibilities
            \<and> (\<forall>j\<in>set (unsolved m). numPossibilities m guessIndex \<le> numPossibilities m j)
            \<and> (\<forall>j\<in>set (unsolved m). j < guessIndex \<longrightarrow>
                  numPossibilities m guessIndex < numPossibilities m j)
            \<and> 1 \<le> guess_of m guessIndex \<and> guess_of m guessIndex \<le> 9
            \<and> guess_of m guessIndex - 1 \<in> bits (squares m guessIndex)
            \<and> (\<forall>k\<in>bits (squares m guessIndex). guess_of m guessIndex - 1 \<le> k)
            \<and> guess_board m guessIndex
                 = set_cell (board m) guessIndex (symbol_of (guess_of m guessIndex - 1))
            \<and> (\<forall>fuel ok m' solved' tr. search fuel [] m = Some (ok, m', solved', tr) \<longrightarrow>
                  (\<exists>tr'. tr = (m, guessIndex, guess_of m guessIndex) # tr'))))"
proof (intro conjI impI)
  assume "\<exists>i\<in>set (unsolved m). numPossibilities m i = 0"
  with search_dead show "\<forall>fuel. search (Suc fuel) [] m = Some (False, m, [], [])" by blast
next
  assume nz: "\<forall>i\<in>set (unsolved m). numPossibilities m i \<noteq> 0"
  then have "select_scan m (unsolved m) (9, 0) \<noteq> None" by (simp add: select_scan_None_iff)
  then obtain fp gi where s: "select_scan m (unsolved m) (9, 0) = Some (fp, gi)" by auto
  note g = iteration_guess[OF assms s]
  from iteration_ready[OF assms(1)] have srt: "sorted (unsolved m)" by (simp add: ready_def listed_def)
  have tr: "\<forall>fuel ok m' solved' tr. search fuel [] m = Some (ok, m', solved', tr) \<longrightarrow>
                  (\<exists>tr'. tr = (m, gi, guess_of m gi) # tr')"
    using search_guesses[OF _ assms(2) s] by blast
  show "\<exists>fewestPossibilities guessIndex.
              select_scan m (unsolved m) (9, 0) = Some (fewestPossibilities, guessIndex)
            \<and> sorted (unsolved m) \<and> guessIndex \<in> set (unsolved m)
            \<and> numPossibilities m guessIndex = fewestPossibilities
            \<and> (\<forall>j\<in>set (unsolved m). numPossibilities m guessIndex \<le> numPossibilities m j)
            \<and> (\<forall>j\<in>set (unsolved m). j < guessIndex \<longrightarrow>
                  numPossibilities m guessIndex < numPossibilities m j)
            \<and> 1 \<le> guess_of m guessIndex \<and> guess_of m guessIndex \<le> 9
            \<and> guess_of m guessIndex - 1 \<in> bits (squares m guessIndex)
            \<and> (\<forall>k\<in>bits (squares m guessIndex). guess_of m guessIndex - 1 \<le> k)
            \<and> guess_board m guessIndex
                 = set_cell (board m) guessIndex (symbol_of (guess_of m guessIndex - 1))
            \<and> (\<forall>fuel ok m' solved' tr. search fuel [] m = Some (ok, m', solved', tr) \<longrightarrow>
                  (\<exists>tr'. tr = (m, guessIndex, guess_of m guessIndex) # tr'))"
    using s srt g(1) g(10) g(11) g(12) g(5) g(6) g(7) g(8) g(9) tr
    by (intro exI[of _ fp] exI[of _ gi] conjI)
qed

theorem search_loop_iteration_witness:
  "iteration forced_grid (propagated forced_grid)
   \<and> 9 \<in> set (unsolved (propagated forced_grid)) \<and> numPossibilities (propagated forced_grid) 9 = 0
   \<and> search 1 [] (propagated forced_grid) = Some (False, propagated forced_grid, [], [])
   \<and> iteration pigeon_grid (propagated pigeon_grid)
   \<and> 0 \<in> set (unsolved (propagated pigeon_grid))
   \<and> list_all (\<lambda>i. 2 \<le> numPossibilities (propagated pigeon_grid) i) (unsolved (propagated pigeon_grid))
   \<and> select_scan (propagated pigeon_grid) (unsolved (propagated pigeon_grid)) (9, 0) = Some (2, 0)
   \<and> numPossibilities (propagated pigeon_grid) 0 = 2
   \<and> bits (squares (propagated pigeon_grid) 0) = {0, 1}
   \<and> guess_of (propagated pigeon_grid) 0 = 1
   \<and> guess_board (propagated pigeon_grid) 0 = set_cell pigeon_grid 0 CHR ''1''
   \<and> (\<exists>fuel m' tr. solve fuel [] (BoardMap_init pigeon_grid)
         = Some (False, m', [], (propagated pigeon_grid, 0, 1) # tr))"
proof -
  let ?f = "propagated forced_grid" and ?p = "propagated pigeon_grid"
  note itf = propagated(3)[OF wf_forced_grid]
  have uf: "unsolved ?f \<noteq> []" using forced_grid_dead(1) by auto
  from search_loop_iteration[OF itf uf] forced_grid_dead(1,2)
  have 1: "search 1 [] ?f = Some (False, ?f, [], [])" by (metis One_nat_def)
  note itp = propagated(3)[OF wf_pigeon_grid]
  have up: "unsolved ?p \<noteq> []" using pigeon_start(2) by auto
  have nz: "\<forall>i\<in>set (unsolved ?p). numPossibilities ?p i \<noteq> 0" using pigeon_start(5) by auto
  from search_loop_iteration[OF itp up] nz obtain fp gi where
    c: "select_scan ?p (unsolved ?p) (9, 0) = Some (fp, gi)"
    "numPossibilities ?p gi = fp" "gi \<in> set (unsolved ?p)"
    "\<forall>j\<in>set (unsolved ?p). numPossibilities ?p gi \<le> numPossibilities ?p j"
    "\<forall>j\<in>set (unsolved ?p). j < gi \<longrightarrow> numPossibilities ?p gi < numPossibilities ?p j"
    "guess_of ?p gi - 1 \<in> bits (squares ?p gi)" "1 \<le> guess_of ?p gi"
    "\<forall>k\<in>bits (squares ?p gi). guess_of ?p gi - 1 \<le> k"
    "guess_board ?p gi = set_cell (board ?p) gi (symbol_of (guess_of ?p gi - 1))"
    "\<forall>fuel ok m' solved' tr. search fuel [] ?p = Some (ok, m', solved', tr) \<longrightarrow>
                  (\<exists>tr'. tr = (?p, gi, guess_of ?p gi) # tr')"
    by blast
  from c(4) pigeon_start(2,4) have "numPossibilities ?p gi \<le> 2" by auto
  moreover from c(3) pigeon_start(5) have "2 \<le> numPossibilities ?p gi" by auto
  ultimately have two: "numPossibilities ?p gi = 2" by simp
  have gi: "gi = 0"
  proof (rule ccontr)
    assume "gi \<noteq> 0"
    with c(5) pigeon_start(2,4) two show False by auto
  qed
  from c(6,8) pigeon_start(3)[of 0] have "guess_of ?p 0 - 1 = 0" unfolding gi by auto
  with c(7) have g: "guess_of ?p 0 = 1" unfolding gi by simp
  from c(1,2) two gi have 2: "select_scan ?p (unsolved ?p) (9, 0) = Some (2, 0)" by simp
  from c(9) g pigeon_start(1) have 3: "guess_board ?p 0 = set_cell pigeon_grid 0 CHR ''1''"
    unfolding gi by (simp add: symbol_of_simps)
  from pigeon_trace obtain fuel m' tr where
    "solve fuel [] (BoardMap_init pigeon_grid) = Some (False, m', [], (?p, 0, 1) # tr)" by blast
  then have 4: "\<exists>fuel m' tr. solve fuel [] (BoardMap_init pigeon_grid)
         = Some (False, m', [], (?p, 0, 1) # tr)" by blast
  have 5: "list_all (\<lambda>i. 2 \<le> numPossibilities ?p i) (unsolved ?p)"
    using pigeon_start(5) by (simp add: list_all_iff)
  from itf forced_grid_dead(1,2) 1 itp pigeon_start(2) 5 pigeon_start(4) 2 pigeon_start(3)[of 0] g 3 4
  show ?thesis by simp
qed

text \<open>
  C5. For every valid 9x9 grid \<open>solve\<close> terminates. In every iteration of the search loop
  a square of \<open>unsolved\<close> without a candidate makes the selection scan, and with it
  \<open>solve\<close>, return false; otherwise the copy that the recursive call works on is a valid
  grid with one more filled square than the grid of the object that guesses, and the
  retraction of a failed guess takes a bit from the bitmask of the guessed square. In
  particular \<open>solve\<close> terminates on the empty grid.
\<close>

theorem solve_terminates_on_valid_grid:
  assumes "wf_grid b"
  shows "(\<exists>fuel r. solve fuel [] (BoardMap_init b) = Some r)
    \<and> (\<forall>m. iteration b m \<and> unsolved m \<noteq> [] \<longrightarrow>
          ((\<exists>i\<in>set (unsolved m). numPossibilities m i = 0) \<longrightarrow>
              select_scan m (unsolved m) (9, 0) = None
            \<and> (\<forall>fuel. search (Suc fuel) [] m = Some (False, m, [], [])))
        \<and> (\<forall>fewestPossibilities guessIndex.
              select_scan m (unsolved m) (9, 0) = Some (fewestPossibilities, guessIndex) \<longrightarrow>
                wf_grid (guess_board m guessIndex)
              \<and> filled (guess_board m guessIndex) = Suc (filled (board m))
              \<and> bits (squares (retract guessIndex (guess_of m guessIndex) m) guessIndex)
                   \<subset> bits (squares m guessIndex)))"
proof (intro conjI allI impI)
  show "\<exists>fuel r. solve fuel [] (BoardMap_init b) = Some r" by (rule solve_terminates[OF assms])
next
  fix m assume "iteration b m \<and> unsolved m \<noteq> []" and z: "\<exists>i\<in>set (unsolved m). numPossibilities m i = 0"
  from z show "select_scan m (unsolved m) (9, 0) = None" by (simp add: select_scan_None_iff)
  fix fuel
  from z search_dead show "search (Suc fuel) [] m = Some (False, m, [], [])" by blast
next
  fix m fewestPossibilities guessIndex
  assume i: "iteration b m \<and> unsolved m \<noteq> []"
    and s: "select_scan m (unsolved m) (9, 0) = Some (fewestPossibilities, guessIndex)"
  from i have i1: "iteration b m" and i2: "unsolved m \<noteq> []" by simp_all
  note g = iteration_guess[OF i1 i2 s]
  from g(2) show "wf_grid (guess_board m guessIndex)" .
  from g(3) show "filled (guess_board m guessIndex) = Suc (filled (board m))" .
  from g(4) show "bits (squares (retract guessIndex (guess_of m guessIndex) m) guessIndex)
                   \<subset> bits (squares m guessIndex)" .
qed

theorem solve_terminates_on_valid_grid_witness:
  "wf_grid empty_grid
   \<and> (\<exists>fuel r. solve fuel [] (BoardMap_init empty_grid) = Some r)
   \<and> (\<exists>fuel m' tr. solve fuel [] (BoardMap_init empty_grid)
          = Some (True, m', [], (BoardMap_init empty_grid, 0, 1) # tr) \<and> valid_solution (board m'))
   \<and> wf_grid forced_grid \<and> iteration forced_grid (propagated forced_grid)
   \<and> 9 \<in> set (unsolved (propagated forced_grid)) \<and> numPossibilities (propagated forced_grid) 9 = 0
   \<and> select_scan (propagated forced_grid) (unsolved (propagated forced_grid)) (9, 0) = None
   \<and> search 1 [] (propagated forced_grid) = Some (False, propagated forced_grid, [], [])
   \<and> wf_grid pigeon_grid \<and> iteration pigeon_grid (propagated pigeon_grid)
   \<and> select_scan (propagated pigeon_grid) (unsolved (propagated pigeon_grid)) (9, 0) = Some (2, 0)
   \<and> guess_board (propagated pigeon_grid) 0 = set_cell pigeon_grid 0 CHR ''1''
   \<and> wf_grid (set_cell pigeon_grid 0 CHR ''1'')
   \<and> filled (set_cell pigeon_grid 0 CHR ''1'') = Suc (filled pigeon_grid)
   \<and> (\<exists>fuel c tr. solve fuel [] (BoardMap_init (set_cell pigeon_grid 0 CHR ''1'')) = Some (False, c, [], tr))
   \<and> bits (squares (propagated pigeon_grid) 0) = {0, 1}
   \<and> bits (squares (retract 0 1 (propagated pigeon_grid)) 0) = {1}
   \<and> bits (squares (retract 0 1 (propagated pigeon_grid)) 0) \<subset> bits (squares (propagated pigeon_grid) 0)"
proof -
  let ?f = "propagated forced_grid" and ?p = "propagated pigeon_grid"
  note e = solve_terminates_on_valid_grid[OF wf_empty_grid]
  then have 1: "\<exists>fuel r. solve fuel [] (BoardMap_init empty_grid) = Some r" by blast
  note itf = propagated(3)[OF wf_forced_grid]
  have uf: "unsolved ?f \<noteq> []" using forced_grid_dead(1) by auto
  from solve_terminates_on_valid_grid[OF wf_forced_grid] itf uf forced_grid_dead(1,2)
  have 2: "select_scan ?f (unsolved ?f) (9, 0) = None"
    and 3: "search 1 [] ?f = Some (False, ?f, [], [])" by (metis One_nat_def)+
  note itp = propagated(3)[OF wf_pigeon_grid]
  have up: "unsolved ?p \<noteq> []" using pigeon_start(2) by auto
  from solve_terminates_on_valid_grid[OF wf_pigeon_grid] itp up pigeon_select
  have "wf_grid (guess_board ?p 0) \<and> filled (guess_board ?p 0) = Suc (filled (board ?p))
      \<and> bits (squares (retract 0 (guess_of ?p 0) ?p) 0) \<subset> bits (squares ?p 0)" by blast
  then have 4: "wf_grid (set_cell pigeon_grid 0 CHR ''1'')"
    and 5: "filled (set_cell pigeon_grid 0 CHR ''1'') = Suc (filled pigeon_grid)"
    and 6: "bits (squares (retract 0 1 ?p) 0) \<subset> bits (squares ?p 0)"
    by (simp_all add: pigeon_guess pigeon_start(1))
  from wf_empty_grid 1 empty_grid_solved wf_forced_grid itf forced_grid_dead(1,2) 2 3
    wf_pigeon_grid itp pigeon_select pigeon_guess(2) 4 5 pigeon_guess_fails pigeon_start(3)[of 0]
    pigeon_retracted(3) 6
  show ?thesis by simp
qed

text \<open>
  C6. In one call of \<open>reduceOptions\<close> the squares of \<open>unsolved\<close> are visited in ascending
  order. A visited square loses the bits of its row, column and block masks as the squares
  visited before it in this pass left them; when this changes its mask the counter goes up
  by one, and when it leaves exactly one bit, the symbol is written into the grid and the
  bit is added to the three group masks at once, while the square stays in \<open>unsolved\<close>
  until the loop is over: it is erased after the pass. The value returned is the number of
  squares of \<open>unsolved\<close> whose mask changed, and the propagation loop calls \<open>reduceOptions\<close>
  again exactly until a pass returns zero, which leaves the object as it was.
\<close>

theorem reduceOptions_pass:
  assumes "pass_start b m" "reduceOptions [] m = (reduced, m', solved')"
  shows "sorted (unsolved m) \<and> distinct (unsolved m)
    \<and> (\<forall>visited index rest r mi s r1 m1 s1.
          unsolved m = visited @ index # rest \<and> during_pass m visited = (r, mi, s)
          \<and> during_pass m (visited @ [index]) = (r1, m1, s1) \<longrightarrow>
            squares m1 index
              = ((squares mi index AND NOT (rows mi (rowIndex index)))
                   AND NOT (columns mi (columnIndex index))) AND NOT (blocks mi (blockIndex index))
          \<and> unsolved m1 = unsolved m
          \<and> (squares m1 index = squares mi index \<longrightarrow> r1 = r \<and> m1 = mi \<and> s1 = s)
          \<and> (squares m1 index \<noteq> squares mi index \<longrightarrow> r1 = r + 1)
          \<and> (\<forall>k<9. squares m1 index \<noteq> squares mi index \<and> squares m1 index = 2 ^ k \<longrightarrow>
                board m1 = set_cell (board mi) index (symbol_of k)
              \<and> rows m1 = (rows mi)(rowIndex index := rows mi (rowIndex index) OR 2 ^ k)
              \<and> columns m1 = (columns mi)(columnIndex index := columns mi (columnIndex index) OR 2 ^ k)
              \<and> blocks m1 = (blocks mi)(blockIndex index := blocks mi (blockIndex index) OR 2 ^ k)
              \<and> cell (board m') index = symbol_of k \<and> index \<notin> set (unsolved m'))
          \<and> ((\<forall>k<9. squares m1 index \<noteq> 2 ^ k) \<longrightarrow>
                board m1 = board mi \<and> rows m1 = rows mi \<and> columns m1 = columns mi
              \<and> blocks m1 = blocks mi \<and> index \<in> set (unsolved m')))
    \<and> reduced = card {i \<in> set (unsolved m). squares m' i \<noteq> squares m i}
    \<and> unsolved m' = filter (\<lambda>i. cell (board m') i = CHR ''.'') (unsolved m)
    \<and> solved' = []
    \<and> (\<exists>n. (\<forall>k<n. 0 < fst (reduceOptions [] (passes k m)))
           \<and> reduceOptions [] (passes n m) = (0, passes n m, [])
           \<and> propagate [] m = (passes n m, []))"
proof -
  note t = pass_start_tracks[OF assms(1)] and l = pass_start_listed[OF assms(1)]
  from l have 1: "sorted (unsolved m) \<and> distinct (unsolved m)" by (simp add: listed_def)
  note res = reduceOptions_result[OF t l assms(2)]
  have 2: "squares m1 index
              = ((squares mi index AND NOT (rows mi (rowIndex index)))
                   AND NOT (columns mi (columnIndex index))) AND NOT (blocks mi (blockIndex index))
          \<and> unsolved m1 = unsolved m
          \<and> (squares m1 index = squares mi index \<longrightarrow> r1 = r \<and> m1 = mi \<and> s1 = s)
          \<and> (squares m1 index \<noteq> squares mi index \<longrightarrow> r1 = r + 1)
          \<and> (\<forall>k<9. squares m1 index \<noteq> squares mi index \<and> squares m1 index = 2 ^ k \<longrightarrow>
                board m1 = set_cell (board mi) index (symbol_of k)
              \<and> rows m1 = (rows mi)(rowIndex index := rows mi (rowIndex index) OR 2 ^ k)
              \<and> columns m1 = (columns mi)(columnIndex index := columns mi (columnIndex index) OR 2 ^ k)
              \<and> blocks m1 = (blocks mi)(blockIndex index := blocks mi (blockIndex index) OR 2 ^ k)
              \<and> cell (board m') index = symbol_of k \<and> index \<notin> set (unsolved m'))
          \<and> ((\<forall>k<9. squares m1 index \<noteq> 2 ^ k) \<longrightarrow>
                board m1 = board mi \<and> rows m1 = rows mi \<and> columns m1 = columns mi
              \<and> blocks m1 = blocks mi \<and> index \<in> set (unsolved m'))"
    if h: "unsolved m = visited @ index # rest \<and> during_pass m visited = (r, mi, s)
          \<and> during_pass m (visited @ [index]) = (r1, m1, s1)"
    for visited index rest r mi s r1 m1 s1
  proof -
    from h have u: "unsolved m = visited @ index # rest" and d: "during_pass m visited = (r, mi, s)"
      and d1: "during_pass m (visited @ [index]) = (r1, m1, s1)" by simp_all
    from d d1 have st: "reduceOptions_step index (r, mi, s) = (r1, m1, s1)"
      by (simp add: during_pass_def)
    note v = visit[OF t l u d st assms(2)]
    have a: "\<forall>k<9. squares m1 index \<noteq> squares mi index \<and> squares m1 index = 2 ^ k \<longrightarrow>
                board m1 = set_cell (board mi) index (symbol_of k)
              \<and> rows m1 = (rows mi)(rowIndex index := rows mi (rowIndex index) OR 2 ^ k)
              \<and> columns m1 = (columns mi)(columnIndex index := columns mi (columnIndex index) OR 2 ^ k)
              \<and> blocks m1 = (blocks mi)(blockIndex index := blocks mi (blockIndex index) OR 2 ^ k)
              \<and> cell (board m') index = symbol_of k \<and> index \<notin> set (unsolved m')"
    proof (intro allI impI)
      fix k :: nat assume k: "k < 9"
        and c: "squares m1 index \<noteq> squares mi index \<and> squares m1 index = 2 ^ k"
      from v(11) k c have m1: "m1 = commit index (2 ^ k) mi" and tc: "toChar (2 ^ k) = symbol_of k"
        and w: "cell (board m') index = symbol_of k" "index \<notin> set (unsolved m')" by blast+
      from m1 tc w
      show "board m1 = set_cell (board mi) index (symbol_of k)
              \<and> rows m1 = (rows mi)(rowIndex index := rows mi (rowIndex index) OR 2 ^ k)
              \<and> columns m1 = (columns mi)(columnIndex index := columns mi (columnIndex index) OR 2 ^ k)
              \<and> blocks m1 = (blocks mi)(blockIndex index := blocks mi (blockIndex index) OR 2 ^ k)
              \<and> cell (board m') index = symbol_of k \<and> index \<notin> set (unsolved m')"
        by (simp add: commit_def)
    qed
    have b: "(\<forall>k<9. squares m1 index \<noteq> 2 ^ k) \<longrightarrow>
                board m1 = board mi \<and> rows m1 = rows mi \<and> columns m1 = columns mi
              \<and> blocks m1 = blocks mi \<and> index \<in> set (unsolved m')"
    proof
      assume "\<forall>k<9. squares m1 index \<noteq> 2 ^ k"
      with v(12) have "m1 = mi\<lparr>squares := (squares mi)(index := reduced_mask mi index)\<rparr>"
        "index \<in> set (unsolved m')" by blast+
      then show "board m1 = board mi \<and> rows m1 = rows mi \<and> columns m1 = columns mi
              \<and> blocks m1 = blocks mi \<and> index \<in> set (unsolved m')" by simp
    qed
    from v(8) have sq: "squares m1 index
              = ((squares mi index AND NOT (rows mi (rowIndex index)))
                   AND NOT (columns mi (columnIndex index))) AND NOT (blocks mi (blockIndex index))"
      by (simp add: reduced_mask_def)
    from sq v(6) v(9) v(10) a b show ?thesis by (intro conjI)
  qed
  from 1 2 res propagate_until_zero[OF assms(1)] show ?thesis by blast
qed


text \<open>
  The first pass on \<open>forced_grid\<close>. Square 0 is visited first and is left with the bit of 1:
  the 1 is written and the bit is added to the masks of row 0, column 0 and block 0.
  Square 9, in the same column, is visited next, sees that bit, which was not in the mask
  of column 0 before the pass, and is left without a bit. Both squares count; after the
  pass square 0 is erased from \<open>unsolved\<close> and square 9 is not.
\<close>

theorem reduceOptions_pass_witness:
  "pass_start forced_grid (BoardMap_init forced_grid)
   \<and> (\<exists>rest. unsolved (BoardMap_init forced_grid) = 0 # 9 # rest)
   \<and> squares (BoardMap_init forced_grid) 0 = 0b111111111
   \<and> squares (BoardMap_init forced_grid) 9 = 0b111111111
   \<and> 0 \<notin> bits (columns (BoardMap_init forced_grid) 0)
   \<and> (\<exists>m1. during_pass (BoardMap_init forced_grid) [0] = (1, m1, [0])
         \<and> squares m1 0 = 1
         \<and> board m1 = set_cell forced_grid 0 CHR ''1''
         \<and> columns m1 0 = columns (BoardMap_init forced_grid) 0 OR 1
         \<and> unsolved m1 = unsolved (BoardMap_init forced_grid)
         \<and> (\<exists>m2 s2. during_pass (BoardMap_init forced_grid) [0, 9] = (2, m2, s2)
               \<and> squares m2 9 = 0 \<and> board m2 = board m1
               \<and> unsolved m2 = unsolved (BoardMap_init forced_grid)))
   \<and> (\<exists>reduced m'. reduceOptions [] (BoardMap_init forced_grid) = (reduced, m', [])
         \<and> reduced = card {i \<in> set (unsolved (BoardMap_init forced_grid)).
                           squares m' i \<noteq> squares (BoardMap_init forced_grid) i}
         \<and> cell (board m') 0 = CHR ''1'' \<and> 0 \<notin> set (unsolved m') \<and> 9 \<in> set (unsolved m'))"
proof -
  let ?m = "BoardMap_init forced_grid"
  note w = wf_forced_grid
  note ps = pass_start.construct[OF w]
  note t = tracks_init[OF w]
  have u: "\<exists>rest. unsolved ?m = 0 # 9 # rest"
  proof -
    let ?P = "\<lambda>i. cell forced_grid i = CHR ''.''"
    have e: "[0..<81] = [0..<1] @ [1..<9] @ [9..<10] @ [10..<81]"
      using upt_add_eq_append[of 0 1 80] upt_add_eq_append[of 1 9 72] upt_add_eq_append[of 9 10 71]
      by (simp only: le0 one_le_numeral numeral_le_iff semiring_norm append_assoc)
    have f1: "filter ?P [1..<9] = []"
      using forced_grid_cells(3) symbol_of_digit digit_not_dot by (auto simp: filter_empty_conv)
    have f0: "filter ?P [0..<1] = [0]" and f9: "filter ?P [9..<10] = [9]"
      by (simp_all add: forced_grid_cells(1,2))
    have "filter ?P [0..<81] = filter ?P [0..<1] @ filter ?P [1..<9] @ filter ?P [9..<10] @ filter ?P [10..<81]"
      by (simp only: e filter_append)
    then have "filter ?P [0..<81] = 0 # 9 # filter ?P [10..<81]"
      by (simp only: f0 f1 f9 append_Nil append_Cons)
    then show ?thesis by (simp add: init_unsolved[OF w])
  qed
  then obtain rest where rest: "unsolved ?m = 0 # 9 # rest" by blast
  obtain reduced m' s' where ro: "reduceOptions [] ?m = (reduced, m', s')"
    by (cases "reduceOptions [] ?m") auto
  note th = reduceOptions_pass[OF ps ro]
  note vis = th[THEN conjunct2, THEN conjunct2, THEN conjunct1, rule_format]
  from th have s': "s' = []" by blast
  have sq0: "squares ?m 0 = 0b111111111" and sq9: "squares ?m 9 = 0b111111111"
    by (simp_all add: init_squares[OF w] forced_grid_cells)
  have col: "0 \<notin> bits (columns ?m 0)"
  proof -
    have "bits (columns ?m 0) = used forced_grid (\<lambda>i. columnIndex i = 0)"
      using t by (simp add: tracks_def)
    moreover have "used forced_grid (\<lambda>i. columnIndex i = 0) \<subseteq> {1..<9}"
      using used_symbols[OF w, of "\<lambda>i. columnIndex i = 0"] forced_grid_symbols by (rule order_trans)
    ultimately show ?thesis by auto
  qed
  have d0: "during_pass ?m [] = (0, ?m, [])" by (simp add: during_pass_def)
  obtain r1 m1 s1 where d1: "during_pass ?m ([] @ [0]) = (r1, m1, s1)"
    by (cases "during_pass ?m ([] @ [0])") auto
  have u0: "unsolved ?m = [] @ 0 # (9 # rest)" using rest by simp
  note ff = first_forced[OF w rest forced_grid_first]
  from d1 ff(2) have e1: "r1 = 1" "m1 = commit 0 (2 ^ 0) ?m" "s1 = [0]"
    by (simp_all add: during_pass_def)
  then have q1: "squares m1 0 = 1" by (simp add: commit_def)
  with sq0 have ch: "squares m1 0 \<noteq> squares ?m 0 \<and> squares m1 0 = 2 ^ 0" by simp
  note v0 = vis[OF conjI[OF u0 conjI[OF d0 d1]]]
  from v0 have "\<forall>k<9. squares m1 0 \<noteq> squares ?m 0 \<and> squares m1 0 = 2 ^ k \<longrightarrow>
      board m1 = set_cell (board ?m) 0 (symbol_of k)
      \<and> rows m1 = (rows ?m)(rowIndex 0 := rows ?m (rowIndex 0) OR 2 ^ k)
      \<and> columns m1 = (columns ?m)(columnIndex 0 := columns ?m (columnIndex 0) OR 2 ^ k)
      \<and> blocks m1 = (blocks ?m)(blockIndex 0 := blocks ?m (blockIndex 0) OR 2 ^ k)
      \<and> cell (board m') 0 = symbol_of k \<and> 0 \<notin> set (unsolved m')" by (elim conjE)
  note a0 = this[rule_format, of 0, OF zero_less_numeral ch]
  from a0 have a: "board m1 = set_cell (board ?m) 0 (symbol_of 0)"
    "columns m1 = (columns ?m)(columnIndex 0 := columns ?m (columnIndex 0) OR 2 ^ 0)"
    "cell (board m') 0 = symbol_of 0" "0 \<notin> set (unsolved m')"
    by blast+
  from v0 have a5: "unsolved m1 = unsolved ?m" by (elim conjE)
  obtain r2 m2 s2 where d2: "during_pass ?m ([0] @ [9]) = (r2, m2, s2)"
    by (cases "during_pass ?m ([0] @ [9])") auto
  have u1: "unsolved ?m = [0] @ 9 # rest" using rest by simp
  have d1': "during_pass ?m [0] = (r1, m1, s1)" using d1 by simp
  note v1 = vis[OF conjI[OF u1 conjI[OF d1' d2]]]
  from v1 have b: "squares m2 9
      = ((squares m1 9 AND NOT (rows m1 (rowIndex 9))) AND NOT (columns m1 (columnIndex 9)))
          AND NOT (blocks m1 (blockIndex 9))"
    "squares m2 9 \<noteq> squares m1 9 \<longrightarrow> r2 = r1 + 1" "unsolved m2 = unsolved ?m"
    "(\<forall>k<9. squares m2 9 \<noteq> 2 ^ k) \<longrightarrow> board m2 = board m1 \<and> rows m2 = rows m1
        \<and> columns m2 = columns m1 \<and> blocks m2 = blocks m1 \<and> 9 \<in> set (unsolved m')"
    by blast+
  have r19: "rows m1 (rowIndex 9) = rows ?m 1" "squares m1 9 = squares ?m 9"
    "columns m1 (columnIndex 9) = columns ?m 0 OR 1"
    by (simp_all add: e1 commit_def rowIndex_def columnIndex_def)
  have row1: "{1..<9} \<subseteq> bits (rows ?m 1)"
  proof
    fix k :: nat assume "k \<in> {1..<9}"
    then have k: "0 < k" "k < 9" by auto
    let ?j = "if k < 4 then k + 14 else k + 6"
    have c: "cell forced_grid ?j = symbol_of k"
      using k by (auto dest!: less_9_cases
          simp: forced_grid_def cell_def rowIndex_def columnIndex_def symbol_of_simps)
    have "rowIndex ?j = 1" using k by (auto dest!: less_9_cases simp: rowIndex_def)
    moreover have "?j < 81" using k by simp
    ultimately have "k \<in> used forced_grid (\<lambda>i. rowIndex i = 1)"
      using c k(2) by (intro used_member[of ?j])
    with t show "k \<in> bits (rows ?m 1)" by (simp add: tracks_def)
  qed
  have "bits (squares m2 9) = {}"
  proof (rule ccontr)
    assume "bits (squares m2 9) \<noteq> {}"
    then obtain x where x: "x \<in> bits (squares m2 9)" by blast
    have "bits (squares m2 9) = ((bits (squares ?m 9) - bits (rows ?m 1))
        - (bits (columns ?m 0) \<union> bits 1)) - bits (blocks m1 (blockIndex 9))"
      by (simp only: b(1) bits_and_not r19 bits_or)
    with x have x1: "x \<in> bits (squares ?m 9)" and x2: "x \<notin> bits (rows ?m 1)"
      and x3: "x \<notin> bits (1 :: 16 word)" by blast+
    from x1 have x0: "x \<in> {0..<9}" by (simp only: sq9 bits_511)
    have z: "0 \<in> bits (1 :: 16 word)" using bits_exp[of 0] by simp
    show False
    proof (cases "x = 0")
      case True
      with x3 z show False by simp
    next
      case False
      with x0 have "x \<in> {1..<9}" by auto
      with row1 x2 show False by blast
    qed
  qed
  then have q2: "squares m2 9 = 0" using bits_inject[of "squares m2 9" 0] by simp
  have ne: "squares m2 9 \<noteq> squares m1 9" unfolding q2 r19 sq9 by simp
  with b(2) e1 have r2: "r2 = 2" by simp
  have "\<forall>k<9. squares m2 9 \<noteq> 2 ^ k" unfolding q2 by simp
  with b(4) have c: "board m2 = board m1" "9 \<in> set (unsolved m')" by simp_all
  from th have cnt: "reduced = card {i \<in> set (unsolved ?m). squares m' i \<noteq> squares ?m i}" by blast
  have 1: "\<exists>m1. during_pass ?m [0] = (1, m1, [0])
         \<and> squares m1 0 = 1
         \<and> board m1 = set_cell forced_grid 0 CHR ''1''
         \<and> columns m1 0 = columns ?m 0 OR 1
         \<and> unsolved m1 = unsolved ?m
         \<and> (\<exists>m2 s2. during_pass ?m [0, 9] = (2, m2, s2)
               \<and> squares m2 9 = 0 \<and> board m2 = board m1 \<and> unsolved m2 = unsolved ?m)"
    using d1' e1 q1 a(1,2) a5 d2 r2 q2 c(1) b(3)
    by (intro exI[of _ m1] conjI exI[of _ m2] exI[of _ s2])
       (simp_all add: symbol_of_simps columnIndex_def)
  have 2: "\<exists>reduced m'. reduceOptions [] ?m = (reduced, m', [])
         \<and> reduced = card {i \<in> set (unsolved ?m). squares m' i \<noteq> squares ?m i}
         \<and> cell (board m') 0 = CHR ''1'' \<and> 0 \<notin> set (unsolved m') \<and> 9 \<in> set (unsolved m')"
    using ro s' cnt a(3,4) c(2)
    by (intro exI[of _ reduced] exI[of _ m'] conjI) (simp_all add: symbol_of_simps)
  from ps u sq0 sq9 col 1 2 show ?thesis by (intro conjI)
qed

text \<open>
  C7. When \<open>solve\<close> returns true the bound grid holds the complete solution; when it returns
  false the bound grid may differ from the starting grid, for every square committed by
  propagation stays written and nothing is rolled back. The second half holds: on false
  the bound grid is the grid exactly as the propagation loop at the head of \<open>solve\<close> left
  it. On true the bound grid has no empty square and keeps the givens; it is a solution
  when the givens repeat no symbol in a row, column or block, and need not be one
  otherwise.
\<close>

theorem solve_leaves_grid:
  assumes "wf_grid b" "solve fuel [] (BoardMap_init b) = Some (ok, m', solved', tr)"
  shows "(ok \<longrightarrow> complete (board m') \<and> extends b (board m')
            \<and> (conflict_free b \<longrightarrow> valid_solution (board m')))
     \<and> (\<not> ok \<longrightarrow> board m' = board (fst (propagate [] (BoardMap_init b))) \<and> extends b (board m'))"
proof (intro conjI impI)
  note f = solve_frame[OF assms]
  assume ok
  with f show "complete (board m')" by simp
  from f show "extends b (board m')" by simp
  assume "conflict_free b"
  from solve_decides(2)[OF assms(1) this assms(2)] \<open>ok\<close> show "valid_solution (board m')"
    by (simp add: completion_def)
next
  note f = solve_frame[OF assms]
  assume "\<not> ok"
  with f show "board m' = board (fst (propagate [] (BoardMap_init b)))" by simp
  from f show "extends b (board m')" by simp
qed

theorem solve_leaves_grid_witness:
  "wf_grid forced_grid \<and> cell forced_grid 0 = CHR ''.''
   \<and> solve 1 [] (BoardMap_init forced_grid)
       = Some (False, fst (propagate [] (BoardMap_init forced_grid)), [], [])
   \<and> cell (board (fst (propagate [] (BoardMap_init forced_grid)))) 0 = CHR ''1''
   \<and> extends forced_grid (board (fst (propagate [] (BoardMap_init forced_grid))))
   \<and> wf_grid puzzle_grid \<and> conflict_free puzzle_grid
   \<and> (\<exists>fuel m' tr. solve fuel [] (BoardMap_init puzzle_grid) = Some (True, m', [], tr)
         \<and> complete (board m') \<and> extends puzzle_grid (board m') \<and> valid_solution (board m'))"
proof -
  have s: "solve 1 [] (BoardMap_init forced_grid)
       = Some (False, fst (propagate [] (BoardMap_init forced_grid)), [], [])"
    using forced_grid_dead(3)[of 0] by (simp add: propagated_def)
  from solve_leaves_grid[OF wf_forced_grid s]
  have 1: "extends forced_grid (board (fst (propagate [] (BoardMap_init forced_grid))))" by simp
  have 2: "cell (board (fst (propagate [] (BoardMap_init forced_grid)))) 0 = CHR ''1''"
    using forced_grid_run(4) by (simp add: propagated_def)
  note w = wf_puzzle_grid and c = completion_conflict_free[OF puzzle_completion]
  from w obtain fuel ok m' tr where t: "solve fuel [] (BoardMap_init puzzle_grid) = Some (ok, m', [], tr)"
    by (rule solve_result)
  from solve_decides(1)[OF w c t] puzzle_completion have ok by blast
  with t have t': "solve fuel [] (BoardMap_init puzzle_grid) = Some (True, m', [], tr)" by simp
  from solve_leaves_grid[OF w t'] c
  have "complete (board m') \<and> extends puzzle_grid (board m') \<and> valid_solution (board m')" by simp
  with t' have 3: "\<exists>fuel m' tr. solve fuel [] (BoardMap_init puzzle_grid) = Some (True, m', [], tr)
         \<and> complete (board m') \<and> extends puzzle_grid (board m') \<and> valid_solution (board m')" by blast
  from wf_forced_grid forced_grid_cells(1) s 2 1 w c 3 show ?thesis by blast
qed

text \<open>
  On \<open>repeat_grid\<close> the first pass writes 1 into the one empty square and \<open>solve\<close> returns
  true: the bound grid is complete, and its first column holds the symbol 2 twice.
\<close>

theorem solve_true_on_written_clash:
  "wf_grid repeat_grid
   \<and> (\<forall>fuel. solve (Suc fuel) [] (BoardMap_init repeat_grid)
         = Some (True, fst (propagate [] (BoardMap_init repeat_grid)), [], []))
   \<and> cell repeat_grid 0 = CHR ''.''
   \<and> cell (board (fst (propagate [] (BoardMap_init repeat_grid)))) 0 = CHR ''1''
   \<and> cell (board (fst (propagate [] (BoardMap_init repeat_grid)))) 9 = CHR ''2''
   \<and> cell (board (fst (propagate [] (BoardMap_init repeat_grid)))) 18 = CHR ''2''
   \<and> columnIndex 9 = columnIndex 18
   \<and> \<not> valid_solution (board (fst (propagate [] (BoardMap_init repeat_grid))))"
proof -
  let ?b = "board (fst (propagate [] (BoardMap_init repeat_grid)))"
  note r = repeat_grid_run[unfolded propagated_def]
  have p: "peer 9 18" by (simp add: peer_def columnIndex_def)
  have "\<not> no_conflict ?b"
  proof
    assume "no_conflict ?b"
    with p r(2,3) show False unfolding no_conflict_def
      by - (drule spec[of _ 9], drule mp, simp, drule spec[of _ 18], simp)
  qed
  then have "\<not> valid_solution ?b" by (simp add: valid_solution_iff)
  moreover have "columnIndex 9 = columnIndex 18" by (simp add: columnIndex_def)
  moreover have "\<forall>fuel. solve (Suc fuel) [] (BoardMap_init repeat_grid)
         = Some (True, fst (propagate [] (BoardMap_init repeat_grid)), [], [])"
    using r(4) by blast
  ultimately show ?thesis using wf_repeat_grid repeat_grid_cells(1) r(1,2,3) by blast
qed

text \<open>
  C8. Within one \<open>BoardMap\<close> object every square's bitmask only shrinks. No operation
  after construction sets a bit of \<open>squares[index]\<close> that was not set before it:
  not \<open>removePossibilities\<close>, not the retraction of a failed guess, not a whole pass of
  \<open>reduceOptions\<close>, not the propagation loop, and so not \<open>solve\<close> from its entry to its
  return, whatever it returns.
\<close>

theorem bitmask_only_shrinks:
  "bits (squares (removePossibilities index flags m) i) \<subseteq> bits (squares m i)
   \<and> bits (squares (retract guessIndex guess m) i) \<subseteq> bits (squares m i)
   \<and> bits (squares (fst (snd (reduceOptions solved0 m))) i) \<subseteq> bits (squares m i)
   \<and> bits (squares (fst (propagate solved0 m)) i) \<subseteq> bits (squares m i)
   \<and> (\<forall>ok m' solved' tr. solve fuel solved0 m = Some (ok, m', solved', tr) \<longrightarrow>
         bits (squares m' i) \<subseteq> bits (squares m i))"
proof (intro conjI allI impI)
  show "bits (squares (removePossibilities index flags m) i) \<subseteq> bits (squares m i)"
    by (simp add: removePossibilities_def)
  show "bits (squares (retract guessIndex guess m) i) \<subseteq> bits (squares m i)"
    by (rule retract_shrinks)
  show "bits (squares (fst (snd (reduceOptions solved0 m))) i) \<subseteq> bits (squares m i)"
    by (cases "reduceOptions solved0 m") (auto dest: reduceOptions_shrinks)
  show p: "bits (squares (fst (propagate solved0 m)) i) \<subseteq> bits (squares m i)"
    by (cases "propagate solved0 m") (auto dest: propagate_shrinks)
  fix ok m' solved' tr
  assume "solve fuel solved0 m = Some (ok, m', solved', tr)"
  then have "search fuel (snd (propagate solved0 m)) (fst (propagate solved0 m)) = Some (ok, m', solved', tr)"
    by (simp add: solve_def split: prod.splits)
  from search_shrinks[OF this, of i] p show "bits (squares m' i) \<subseteq> bits (squares m i)"
    by blast
qed

text \<open>
  On \<open>forced_grid\<close> the bitmask of square 0 goes from all nine bits to the bit of 1: the
  first call of \<open>removePossibilities\<close> clears the bits of the symbols of its row, the first
  pass leaves the one bit, and so do the propagation loop and \<open>solve\<close>, which returns false.
  On \<open>pigeon_grid\<close> the first guess, 1 at square 0, fails, and its retraction takes the
  bit of 1 from the two bits that square 0 had.
\<close>

theorem bitmask_only_shrinks_witness:
  "bits (squares (BoardMap_init forced_grid) 0) = {0..<9}
   \<and> bits (squares (removePossibilities 0 (rows (BoardMap_init forced_grid) (rowIndex 0))
         (BoardMap_init forced_grid)) 0) = {0}
   \<and> bits (squares (fst (snd (reduceOptions [] (BoardMap_init forced_grid)))) 0) = {0}
   \<and> bits (squares (fst (propagate [] (BoardMap_init forced_grid))) 0) = {0}
   \<and> (\<exists>fuel m' tr. solve fuel [] (BoardMap_init forced_grid) = Some (False, m', [], tr)
         \<and> bits (squares m' 0) \<subseteq> bits (squares (BoardMap_init forced_grid) 0)
         \<and> bits (squares m' 0) = {0})
   \<and> bits (squares (propagated pigeon_grid) 0) = {0, 1}
   \<and> select_scan (propagated pigeon_grid) (unsolved (propagated pigeon_grid)) (9, 0) = Some (2, 0)
   \<and> guess_of (propagated pigeon_grid) 0 = 1
   \<and> bits (squares (retract 0 1 (propagated pigeon_grid)) 0) \<subseteq> bits (squares (propagated pigeon_grid) 0)
   \<and> bits (squares (retract 0 1 (propagated pigeon_grid)) 0) = {1}"
proof -
  let ?m = "BoardMap_init forced_grid" and ?p = "propagated pigeon_grid"
  note r = forced_grid_run
  have e: "bits (1 :: 16 word) = {0}" using bits_exp[of 0] by simp
  from r(1) have 1: "bits (squares ?m 0) = {0..<9}" by (simp add: bits_511)
  have 2: "bits (squares (removePossibilities 0 (rows ?m (rowIndex 0)) ?m) 0) = {0}"
  proof -
    have "bits (squares (removePossibilities 0 (rows ?m (rowIndex 0)) ?m) 0)
        = {0..<9} - {1..<9}"
      using 1 forced_grid_row by (simp add: removePossibilities_def rowIndex_def)
    also have "\<dots> = {0::nat}" by auto
    finally show ?thesis .
  qed
  from r(2) e have 3: "bits (squares (fst (snd (reduceOptions [] ?m))) 0) = {0}" by simp
  from r(3) e have 4: "bits (squares (fst (propagate [] ?m)) 0) = {0}" by (simp add: propagated_def)
  from r(5) obtain fuel m' tr where s: "solve fuel [] ?m = Some (False, m', [], tr)"
    and q: "squares m' 0 = 1" by blast
  from bitmask_only_shrinks[of 0 0 ?m 0 0 0 "[]" fuel] s
  have "bits (squares m' 0) \<subseteq> bits (squares ?m 0)" by blast
  moreover from q e have "bits (squares m' 0) = {0}" by simp
  ultimately have 5: "\<exists>fuel m' tr. solve fuel [] ?m = Some (False, m', [], tr)
         \<and> bits (squares m' 0) \<subseteq> bits (squares ?m 0) \<and> bits (squares m' 0) = {0}"
    using s by blast
  from bitmask_only_shrinks[of 0 0 ?p 0 0 1 "[]" 0]
  have 6: "bits (squares (retract 0 1 ?p) 0) \<subseteq> bits (squares ?p 0)" by blast
  from 1 2 3 4 5 6 pigeon_start(3)[of 0] pigeon_select pigeon_guess(1) pigeon_retracted(3)
  show ?thesis by simp
qed

text \<open>
  C9. At every point of a solving attempt \<open>unsolved\<close> is exactly the set of the squares
  whose bitmask has a number of bits other than one. This holds after construction and
  after each pass of \<open>reduceOptions\<close>. It does not hold after each retraction: the
  retraction clears one bit of a square of \<open>unsolved\<close> and leaves the square there, also
  when one bit remains. What holds at every test of the search loop, after the last pass
  and after each retraction, is that every square with a number of bits other than one is
  in \<open>unsolved\<close>, and that \<open>unsolved\<close> is exactly the set of the empty squares.
\<close>

theorem unsolved_is_not_one_bit:
  "(\<forall>m. pass_start b m \<longrightarrow> set (unsolved m) = {i. i < 81 \<and> numPossibilities m i \<noteq> 1})
   \<and> (\<forall>m reduced m' solved. pass_start b m \<and> reduceOptions [] m = (reduced, m', solved) \<longrightarrow>
         set (unsolved m') = {i. i < 81 \<and> numPossibilities m' i \<noteq> 1})
   \<and> (\<forall>m. iteration b m \<longrightarrow>
         {i. i < 81 \<and> numPossibilities m i \<noteq> 1} \<subseteq> set (unsolved m)
         \<and> set (unsolved m) = {i. i < 81 \<and> cell (board m) i = CHR ''.''})"
proof (intro conjI allI impI)
  fix m assume "pass_start b m"
  then show "set (unsolved m) = {i. i < 81 \<and> numPossibilities m i \<noteq> 1}" by (rule pass_start_unsolved)
next
  fix m reduced m' solved
  assume a: "pass_start b m \<and> reduceOptions [] m = (reduced, m', solved)"
  show "set (unsolved m') = {i. i < 81 \<and> numPossibilities m' i \<noteq> 1}"
  proof (cases "reduced > 0")
    case True
    with a have "pass_start b m'" by (auto intro: pass_start.again)
    then show ?thesis by (rule pass_start_unsolved)
  next
    case False
    with a have "reduceOptions [] m = (0, m', solved)" by simp
    from pass_start_zero(1)[OF _ this, of b] a have "m' = m" by simp
    with a pass_start_unsolved[of b m] show ?thesis by simp
  qed
next
  fix m assume i: "iteration b m"
  from iteration_ready[OF i] have t: "tracks m" and l: "listed m" by (simp_all add: ready_def)
  from l show e: "set (unsolved m) = {i. i < 81 \<and> cell (board m) i = CHR ''.''}" by (simp add: listed_def)
  show "{i. i < 81 \<and> numPossibilities m i \<noteq> 1} \<subseteq> set (unsolved m)"
    using single_bit_filled[OF t] e by auto
qed

theorem unsolved_is_not_one_bit_witness:
  "pass_start pigeon_grid (BoardMap_init pigeon_grid)
   \<and> 0 \<in> set (unsolved (BoardMap_init pigeon_grid))
   \<and> numPossibilities (BoardMap_init pigeon_grid) 0 = 9
   \<and> 3 \<notin> set (unsolved (BoardMap_init pigeon_grid))
   \<and> numPossibilities (BoardMap_init pigeon_grid) 3 = 1
   \<and> set (unsolved (BoardMap_init pigeon_grid))
       = {i. i < 81 \<and> numPossibilities (BoardMap_init pigeon_grid) i \<noteq> 1}
   \<and> pass_start pigeon_grid (propagated pigeon_grid)
   \<and> propagated pigeon_grid = fst (propagate [] (BoardMap_init pigeon_grid))
   \<and> numPossibilities (propagated pigeon_grid) 0 = 2
   \<and> set (unsolved (propagated pigeon_grid))
       = {i. i < 81 \<and> numPossibilities (propagated pigeon_grid) i \<noteq> 1}
   \<and> iteration pigeon_grid (retract 0 1 (propagated pigeon_grid))
   \<and> {i. i < 81 \<and> numPossibilities (retract 0 1 (propagated pigeon_grid)) i \<noteq> 1}
       \<subseteq> set (unsolved (retract 0 1 (propagated pigeon_grid)))
   \<and> set (unsolved (retract 0 1 (propagated pigeon_grid)))
       = {i. i < 81 \<and> cell (board (retract 0 1 (propagated pigeon_grid))) i = CHR ''.''}"
proof -
  let ?m = "BoardMap_init pigeon_grid" and ?p = "propagated pigeon_grid"
  note w = wf_pigeon_grid
  note c = pass_start.construct[OF w]
  note th = unsolved_is_not_one_bit[of pigeon_grid]
  from th c have 1: "set (unsolved ?m) = {i. i < 81 \<and> numPossibilities ?m i \<noteq> 1}" by blast
  have e: "cell pigeon_grid 0 = CHR ''.''" by (simp add: pigeon_grid_cells(1))
  have f: "cell pigeon_grid 3 = CHR ''4''"
    using pigeon_grid_cells(2)[of 3] by (simp add: symbol_of_simps)
  have 2: "numPossibilities ?m 0 = 9"
    by (simp add: numPossibilities_card init_squares[OF w] e bits_511)
  have 3: "numPossibilities ?m 3 = 1"
    using single_bit_filled[OF tracks_init[OF w], of 3] f by simp
  from 1 2 have 4: "0 \<in> set (unsolved ?m)" by simp
  from 1 3 have 5: "3 \<notin> set (unsolved ?m)" by simp
  note p = propagated(2)[OF w]
  from th p have 6: "set (unsolved ?p) = {i. i < 81 \<and> numPossibilities ?p i \<noteq> 1}" by blast
  from th pigeon_retracted(1)
  have 7: "{i. i < 81 \<and> numPossibilities (retract 0 1 ?p) i \<noteq> 1} \<subseteq> set (unsolved (retract 0 1 ?p))"
    and 8: "set (unsolved (retract 0 1 ?p)) = {i. i < 81 \<and> cell (board (retract 0 1 ?p)) i = CHR ''.''}"
    by blast+
  have 9: "?p = fst (propagate [] ?m)" by (simp add: propagated_def)
  from c 4 2 5 3 1 p 9 pigeon_start(4) 6 pigeon_retracted(1) 7 8 show ?thesis by blast
qed

text \<open>
  On \<open>pigeon_grid\<close> the first three squares have the candidates 1 and 2 when the search
  loop starts. The loop guesses 1 at square 0, the copy fails, and the retraction leaves
  square 0 in \<open>unsolved\<close> with the single bit of 2: the next guess of the trace is made on
  that object.
\<close>

theorem unsolved_square_with_one_bit:
  "iteration pigeon_grid (propagated pigeon_grid)
   \<and> propagated pigeon_grid = fst (propagate [] (BoardMap_init pigeon_grid))
   \<and> select_scan (propagated pigeon_grid) (unsolved (propagated pigeon_grid)) (9, 0) = Some (2, 0)
   \<and> guess_of (propagated pigeon_grid) 0 = 1
   \<and> guess_board (propagated pigeon_grid) 0 = set_cell pigeon_grid 0 CHR ''1''
   \<and> (\<exists>fuel c tr. solve fuel [] (BoardMap_init (set_cell pigeon_grid 0 CHR ''1'')) = Some (False, c, [], tr))
   \<and> iteration pigeon_grid (retract 0 1 (propagated pigeon_grid))
   \<and> 0 \<in> set (unsolved (retract 0 1 (propagated pigeon_grid)))
   \<and> bits (squares (retract 0 1 (propagated pigeon_grid)) 0) = {1}
   \<and> numPossibilities (retract 0 1 (propagated pigeon_grid)) 0 = 1
   \<and> set (unsolved (retract 0 1 (propagated pigeon_grid)))
       \<noteq> {i. i < 81 \<and> numPossibilities (retract 0 1 (propagated pigeon_grid)) i \<noteq> 1}
   \<and> (\<exists>fuel m' tr1 g tr2. solve fuel [] (BoardMap_init pigeon_grid)
         = Some (False, m', [], (propagated pigeon_grid, 0, 1) # tr1
                  @ (retract 0 1 (propagated pigeon_grid), 0, g) # tr2))"
proof -
  let ?p = "propagated pigeon_grid"
  have "set (unsolved (retract 0 1 ?p)) \<noteq> {i. i < 81 \<and> numPossibilities (retract 0 1 ?p) i \<noteq> 1}"
    using pigeon_retracted(2,4) by blast
  moreover have "?p = fst (propagate [] (BoardMap_init pigeon_grid))" by (simp add: propagated_def)
  moreover note propagated(3)[OF wf_pigeon_grid] pigeon_select pigeon_guess pigeon_guess_fails
    pigeon_retracted pigeon_trace
  ultimately show ?thesis by blast
qed

text \<open>
  C10. For every valid grid and every square filled at construction, \<open>solve\<close> never changes
  that square: whatever it returns, every given holds its symbol in the bound grid
  afterwards. \<open>solve\<close> returns on every such grid, and the grid it leaves is again a 9x9
  grid of symbols and empty squares.
\<close>

theorem givens_never_change:
  assumes "wf_grid b"
  shows "(\<exists>fuel r. solve fuel [] (BoardMap_init b) = Some r)
    \<and> (\<forall>fuel ok m' solved' tr. solve fuel [] (BoardMap_init b) = Some (ok, m', solved', tr) \<longrightarrow>
          wf_grid (board m') \<and> (\<forall>i<81. cell b i \<noteq> CHR ''.'' \<longrightarrow> cell (board m') i = cell b i))"
proof (intro conjI allI impI)
  show "\<exists>fuel r. solve fuel [] (BoardMap_init b) = Some r" by (rule solve_terminates[OF assms])
  fix fuel ok m' solved' tr
  assume s: "solve fuel [] (BoardMap_init b) = Some (ok, m', solved', tr)"
  from solve_frame(1)[OF assms s] show "wf_grid (board m')" .
  fix i :: nat assume "i < 81" "cell b i \<noteq> CHR ''.''"
  with solve_frame(2)[OF assms s] show "cell (board m') i = cell b i" by (simp add: extends_def)
qed

theorem givens_never_change_witness:
  "wf_grid puzzle_grid \<and> cell puzzle_grid 0 = CHR ''1'' \<and> cell puzzle_grid 80 = CHR ''5''
   \<and> (\<exists>fuel m' tr. solve fuel [] (BoardMap_init puzzle_grid) = Some (True, m', [], tr)
         \<and> cell (board m') 0 = CHR ''1'' \<and> cell (board m') 80 = CHR ''5'')
   \<and> wf_grid stuck_grid \<and> cell stuck_grid 17 = CHR ''9''
   \<and> (\<exists>fuel m' tr. solve fuel [] (BoardMap_init stuck_grid) = Some (False, m', [], tr)
         \<and> cell (board m') 17 = CHR ''9'')"
proof -
  note w = wf_puzzle_grid and c = completion_conflict_free[OF puzzle_completion]
  have p: "cell puzzle_grid 0 = CHR ''1''" "cell puzzle_grid 80 = CHR ''5''"
    by (simp_all add: puzzle_grid_def cell_def rowIndex_def columnIndex_def)
  have q: "cell stuck_grid 17 = CHR ''9''"
    by (simp add: stuck_grid_def cell_def rowIndex_def columnIndex_def)
  from w obtain fuel ok m' tr where s: "solve fuel [] (BoardMap_init puzzle_grid) = Some (ok, m', [], tr)"
    by (rule solve_result)
  from solve_decides(1)[OF w c s] puzzle_completion have ok by blast
  with s have t: "solve fuel [] (BoardMap_init puzzle_grid) = Some (True, m', [], tr)" by simp
  from givens_never_change[OF w] t p
  have 1: "cell (board m') 0 = CHR ''1'' \<and> cell (board m') 80 = CHR ''5''" by fastforce
  from wf_stuck_grid obtain fuel2 ok2 m2 tr2
    where s2: "solve fuel2 [] (BoardMap_init stuck_grid) = Some (ok2, m2, [], tr2)"
    by (rule solve_result)
  from solve_decides(1)[OF wf_stuck_grid conflict_free_stuck_grid s2] stuck_grid_no_completion
  have "\<not> ok2" by blast
  with s2 have t2: "solve fuel2 [] (BoardMap_init stuck_grid) = Some (False, m2, [], tr2)" by simp
  from givens_never_change[OF wf_stuck_grid] t2 q
  have 2: "cell (board m2) 17 = CHR ''9''" by fastforce
  from w p t 1 wf_stuck_grid q t2 2 show ?thesis by blast
qed

end
